(* ===== verification/Prelude.thy ===== *)
theory Prelude
  imports Main "HOL-Library.Word"
begin

text \<open>
  What every component of the library shares: the fault type and the sequencing of
  operations that may fault, \<open>size_t\<close> arithmetic (64 bits wide, the Debug|x64
  configuration of \<open>boost_io_context.vcxproj\<close>, in which \<open>assert\<close> is on), conversions
  between \<open>int\<close> and \<open>size_t\<close>, the object representation of 16 and 32 bit integers, and
  generic facts on slices of lists.
\<close>

unbundle bit_operations_syntax

section \<open>Faults\<close>

text \<open>
  An operation that the source can leave abnormally returns a sum: \<open>Inl\<close> names what went
  wrong, \<open>Inr\<close> carries the result. \<open>AssertFailed\<close> is a failed \<open>assert\<close>;
  \<open>OutOfBounds\<close> an access outside an object; \<open>LengthError\<close> a \<open>std::length_error\<close>;
  \<open>LogFatal\<close> a \<open>LOG(FATAL)\<close>, which ends the process; \<open>UseAfterFree\<close> a read or write
  through a pointer whose object was deleted; \<open>NullDeref\<close> one through \<open>nullptr\<close>;
  \<open>BadFunctionCall\<close> the call of an empty \<open>std::function\<close>; \<open>BadAlloc\<close> a \<open>new\<close> that
  fails; \<open>Deadlock\<close> the lock of a \<open>std::mutex\<close> that the thread holds; \<open>DivByZero\<close> a
  division by zero; \<open>RuntimeError\<close> a \<open>std::runtime_error\<close> that the caller gets;
  \<open>Diverges\<close> a call that never returns.
\<close>

datatype fault =
    AssertFailed
  | OutOfBounds
  | LengthError
  | LogFatal
  | UseAfterFree
  | NullDeref
  | BadFunctionCall
  | BadAlloc
  | Deadlock
  | DivByZero
  | RuntimeError
  | Diverges

type_synonym 'a result = "fault + 'a"

named_theorems wf_intros \<open>operations keep their component's invariant\<close>
named_theorems result_simps \<open>the results of operations under their preconditions\<close>

definition rbind :: "'a result \<Rightarrow> ('a \<Rightarrow> 'b result) \<Rightarrow> 'b result" where
  "rbind m f = (case m of Inl e \<Rightarrow> Inl e | Inr x \<Rightarrow> f x)"

lemma rbind_simps [simp]:
  "rbind (Inl e) f = Inl e"
  "rbind (Inr x) f = f x"
  by (simp_all add: rbind_def)

lemma rbind_eq_Inr: "rbind m f = Inr y \<longleftrightarrow> (\<exists>x. m = Inr x \<and> f x = Inr y)"
  by (cases m) auto

lemma rbind_eq_Inl:
  "rbind m f = Inl e \<longleftrightarrow> m = Inl e \<or> (\<exists>x. m = Inr x \<and> f x = Inl e)"
  by (cases m) auto

lemma rbind_cong [fundef_cong]:
  "m = m' \<Longrightarrow> (\<And>x. m' = Inr x \<Longrightarrow> f x = g x) \<Longrightarrow> rbind m f = rbind m' g"
  by (cases m') auto

section \<open>size_t and int\<close>

text \<open>A value of type \<open>size_t\<close> is a \<open>nat\<close>; its arithmetic wraps modulo $2^{64}$.\<close>

type_synonym byte = "8 word"
type_synonym int16 = "16 word"
type_synonym int32 = "32 word"

abbreviation size_limit :: nat where
  "size_limit \<equiv> 2 ^ 64"

definition szadd :: "nat \<Rightarrow> nat \<Rightarrow> nat" where
  "szadd a b = (a + b) mod size_limit"

definition szsub :: "nat \<Rightarrow> nat \<Rightarrow> nat" where
  "szsub a b = nat ((int a - int b) mod 2 ^ 64)"

lemma szadd_exact [simp]: "a + b < size_limit \<Longrightarrow> szadd a b = a + b"
  by (simp add: szadd_def)

lemma szadd_less: "szadd a b < size_limit"
  by (simp add: szadd_def)

lemma szsub_exact [simp]:
  assumes "b \<le> a" and "a < size_limit"
  shows "szsub a b = a - b"
proof -
  have "(int a - int b) mod 2 ^ 64 = int a - int b"
    using assms by (intro mod_pos_pos_trivial) auto
  then show ?thesis
    using assms(1) by (simp add: szsub_def of_nat_diff)
qed

lemma szsub_less: "szsub a b < size_limit"
proof -
  have "nat ((int a - int b) mod 2 ^ 64) < nat (2 ^ 64)"
    by (subst nat_less_eq_zless) auto
  then show ?thesis
    by (simp add: szsub_def nat_power_eq)
qed

text \<open>Advancing the smaller operand of a wrapped difference shortens the difference.\<close>

lemma szsub_szadd:
  assumes "n \<le> szsub w r"
  shows "szsub w (szadd r n) = szsub w r - n"
proof -
  let ?d = "(int w - int r) mod 2 ^ 64"
  have "(int w - int (szadd r n)) mod 2 ^ 64 = (?d - int n) mod 2 ^ 64"
    by (simp add: szadd_def zmod_int mod_simps algebra_simps)
  also have "\<dots> = ?d - int n"
  proof (rule mod_pos_pos_trivial)
    show "0 \<le> ?d - int n"
      using assms by (simp add: szsub_def le_nat_iff)
    show "?d - int n < 2 ^ 64"
      using pos_mod_bound [of "2 ^ 64 :: int" "int w - int r"] by simp
  qed
  finally show ?thesis
    by (simp add: szsub_def nat_diff_distrib')
qed

text \<open>A conversion of a signed integer to \<open>size_t\<close> is taken modulo $2^{64}$.\<close>

definition size_of_int :: "int \<Rightarrow> nat" where
  "size_of_int i = nat (i mod 2 ^ 64)"

lemma size_of_int_exact [simp]: "0 \<le> i \<Longrightarrow> i < 2 ^ 64 \<Longrightarrow> size_of_int i = nat i"
  by (simp add: size_of_int_def)

text \<open>\<open>static_cast<int>\<close> of a \<open>size_t\<close> keeps the low 32 bits, read in two's complement.\<close>

definition int_of_size :: "nat \<Rightarrow> int" where
  "int_of_size n = signed_take_bit 31 (int n)"

lemma int_of_size_exact [simp]: "n < 2 ^ 31 \<Longrightarrow> int_of_size n = int n"
  by (simp add: int_of_size_def signed_take_bit_int_eq_self)

lemma size_of_int_of_size [simp]: "n < 2 ^ 31 \<Longrightarrow> size_of_int (int_of_size n) = n"
  by simp

section \<open>Object representation of integers\<close>

text \<open>
  The bytes a \<open>memcpy\<close> of a 32 or 16 bit integer reads, lowest address first: x64 is
  little-endian.
\<close>

definition obj32 :: "int32 \<Rightarrow> byte list" where
  "obj32 x = [ucast x, ucast (drop_bit 8 x), ucast (drop_bit 16 x), ucast (drop_bit 24 x)]"

definition mem32 :: "byte list \<Rightarrow> int32" where
  "mem32 bs = ucast (bs ! 0) OR push_bit 8 (ucast (bs ! 1))
     OR push_bit 16 (ucast (bs ! 2)) OR push_bit 24 (ucast (bs ! 3))"

definition obj16 :: "int16 \<Rightarrow> byte list" where
  "obj16 x = [ucast x, ucast (drop_bit 8 x)]"

definition mem16 :: "byte list \<Rightarrow> int16" where
  "mem16 bs = ucast (bs ! 0) OR push_bit 8 (ucast (bs ! 1))"

lemma length_obj [simp]: "length (obj32 x) = 4" "length (obj16 y) = 2"
  by (simp_all add: obj32_def obj16_def)

lemma mem32_obj32 [simp]: "mem32 (obj32 x) = x"
proof (rule bit_word_eqI)
  fix n assume n: "n < LENGTH(32)"
  then consider "n < 8" | "8 \<le> n" "n < 16" | "16 \<le> n" "n < 24" | "24 \<le> n" "n < 32"
    by fastforce
  then show "bit (mem32 (obj32 x)) n = bit x n"
    unfolding mem32_def obj32_def by cases (auto simp: bit_simps)
qed

lemma mem16_obj16 [simp]: "mem16 (obj16 x) = x"
  unfolding mem16_def obj16_def
  by (rule bit_word_eqI) (auto simp: bit_simps)

lemma mem32_obj32_append [simp]: "mem32 (obj32 x @ ys) = x"
  by (subst (2) mem32_obj32 [symmetric]) (simp add: mem32_def obj32_def)

lemma mem16_obj16_append [simp]: "mem16 (obj16 x @ ys) = x"
  by (subst (2) mem16_obj16 [symmetric]) (simp add: mem16_def obj16_def)

lemma mem32_take [simp]: "mem32 (take 4 bs) = mem32 bs"
  by (simp add: mem32_def)

lemma mem16_take [simp]: "mem16 (take 2 bs) = mem16 bs"
  by (simp add: mem16_def)

lemma mem32_append: "4 \<le> length xs \<Longrightarrow> mem32 (xs @ ys) = mem32 xs"
  using mem32_take [of "xs @ ys"] mem32_take [of xs] by simp

text \<open>A count below $2^{31}$ survives the conversion to \<open>int32_t\<close>.\<close>

lemma sint_of_nat32: "n < 2 ^ 31 \<Longrightarrow> sint (of_nat n :: int32) = int n"
  by (simp add: signed_of_nat signed_take_bit_int_eq_self)

lemma sint_small: "unat (x :: int32) < 2 ^ 31 \<Longrightarrow> sint x = int (unat x)"
  using sint_of_nat32 [of "unat x"] by simp

section \<open>Byte order\<close>

text \<open>
  \<open>boost::asio::detail::socket_ops\<close> is not part of the repository, so its four byte-order
  conversions are a parameter. What the code relies on is their documented behaviour: the
  converted integer's object representation has the most significant byte first, and the
  network-to-host conversion is the inverse.
\<close>

record socket_ops =
  host_to_network_long :: "int32 \<Rightarrow> int32"
  network_to_host_long :: "int32 \<Rightarrow> int32"
  host_to_network_short :: "int16 \<Rightarrow> int16"
  network_to_host_short :: "int16 \<Rightarrow> int16"

definition socket_ops_ok :: "socket_ops \<Rightarrow> bool" where
  "socket_ops_ok so \<longleftrightarrow>
     (\<forall>x. obj32 (host_to_network_long so x) = rev (obj32 x)) \<and>
     (\<forall>x. network_to_host_long so (host_to_network_long so x) = x) \<and>
     (\<forall>x. obj16 (host_to_network_short so x) = rev (obj16 x)) \<and>
     (\<forall>x. network_to_host_short so (host_to_network_short so x) = x)"

lemma socket_ops_okD [simp]:
  assumes "socket_ops_ok so"
  shows "network_to_host_long so (host_to_network_long so x) = x"
    and "network_to_host_short so (host_to_network_short so y) = y"
    and "obj32 (host_to_network_long so x) = rev (obj32 x)"
    and "obj16 (host_to_network_short so y) = rev (obj16 y)"
  using assms by (auto simp: socket_ops_ok_def)

text \<open>An instance, for the witnesses: on a little-endian host the conversions swap the bytes.\<close>

definition bswap_ops :: socket_ops where
  "bswap_ops = \<lparr>
     host_to_network_long = (\<lambda>x. mem32 (rev (obj32 x))),
     network_to_host_long = (\<lambda>x. mem32 (rev (obj32 x))),
     host_to_network_short = (\<lambda>x. mem16 (rev (obj16 x))),
     network_to_host_short = (\<lambda>x. mem16 (rev (obj16 x)))\<rparr>"

lemma byte_bit_high [simp]: "8 \<le> n \<Longrightarrow> \<not> bit (a :: byte) n"
  using bit_imp_le_length [of a n] by auto

lemma obj32_mem32: "obj32 (mem32 [a, b, c, d]) = [a, b, c, d]"
  unfolding mem32_def obj32_def
  by (auto intro!: bit_word_eqI simp: bit_simps)

lemma obj16_mem16: "obj16 (mem16 [a, b]) = [a, b]"
  unfolding mem16_def obj16_def
  by (auto intro!: bit_word_eqI simp: bit_simps)

lemma obj32_mem32_rev: "obj32 (mem32 (rev (obj32 x))) = rev (obj32 x)"
  unfolding obj32_def [of x] by (simp add: obj32_mem32)

lemma obj16_mem16_rev: "obj16 (mem16 (rev (obj16 x))) = rev (obj16 x)"
  unfolding obj16_def [of x] by (simp add: obj16_mem16)

lemma bswap_ops_ok: "socket_ops_ok bswap_ops"
  unfolding socket_ops_ok_def bswap_ops_def
  by (simp add: obj32_mem32_rev obj16_mem16_rev)

section \<open>Slices of lists\<close>

text \<open>\<open>segment r w xs\<close> is the part of \<open>xs\<close> from index \<open>r\<close> up to \<open>w\<close>, exclusive;
  \<open>overwrite i ys xs\<close> is \<open>xs\<close> with \<open>ys\<close> written from index \<open>i\<close>.\<close>

definition segment :: "nat \<Rightarrow> nat \<Rightarrow> 'a list \<Rightarrow> 'a list" where
  "segment r w xs = take (w - r) (drop r xs)"

definition overwrite :: "nat \<Rightarrow> 'a list \<Rightarrow> 'a list \<Rightarrow> 'a list" where
  "overwrite i ys xs = take i xs @ ys @ drop (i + length ys) xs"

lemma length_segment [simp]: "w \<le> length xs \<Longrightarrow> length (segment r w xs) = w - r"
  by (simp add: segment_def)

lemma length_overwrite [simp]:
  "i + length ys \<le> length xs \<Longrightarrow> length (overwrite i ys xs) = length xs"
  by (simp add: overwrite_def)

lemma segment_same [simp]: "segment r r xs = []"
  by (simp add: segment_def)

lemma segment_append_left: "w \<le> length xs \<Longrightarrow> segment r w (xs @ ys) = segment r w xs"
  by (simp add: segment_def)

lemma drop_segment: "drop n (segment r w xs) = segment (r + n) w xs"
  by (simp add: segment_def drop_take add.commute)

lemma take_segment: "n \<le> w - r \<Longrightarrow> take n (segment r w xs) = segment r (r + n) xs"
  by (simp add: segment_def min_def)

lemma segment_overwrite_after:
  assumes "r \<le> w" and "w + length ys \<le> length xs"
  shows "segment r (w + length ys) (overwrite w ys xs) = segment r w xs @ ys"
  using assms by (simp add: segment_def overwrite_def drop_take)

lemma segment_overwrite_before:
  assumes "i + length ys = r" and "r \<le> w" and "w \<le> length xs"
  shows "segment i w (overwrite i ys xs) = ys @ segment r w xs"
  using assms by (auto simp: segment_def overwrite_def)

lemma segment_overwrite_exact:
  assumes "i + length ys \<le> length xs"
  shows "segment i (i + length ys) (overwrite i ys xs) = ys"
  using assms by (simp add: segment_def overwrite_def)

lemma segment_overwrite_disjoint:
  assumes "w \<le> i" and "i + length ys \<le> length xs"
  shows "segment r w (overwrite i ys xs) = segment r w xs"
  using assms by (auto simp: segment_def overwrite_def drop_take)

section \<open>Memory\<close>

text \<open>
  A \<open>const char *\<close> is modelled by the bytes that can be read through it: those from the
  byte it points to up to the end of the object it points into. Reading \<open>n\<close> bytes
  (\<open>memcpy\<close>, \<open>std::copy\<close>, the \<open>std::string\<close> constructor) past that end is a fault.
\<close>

definition mem_read :: "nat \<Rightarrow> byte list \<Rightarrow> byte list result" where
  "mem_read n p = (if n \<le> length p then Inr (take n p) else Inl OutOfBounds)"

lemma mem_read_ok [simp]: "n \<le> length p \<Longrightarrow> mem_read n p = Inr (take n p)"
  by (simp add: mem_read_def)

lemma mem_read_eq_Inr: "mem_read n p = Inr xs \<longleftrightarrow> n \<le> length p \<and> xs = take n p"
  by (auto simp: mem_read_def)

text \<open>\<open>std::vector<char>\<close>: its greatest size, \<open>resize\<close>, and a copy into it from an index.\<close>

definition vec_max_size :: nat where
  "vec_max_size = 2 ^ 63 - 1"

definition vec_resize :: "nat \<Rightarrow> byte list \<Rightarrow> byte list result" where
  "vec_resize n v =
     (if vec_max_size < n then Inl LengthError
      else Inr (take n v @ replicate (n - length v) 0))"

definition vec_store :: "nat \<Rightarrow> byte list \<Rightarrow> byte list \<Rightarrow> byte list result" where
  "vec_store i bs v =
     (if i + length bs \<le> length v then Inr (overwrite i bs v) else Inl OutOfBounds)"

lemma vec_resize_ok [simp]:
  "n \<le> vec_max_size \<Longrightarrow> vec_resize n v = Inr (take n v @ replicate (n - length v) 0)"
  by (simp add: vec_resize_def)

lemma vec_store_ok [simp]:
  "i + length bs \<le> length v \<Longrightarrow> vec_store i bs v = Inr (overwrite i bs v)"
  by (simp add: vec_store_def)

lemma case_InrD: "(case r of Inl e \<Rightarrow> False | Inr x \<Rightarrow> P x) \<Longrightarrow> \<exists>x. r = Inr x \<and> P x"
  by (simp split: sum.splits)

lemma case_OptInrD: "(case r of None \<Rightarrow> False | Some (Inl e) \<Rightarrow> False | Some (Inr x) \<Rightarrow> P x) \<Longrightarrow> \<exists>x. r = Some (Inr x) \<and> P x"
  by (simp split: option.splits sum.splits)

section \<open>Decimal numbers\<close>

text \<open>\<open>snprintf\<close> with \<open>%d\<close>: a \<open>uint32_t\<close> is printed as an \<open>int\<close>.\<close>

fun decimal :: "nat \<Rightarrow> string" where
  "decimal n = (if n < 10 then [char_of (48 + n)] else decimal (n div 10) @ [char_of (48 + n mod 10)])"

definition print_d :: "int \<Rightarrow> string" where
  "print_d i = (if i < 0 then ''-'' @ decimal (nat (- i)) else decimal (nat i))"

declare decimal.simps [simp del]

definition undecimal :: "string \<Rightarrow> nat" where
  "undecimal = foldl (\<lambda>a c. a * 10 + (of_char c - 48)) 0"

lemma undecimal_decimal: "undecimal (decimal n) = n"
proof (induction n rule: decimal.induct)
  case (1 n)
  show ?case
  proof (cases "n < 10")
    case True
    then show ?thesis
      by (subst decimal.simps) (simp add: undecimal_def)
  next
    case False
    then have "undecimal (decimal (n div 10)) = n div 10"
      using 1 by simp
    then show ?thesis
      using False by (subst decimal.simps) (simp add: undecimal_def)
  qed
qed

lemma length_decimal: "n < 10 ^ Suc k \<Longrightarrow> length (decimal n) \<le> Suc k"
proof (induction k arbitrary: n)
  case 0
  then show ?case
    by (subst decimal.simps) simp
next
  case (Suc k)
  show ?case
  proof (cases "n < 10")
    case False
    have "n div 10 < 10 ^ Suc k"
      using Suc.prems by (simp add: less_mult_imp_div_less mult.commute)
    then show ?thesis
      using Suc.IH [of "n div 10"] False by (subst decimal.simps) simp
  qed (subst decimal.simps, simp)
qed

lemma decimal_start: "\<exists>c cs. decimal n = c # cs \<and> c \<noteq> CHR ''-''"
proof (induction n rule: decimal.induct)
  case (1 n)
  have d: "char_of (48 + m) \<noteq> CHR ''-''" if "m < 10" for m :: nat
  proof
    assume "char_of (48 + m) = CHR ''-''"
    then have "of_char (char_of (48 + m) :: char) = (of_char (CHR ''-'') :: nat)"
      by simp
    then show False
      using that by simp
  qed
  show ?case
  proof (cases "n < 10")
    case True
    then show ?thesis
      using d by (subst decimal.simps) simp
  next
    case False
    then obtain c cs where "decimal (n div 10) = c # cs" "c \<noteq> CHR ''-''"
      using 1 by blast
    then show ?thesis
      using False by (subst decimal.simps) simp
  qed
qed

lemma print_d_inj:
  assumes "print_d i = print_d j"
  shows "i = j"
proof -
  have neg: "\<not> (a < 0 \<and> \<not> b < 0)" if "print_d a = print_d b" for a b
  proof
    assume "a < 0 \<and> \<not> b < 0"
    then have "CHR ''-'' # decimal (nat (- a)) = decimal (nat b)"
      using that by (simp add: print_d_def)
    then show False
      using decimal_start [of "nat b"] by (metis list.inject)
  qed
  then have "i < 0 \<longleftrightarrow> j < 0"
    using assms assms [symmetric] by blast
  moreover have "decimal a = decimal b \<Longrightarrow> a = b" for a b
    using undecimal_decimal by metis
  ultimately show ?thesis
    using assms by (fastforce simp: print_d_def split: if_splits)
qed

lemma length_print_d: "length (print_d (sint (n :: int32))) \<le> 11"
proof -
  have "- (2 ^ 31) \<le> sint n" "sint n < 2 ^ 31"
    using sint_ge [of n] sint_lt [of n] by simp_all
  then have "nat (- sint n) < 10 ^ Suc 9" "nat (sint n) < 10 ^ Suc 9"
    by simp_all
  then show ?thesis
    using length_decimal [of "nat (- sint n)" 9] length_decimal [of "nat (sint n)" 9] by (auto simp: print_d_def)
qed

end
