(* ===== verification/StringPiece.thy ===== *)
theory StringPiece
  imports Prelude "HOL-Library.List_Lexorder" "HOL-Library.Sublist"
begin

text \<open>
  \<open>StringPiece.h\<close>: a view of a piece of memory. The pointer \<open>ptr_\<close> is the list of the
  bytes that can be read through it and \<open>length_\<close> is an \<open>int\<close>, which may exceed that
  list or be negative in a view that was built or cut wrongly; operations that would then
  read outside the object fault. The lemmas show that on the views that lie inside their
  object the comparison operators are the lexicographic order of the viewed strings.
\<close>

section \<open>State and accessors\<close>

record StringPiece =
  ptr :: "byte list"
  len :: int

definition StringPiece_default :: StringPiece where
  "StringPiece_default = \<lparr>ptr = [], len = 0\<rparr>"

definition StringPiece_of_string :: "byte list \<Rightarrow> StringPiece" where
  "StringPiece_of_string str = \<lparr>ptr = str, len = int_of_size (length str)\<rparr>"

definition StringPiece_of_mem :: "byte list \<Rightarrow> int \<Rightarrow> StringPiece" where
  "StringPiece_of_mem offset n = \<lparr>ptr = offset, len = n\<rparr>"

text \<open>\<open>strlen\<close> counts the bytes before the first null byte; there must be one.\<close>

definition strlen :: "byte list \<Rightarrow> nat result" where
  "strlen p =
     (let n = length (takeWhile (\<lambda>c. c \<noteq> 0) p)
      in if n < length p then Inr n else Inl OutOfBounds)"

definition StringPiece_of_cstr :: "byte list \<Rightarrow> StringPiece result" where
  "StringPiece_of_cstr str = rbind (strlen str) (\<lambda>n. Inr \<lparr>ptr = str, len = int_of_size n\<rparr>)"

definition StringPiece_empty :: "StringPiece \<Rightarrow> bool" where
  "StringPiece_empty x \<longleftrightarrow> len x = 0"

definition StringPiece_clear :: "StringPiece \<Rightarrow> StringPiece" where
  "StringPiece_clear x = x\<lparr>ptr := [], len := 0\<rparr>"

definition StringPiece_set :: "byte list \<Rightarrow> int \<Rightarrow> StringPiece \<Rightarrow> StringPiece" where
  "StringPiece_set buffer n x = x\<lparr>ptr := buffer, len := n\<rparr>"

definition StringPiece_set_cstr :: "byte list \<Rightarrow> StringPiece \<Rightarrow> StringPiece result" where
  "StringPiece_set_cstr str x = rbind (strlen str) (\<lambda>n. Inr (x\<lparr>ptr := str, len := int_of_size n\<rparr>))"

text \<open>From a \<open>void\<close> pointer; the bytes are the same.\<close>

definition StringPiece_set_void :: "byte list \<Rightarrow> int \<Rightarrow> StringPiece \<Rightarrow> StringPiece" where
  "StringPiece_set_void buffer n x = x\<lparr>ptr := buffer, len := n\<rparr>"

definition StringPiece_index :: "StringPiece \<Rightarrow> int \<Rightarrow> byte result" where
  "StringPiece_index x i =
     (if 0 \<le> i \<and> i < int (length (ptr x)) then Inr (ptr x ! nat i) else Inl OutOfBounds)"

definition StringPiece_remove_prefix :: "int \<Rightarrow> StringPiece \<Rightarrow> StringPiece result" where
  "StringPiece_remove_prefix n x =
     (if 0 \<le> n \<and> n \<le> int (length (ptr x))
      then Inr (x\<lparr>ptr := drop (nat n) (ptr x), len := len x - n\<rparr>)
      else Inl OutOfBounds)"

definition StringPiece_remove_suffix :: "int \<Rightarrow> StringPiece \<Rightarrow> StringPiece" where
  "StringPiece_remove_suffix n x = x\<lparr>len := len x - n\<rparr>"

text \<open>A negative length becomes a size that is larger than any string's.\<close>

definition StringPiece_as_string :: "StringPiece \<Rightarrow> byte list result" where
  "StringPiece_as_string x =
     (if vec_max_size < size_of_int (len x) then Inl LengthError else mem_read (size_of_int (len x)) (ptr x))"

definition StringPiece_CopyToString :: "StringPiece \<Rightarrow> byte list \<Rightarrow> byte list result" where
  "StringPiece_CopyToString x target =
     (if vec_max_size < size_of_int (len x) then Inl LengthError else mem_read (size_of_int (len x)) (ptr x))"

section \<open>Comparisons\<close>

text \<open>
  \<open>memcmp\<close> compares bytes as unsigned values and stops at the first difference; the C
  library promises the sign of its result only, which is what the model returns.
\<close>

fun bytes_cmp :: "byte list \<Rightarrow> byte list \<Rightarrow> int" where
  "bytes_cmp (a # as) (b # bs) =
     (if a < b then -1 else if b < a then 1 else bytes_cmp as bs)"
| "bytes_cmp _ _ = 0"

definition memcmp :: "byte list \<Rightarrow> byte list \<Rightarrow> nat \<Rightarrow> int result" where
  "memcmp p q n =
     rbind (mem_read n p) (\<lambda>xs. rbind (mem_read n q) (\<lambda>ys. Inr (bytes_cmp xs ys)))"

definition StringPiece_eq :: "StringPiece \<Rightarrow> StringPiece \<Rightarrow> bool result" where
  "StringPiece_eq x y =
     (if len x = len y
      then rbind (memcmp (ptr x) (ptr y) (size_of_int (len x))) (\<lambda>r. Inr (r = 0))
      else Inr False)"

definition StringPiece_neq :: "StringPiece \<Rightarrow> StringPiece \<Rightarrow> bool result" where
  "StringPiece_neq x y = rbind (StringPiece_eq x y) (\<lambda>b. Inr (\<not> b))"

text \<open>The macro \<open>STRINGPIECE_BINARY_PREDICATE(cmp, auxcmp)\<close> and its four uses.\<close>

definition binary_predicate ::
    "(int \<Rightarrow> int \<Rightarrow> bool) \<Rightarrow> (int \<Rightarrow> int \<Rightarrow> bool) \<Rightarrow> StringPiece \<Rightarrow> StringPiece \<Rightarrow> bool result" where
  "binary_predicate cmp auxcmp x y =
     rbind (memcmp (ptr x) (ptr y) (size_of_int (if len x < len y then len x else len y)))
       (\<lambda>r. Inr (auxcmp r 0 \<or> (r = 0 \<and> cmp (len x) (len y))))"

definition StringPiece_lt :: "StringPiece \<Rightarrow> StringPiece \<Rightarrow> bool result" where
  "StringPiece_lt = binary_predicate (<) (<)"

definition StringPiece_le :: "StringPiece \<Rightarrow> StringPiece \<Rightarrow> bool result" where
  "StringPiece_le = binary_predicate (\<le>) (<)"

definition StringPiece_ge :: "StringPiece \<Rightarrow> StringPiece \<Rightarrow> bool result" where
  "StringPiece_ge = binary_predicate (\<ge>) (>)"

definition StringPiece_gt :: "StringPiece \<Rightarrow> StringPiece \<Rightarrow> bool result" where
  "StringPiece_gt = binary_predicate (>) (>)"

definition StringPiece_compare :: "StringPiece \<Rightarrow> StringPiece \<Rightarrow> int result" where
  "StringPiece_compare x y =
     rbind (memcmp (ptr x) (ptr y) (size_of_int (if len x < len y then len x else len y)))
       (\<lambda>r. Inr (if r = 0 then (if len x < len y then -1 else if len x > len y then 1 else r)
                 else r))"

definition StringPiece_starts_with :: "StringPiece \<Rightarrow> StringPiece \<Rightarrow> bool result" where
  "StringPiece_starts_with x y =
     (if len x \<ge> len y
      then rbind (memcmp (ptr x) (ptr y) (size_of_int (len y))) (\<lambda>r. Inr (r = 0))
      else Inr False)"

section \<open>Views that lie inside their object\<close>

definition StringPiece_wf :: "StringPiece \<Rightarrow> bool" where
  "StringPiece_wf x \<longleftrightarrow> 0 \<le> len x \<and> len x \<le> int (length (ptr x)) \<and> len x < 2 ^ 31"

definition viewed :: "StringPiece \<Rightarrow> byte list" where
  "viewed x = take (nat (len x)) (ptr x)"

lemma StringPiece_wf_size [simp]:
  "StringPiece_wf x \<Longrightarrow> size_of_int (len x) = nat (len x)"
  by (simp add: StringPiece_wf_def)

lemma length_viewed [simp]: "StringPiece_wf x \<Longrightarrow> length (viewed x) = nat (len x)"
  by (auto simp: StringPiece_wf_def viewed_def nat_le_iff)

lemma StringPiece_as_string_ok [result_simps]:
  "StringPiece_wf x \<Longrightarrow> StringPiece_as_string x = Inr (viewed x)"
  by (simp add: StringPiece_as_string_def viewed_def mem_read_def)
     (auto simp: StringPiece_wf_def nat_le_iff vec_max_size_def)

lemma StringPiece_of_string_wf [wf_intros]:
  "length str < 2 ^ 31 \<Longrightarrow> StringPiece_wf (StringPiece_of_string str)"
  by (simp add: StringPiece_wf_def StringPiece_of_string_def)

lemma viewed_of_string: "length str < 2 ^ 31 \<Longrightarrow> viewed (StringPiece_of_string str) = str"
  by (simp add: viewed_def StringPiece_of_string_def)

lemma bytes_cmp_range: "bytes_cmp xs ys \<in> {-1, 0, 1}"
  by (induction xs ys rule: bytes_cmp.induct) auto

lemma bytes_cmp_eq_0: "length xs = length ys \<Longrightarrow> bytes_cmp xs ys = 0 \<longleftrightarrow> xs = ys"
  by (induction xs ys rule: bytes_cmp.induct) auto

text \<open>The common part decides; where it is equal, the shorter string is the smaller.\<close>

lemma bytes_cmp_lex:
  fixes xs ys :: "byte list"
  defines "n \<equiv> min (length xs) (length ys)"
  shows "xs < ys \<longleftrightarrow>
    bytes_cmp (take n xs) (take n ys) < 0 \<or>
    (bytes_cmp (take n xs) (take n ys) = 0 \<and> length xs < length ys)"
  unfolding n_def
proof (induction xs arbitrary: ys)
  case Nil
  then show ?case by (cases ys) auto
next
  case (Cons a as)
  show ?case
  proof (cases ys)
    case Nil
    then show ?thesis by simp
  next
    case (Cons b bs)
    then show ?thesis using Cons.IH [of bs] by (auto simp: not_less_iff_gr_or_eq)
  qed
qed

lemma bytes_cmp_anti: "bytes_cmp ys xs = - bytes_cmp xs ys"
  by (induction xs ys rule: bytes_cmp.induct) auto

text \<open>What the comparison operators share: the \<open>memcmp\<close> over the common length.\<close>

definition common_cmp :: "StringPiece \<Rightarrow> StringPiece \<Rightarrow> int" where
  "common_cmp x y =
     (let n = min (length (viewed x)) (length (viewed y))
      in bytes_cmp (take n (viewed x)) (take n (viewed y)))"

lemma memcmp_common:
  assumes "StringPiece_wf x" "StringPiece_wf y"
  shows "memcmp (ptr x) (ptr y) (size_of_int (if len x < len y then len x else len y))
    = Inr (common_cmp x y)"
proof -
  let ?n = "nat (min (len x) (len y))"
  have sz: "size_of_int (if len x < len y then len x else len y) = ?n"
    using assms by (auto simp: min_def)
  have n: "min (length (viewed x)) (length (viewed y)) = ?n"
    using assms by (simp add: min_def nat_le_eq_zle StringPiece_wf_def)
  have le: "?n \<le> length (ptr x)" "?n \<le> length (ptr y)" "?n \<le> nat (len x)" "?n \<le> nat (len y)"
    using assms by (auto simp: StringPiece_wf_def)
  then have "take ?n (viewed x) = take ?n (ptr x)" "take ?n (viewed y) = take ?n (ptr y)"
    by (simp_all add: viewed_def min_def)
  then show ?thesis
    using le by (simp add: memcmp_def sz common_cmp_def Let_def n)
qed

lemma viewed_less_iff:
  assumes "StringPiece_wf x" "StringPiece_wf y"
  shows "viewed x < viewed y \<longleftrightarrow> common_cmp x y < 0 \<or> (common_cmp x y = 0 \<and> len x < len y)"
proof -
  have "nat (len x) < nat (len y) \<longleftrightarrow> len x < len y"
    using assms by (auto simp: StringPiece_wf_def)
  then show ?thesis
    using assms bytes_cmp_lex [of "viewed x" "viewed y"]
    by (simp add: common_cmp_def Let_def)
qed

lemma common_cmp_swap: "common_cmp y x = - common_cmp x y"
  by (simp add: common_cmp_def Let_def min.commute bytes_cmp_anti [of "take _ (viewed x)"])

lemma viewed_eq_iff:
  assumes "StringPiece_wf x" "StringPiece_wf y"
  shows "viewed x = viewed y \<longleftrightarrow> common_cmp x y = 0 \<and> len x = len y"
proof -
  have "viewed x = viewed y \<longleftrightarrow> \<not> viewed x < viewed y \<and> \<not> viewed y < viewed x"
    by auto
  then show ?thesis
    using viewed_less_iff [OF assms] viewed_less_iff [OF assms(2,1)]
    by (auto simp: common_cmp_swap [of y x])
qed

section \<open>What the operators decide\<close>

lemma StringPiece_lt_ok [result_simps]:
  assumes "StringPiece_wf x" "StringPiece_wf y"
  shows "StringPiece_lt x y = Inr (viewed x < viewed y)"
  using assms
  by (simp add: StringPiece_lt_def binary_predicate_def memcmp_common viewed_less_iff)

lemma StringPiece_gt_ok [result_simps]:
  assumes "StringPiece_wf x" "StringPiece_wf y"
  shows "StringPiece_gt x y = Inr (viewed x > viewed y)"
  using assms
  by (auto simp: StringPiece_gt_def binary_predicate_def memcmp_common viewed_less_iff
      common_cmp_swap [of y x])

lemma StringPiece_le_ok [result_simps]:
  assumes "StringPiece_wf x" "StringPiece_wf y"
  shows "StringPiece_le x y = Inr (viewed x \<le> viewed y)"
proof -
  have "viewed x \<le> viewed y \<longleftrightarrow> viewed x < viewed y \<or> viewed x = viewed y"
    by (rule le_less)
  then show ?thesis
    using assms by (auto simp: StringPiece_le_def binary_predicate_def memcmp_common
        viewed_less_iff viewed_eq_iff)
qed

lemma StringPiece_ge_ok [result_simps]:
  assumes "StringPiece_wf x" "StringPiece_wf y"
  shows "StringPiece_ge x y = Inr (viewed x \<ge> viewed y)"
proof -
  have "viewed y \<le> viewed x \<longleftrightarrow> viewed y < viewed x \<or> viewed x = viewed y"
    by (auto simp: le_less)
  then show ?thesis
    using assms by (auto simp: StringPiece_ge_def binary_predicate_def memcmp_common
        viewed_less_iff viewed_eq_iff common_cmp_swap [of y x])
qed

lemma StringPiece_eq_ok [result_simps]:
  assumes "StringPiece_wf x" "StringPiece_wf y"
  shows "StringPiece_eq x y = Inr (viewed x = viewed y)"
  using assms memcmp_common [OF assms]
  by (auto simp: StringPiece_eq_def viewed_eq_iff)

text \<open>C40. On views that lie inside their objects no comparison operator reads outside them,
  and \<open>==\<close>, \<open><\<close>, \<open><=\<close>, \<open>>\<close>, \<open>>=\<close> are the equality and the lexicographic order
  (bytes unsigned, a proper prefix first) of the viewed strings.\<close>

theorem StringPiece_operators_lexicographic:
  assumes "StringPiece_wf x" "StringPiece_wf y"
  shows "StringPiece_lt x y = Inr (viewed x < viewed y)
    \<and> StringPiece_le x y = Inr (viewed x \<le> viewed y)
    \<and> StringPiece_gt x y = Inr (viewed x > viewed y)
    \<and> StringPiece_ge x y = Inr (viewed x \<ge> viewed y)
    \<and> StringPiece_eq x y = Inr (viewed x = viewed y)
    \<and> StringPiece_neq x y = Inr (viewed x \<noteq> viewed y)"
  using assms by (simp add: result_simps StringPiece_neq_def)

text \<open>\<open>compare\<close> returns a negative, zero or positive number exactly when the first
  string is lexicographically smaller, equal or greater.\<close>

lemma StringPiece_compare_sign:
  assumes "StringPiece_wf x" "StringPiece_wf y"
  shows "\<exists>r. StringPiece_compare x y = Inr r
    \<and> (r < 0 \<longleftrightarrow> viewed x < viewed y) \<and> (r = 0 \<longleftrightarrow> viewed x = viewed y)
    \<and> (r > 0 \<longleftrightarrow> viewed x > viewed y)"
  using assms
  by (auto simp: StringPiece_compare_def memcmp_common viewed_less_iff viewed_eq_iff
      common_cmp_swap [of y x])

text \<open>\<open>starts_with\<close> decides whether the second viewed string is a prefix of the first.\<close>

lemma StringPiece_starts_with_prefix:
  assumes "StringPiece_wf x" "StringPiece_wf y"
  shows "StringPiece_starts_with x y = Inr (prefix (viewed y) (viewed x))"
proof (cases "len y \<le> len x")
  case True
  let ?n = "nat (len y)"
  have le: "?n \<le> length (ptr x)" "?n \<le> length (ptr y)" "?n \<le> nat (len x)"
    using assms True by (auto simp: StringPiece_wf_def)
  have "prefix (viewed y) (viewed x) \<longleftrightarrow> take ?n (viewed x) = viewed y"
    using assms le by (metis length_viewed append_eq_conv_conj prefix_def take_is_prefix)
  also have "\<dots> \<longleftrightarrow> take ?n (ptr x) = take ?n (ptr y)"
    using le by (simp add: viewed_def min_def)
  finally show ?thesis
    using assms True le by (simp add: StringPiece_starts_with_def memcmp_def bytes_cmp_eq_0)
next
  case False
  then have "\<not> prefix (viewed y) (viewed x)"
    using assms by (auto dest!: prefix_length_le simp: StringPiece_wf_def)
  then show ?thesis
    using False by (simp add: StringPiece_starts_with_def)
qed

lemma StringPiece_remove_prefix_viewed:
  assumes "StringPiece_wf x" "0 \<le> n" "n \<le> len x"
  shows "\<exists>x'. StringPiece_remove_prefix n x = Inr x' \<and> StringPiece_wf x'
    \<and> viewed x' = drop (nat n) (viewed x)"
  using assms
  by (auto simp: StringPiece_remove_prefix_def StringPiece_wf_def viewed_def drop_take
      nat_diff_distrib)

lemma StringPiece_remove_suffix_viewed:
  assumes "StringPiece_wf x" "0 \<le> n" "n \<le> len x"
  shows "StringPiece_wf (StringPiece_remove_suffix n x)"
    and "viewed (StringPiece_remove_suffix n x) = take (nat (len x - n)) (viewed x)"
  using assms
  by (auto simp: StringPiece_remove_suffix_def StringPiece_wf_def viewed_def min_def)

section \<open>Concrete views\<close>

lemma StringPiece_operators_lexicographic_witness:
  "StringPiece_lt \<lparr>ptr = [97, 98, 0], len = 2\<rparr> \<lparr>ptr = [97, 200], len = 2\<rparr> = Inr True
    \<and> StringPiece_eq \<lparr>ptr = [97, 98, 0], len = 2\<rparr> \<lparr>ptr = [97, 200], len = 2\<rparr> = Inr False"
  using StringPiece_operators_lexicographic [of "\<lparr>ptr = [97, 98, 0], len = 2\<rparr>" "\<lparr>ptr = [97, 200], len = 2\<rparr>"]
  by (simp add: StringPiece_wf_def viewed_def)

lemma StringPiece_compare_sign_witness:
  "\<exists>r. StringPiece_compare \<lparr>ptr = [97, 98, 0], len = 3\<rparr> \<lparr>ptr = [97, 98], len = 2\<rparr> = Inr r \<and> r > 0"
  using StringPiece_compare_sign [of "\<lparr>ptr = [97, 98, 0], len = 3\<rparr>" "\<lparr>ptr = [97, 98], len = 2\<rparr>"]
  by (auto simp: StringPiece_wf_def viewed_def)

lemma StringPiece_starts_with_prefix_witness:
  "StringPiece_starts_with \<lparr>ptr = [97, 98, 0], len = 3\<rparr> \<lparr>ptr = [97, 98], len = 2\<rparr> = Inr True"
  using StringPiece_starts_with_prefix [of "\<lparr>ptr = [97, 98, 0], len = 3\<rparr>" "\<lparr>ptr = [97, 98], len = 2\<rparr>"]
  by (simp add: StringPiece_wf_def viewed_def)

end
