(* ===== verification/ByteQueue.thy ===== *)
theory ByteQueue
  imports Prelude
begin

text \<open>
  The interface between \<open>Buffer\<close> and its clients (the two codecs, \<open>TcpConnection\<close>), as
  locales. A \<open>byte_source\<close> is what a decoder relies on: the number of bytes available, a
  pointer to them and the removal of a prefix. A \<open>byte_queue\<close> adds the appending of bytes
  while there is room, and a \<open>framed_queue\<close> a reserve in front for a header. The clients'
  lemmas are proved here once, from the laws; \<open>Buffer.thy\<close> interprets the locales on the
  model of the class.
\<close>

locale byte_source =
  fixes inv :: "'q \<Rightarrow> bool"
    and content :: "'q \<Rightarrow> byte list"
    and avail :: "'q \<Rightarrow> nat"
    and view :: "'q \<Rightarrow> byte list"
    and remove :: "nat \<Rightarrow> 'q \<Rightarrow> 'q result"
  assumes avail: "inv q \<Longrightarrow> avail q = length (content q)"
    and view: "inv q \<Longrightarrow> n \<le> length (content q) \<Longrightarrow> mem_read n (view q) = Inr (take n (content q))"
    and remove: "inv q \<Longrightarrow> n \<le> length (content q) \<Longrightarrow>
      \<exists>q'. remove n q = Inr q' \<and> inv q' \<and> content q' = drop n (content q)"
    and remove_fault: "inv q \<Longrightarrow> length (content q) < n \<Longrightarrow> remove n q = Inl AssertFailed"
begin

text \<open>The step of a decoder: skip a header, read the body behind it, remove the body.\<close>

lemma framed_read:
  assumes "inv q" "h + n \<le> length (content q)"
  obtains q1 q2 where "remove h q = Inr q1" "inv q1" "content q1 = drop h (content q)"
    "mem_read n (view q1) = Inr (take n (drop h (content q)))"
    "remove n q1 = Inr q2" "inv q2" "content q2 = drop (h + n) (content q)"
proof -
  obtain q1 where q1: "remove h q = Inr q1" "inv q1" "content q1 = drop h (content q)"
    using remove [of q h] assms by auto
  have n: "n \<le> length (content q1)"
    using assms q1(3) by simp
  then obtain q2 where "remove n q1 = Inr q2" "inv q2" "content q2 = drop n (content q1)"
    using remove [OF q1(2)] by blast
  then show thesis
    using that [of q1 q2] q1 view [OF q1(2) n] by (simp add: add.commute)
qed

lemma remove_iff: "inv q \<Longrightarrow> (\<exists>q'. remove n q = Inr q') \<longleftrightarrow> n \<le> avail q"
  using remove [of q n] remove_fault [of q n] avail [of q] by (cases "n \<le> avail q") auto

end

locale byte_queue = byte_source inv content avail view remove
  for inv :: "'q \<Rightarrow> bool" and content avail view remove +
  fixes room :: "'q \<Rightarrow> nat"
    and put :: "byte list \<Rightarrow> nat \<Rightarrow> 'q \<Rightarrow> 'q result"
  assumes put: "inv q \<Longrightarrow> n \<le> room q \<Longrightarrow> n \<le> length data \<Longrightarrow>
      \<exists>q'. put data n q = Inr q' \<and> inv q' \<and> content q' = content q @ take n data
        \<and> room q \<le> room q' + n"
begin

lemma put_all:
  assumes "inv q" "length data \<le> room q"
  obtains q' where "put data (length data) q = Inr q'" "inv q'"
    "content q' = content q @ data" "room q \<le> room q' + length data"
  using put [OF assms, of data] by auto

text \<open>Two appends in a row, as an encoder makes them.\<close>

lemma put_twice:
  assumes "inv q" "length xs + length ys \<le> room q"
  obtains q1 q2 where "put xs (length xs) q = Inr q1" "put ys (length ys) q1 = Inr q2" "inv q1"
    "inv q2" "content q1 = content q @ xs" "content q2 = content q @ xs @ ys"
    "room q \<le> room q2 + length xs + length ys"
proof -
  obtain q1 where q1: "put xs (length xs) q = Inr q1" "inv q1" "content q1 = content q @ xs"
    "room q \<le> room q1 + length xs"
    using put_all [of q xs] assms by auto
  obtain q2 where "put ys (length ys) q1 = Inr q2" "inv q2" "content q2 = content q1 @ ys"
    "room q1 \<le> room q2 + length ys"
    using put_all [of q1 ys] assms q1 by auto
  then show thesis
    using that [of q1 q2] q1 by auto
qed

text \<open>What was put into an empty queue is what is removed from it.\<close>

lemma put_remove:
  assumes "inv q" "content q = []" "length data \<le> room q"
  obtains q1 q2 where "put data (length data) q = Inr q1" "mem_read (length data) (view q1) = Inr data"
    "remove (length data) q1 = Inr q2" "inv q2" "content q2 = []"
proof -
  obtain q1 where q1: "put data (length data) q = Inr q1" "inv q1" "content q1 = data"
    using put_all [of q data] assms by auto
  then obtain q2 where "remove (length data) q1 = Inr q2" "inv q2" "content q2 = []"
    using remove [of q1 "length data"] by auto
  then show thesis
    using that [of q1 q2] q1 view [of q1 "length data"] by simp
qed

end

locale framed_queue = byte_queue inv content avail view remove room put
  for inv :: "'q \<Rightarrow> bool" and content avail view remove room put +
  fixes reserve :: "'q \<Rightarrow> nat"
    and push_front :: "byte list \<Rightarrow> nat \<Rightarrow> 'q \<Rightarrow> 'q result"
  assumes push_front: "inv q \<Longrightarrow> n \<le> reserve q \<Longrightarrow> n \<le> length data \<Longrightarrow>
      \<exists>q'. push_front data n q = Inr q' \<and> inv q' \<and> content q' = take n data @ content q"
    and reserve_put: "inv q \<Longrightarrow> n \<le> room q \<Longrightarrow> put data n q = Inr q' \<Longrightarrow>
      min 8 (reserve q) \<le> reserve q'"
begin

text \<open>A body is appended and its header of at most eight bytes is put in front of it.\<close>

lemma frame:
  assumes "inv q" "content q = []" "8 \<le> reserve q" "length body \<le> room q" "length header \<le> 8"
  obtains q1 q2 where "put body (length body) q = Inr q1"
    "push_front header (length header) q1 = Inr q2" "inv q2" "content q2 = header @ body"
proof -
  obtain q1 where q1: "put body (length body) q = Inr q1" "inv q1" "content q1 = body"
    using put_all [of q body] assms by auto
  have "length header \<le> reserve q1"
    using reserve_put [OF assms(1,4) q1(1)] assms(3,5) by simp
  then obtain q2 where "push_front header (length header) q1 = Inr q2" "inv q2"
    "content q2 = header @ body"
    using push_front [of q1 "length header" header] q1 by auto
  then show thesis
    using that [of q1 q2] q1 by simp
qed

end

end
