(* ===== verification/Buffer.thy ===== *)
theory Buffer
  imports StringPiece ByteQueue
begin

text \<open>
  \<open>Buffer.h\<close>, \<open>Buffer.cpp\<close>: the byte queue between a socket and its user. A vector holds
  three regions, the prependable bytes below \<open>readerIndex_\<close>, the readable bytes up to
  \<open>writerIndex_\<close> and the writable bytes up to the end of the vector. Each member function
  is one definition \<open>Buffer_<name>\<close>, with every \<open>assert\<close> a branch; \<open>size_t\<close> arithmetic
  wraps. \<open>Buffer_content\<close> is the readable region; the lemmas show that, seen through it, the
  operations are those of a byte queue with a reserve in front.
\<close>

section \<open>State\<close>

record Buffer =
  buffer :: "byte list"
  readerIndex :: nat
  writerIndex :: nat

definition kCheapPrepend :: nat where "kCheapPrepend = 8"
definition kInitialSize :: nat where "kInitialSize = 1024"

definition Buffer_readableBytes :: "Buffer \<Rightarrow> nat" where
  "Buffer_readableBytes b = szsub (writerIndex b) (readerIndex b)"

definition Buffer_writableBytes :: "Buffer \<Rightarrow> nat" where
  "Buffer_writableBytes b = szsub (length (buffer b)) (writerIndex b)"

definition Buffer_prependableBytes :: "Buffer \<Rightarrow> nat" where
  "Buffer_prependableBytes b = readerIndex b"

text \<open>The constructor: the vector of \<open>kCheapPrepend + initialSize\<close> null bytes, then three
  assertions.\<close>

definition Buffer_new :: "nat \<Rightarrow> Buffer result" where
  "Buffer_new initialSize =
     rbind (vec_resize (szadd kCheapPrepend initialSize) []) (\<lambda>v.
     let b = \<lparr>buffer = v, readerIndex = kCheapPrepend, writerIndex = kCheapPrepend\<rparr>
     in if Buffer_readableBytes b = 0 \<and> Buffer_writableBytes b = initialSize
           \<and> Buffer_prependableBytes b = kCheapPrepend
        then Inr b else Inl AssertFailed)"

definition Buffer_swap :: "Buffer \<Rightarrow> Buffer \<Rightarrow> Buffer \<times> Buffer" where
  "Buffer_swap b rhs =
     (b\<lparr>buffer := buffer rhs, readerIndex := readerIndex rhs, writerIndex := writerIndex rhs\<rparr>,
      rhs\<lparr>buffer := buffer b, readerIndex := readerIndex b, writerIndex := writerIndex b\<rparr>)"

section \<open>Reading\<close>

definition Buffer_peek :: "Buffer \<Rightarrow> byte list" where
  "Buffer_peek b = drop (readerIndex b) (buffer b)"

definition Buffer_retrieveAll :: "Buffer \<Rightarrow> Buffer" where
  "Buffer_retrieveAll b = b\<lparr>readerIndex := kCheapPrepend, writerIndex := kCheapPrepend\<rparr>"

definition Buffer_retrieve :: "nat \<Rightarrow> Buffer \<Rightarrow> Buffer result" where
  "Buffer_retrieve n b =
     (if \<not> n \<le> Buffer_readableBytes b then Inl AssertFailed
      else if n < Buffer_readableBytes b
           then Inr (b\<lparr>readerIndex := szadd (readerIndex b) n\<rparr>)
           else Inr (Buffer_retrieveAll b))"

text \<open>\<open>retrieveUntil\<close> takes a pointer into the buffer, here its index in the vector.\<close>

definition Buffer_retrieveUntil :: "nat \<Rightarrow> Buffer \<Rightarrow> Buffer result" where
  "Buffer_retrieveUntil e b =
     (if \<not> readerIndex b \<le> e then Inl AssertFailed
      else if \<not> e \<le> writerIndex b then Inl AssertFailed
      else Buffer_retrieve (szsub e (readerIndex b)) b)"

definition Buffer_retrieveInt32 :: "Buffer \<Rightarrow> Buffer result" where
  "Buffer_retrieveInt32 b = Buffer_retrieve 4 b"

definition Buffer_retrieveInt16 :: "Buffer \<Rightarrow> Buffer result" where
  "Buffer_retrieveInt16 b = Buffer_retrieve 2 b"

definition Buffer_retrieveInt8 :: "Buffer \<Rightarrow> Buffer result" where
  "Buffer_retrieveInt8 b = Buffer_retrieve 1 b"

definition Buffer_retrieveAsString :: "nat \<Rightarrow> Buffer \<Rightarrow> (byte list \<times> Buffer) result" where
  "Buffer_retrieveAsString n b =
     (if \<not> n \<le> Buffer_readableBytes b then Inl AssertFailed
      else rbind (mem_read n (Buffer_peek b)) (\<lambda>s.
           rbind (Buffer_retrieve n b) (\<lambda>b'. Inr (s, b'))))"

definition Buffer_retrieveAllAsString :: "Buffer \<Rightarrow> (byte list \<times> Buffer) result" where
  "Buffer_retrieveAllAsString b = Buffer_retrieveAsString (Buffer_readableBytes b) b"

definition Buffer_toStringPiece :: "Buffer \<Rightarrow> StringPiece" where
  "Buffer_toStringPiece b =
     StringPiece_of_mem (Buffer_peek b) (int_of_size (Buffer_readableBytes b))"

definition Buffer_peekInt32 :: "socket_ops \<Rightarrow> Buffer \<Rightarrow> int32 result" where
  "Buffer_peekInt32 so b =
     (if \<not> Buffer_readableBytes b \<ge> 4 then Inl AssertFailed
      else rbind (mem_read 4 (Buffer_peek b)) (\<lambda>bs.
           Inr (network_to_host_long so (mem32 bs))))"

definition Buffer_peekInt16 :: "socket_ops \<Rightarrow> Buffer \<Rightarrow> int16 result" where
  "Buffer_peekInt16 so b =
     (if \<not> Buffer_readableBytes b \<ge> 2 then Inl AssertFailed
      else rbind (mem_read 2 (Buffer_peek b)) (\<lambda>bs.
           Inr (network_to_host_short so (mem16 bs))))"

definition Buffer_peekInt8 :: "Buffer \<Rightarrow> byte result" where
  "Buffer_peekInt8 b =
     (if \<not> Buffer_readableBytes b \<ge> 1 then Inl AssertFailed
      else rbind (mem_read 1 (Buffer_peek b)) (\<lambda>bs. Inr (bs ! 0)))"

definition Buffer_readInt32 :: "socket_ops \<Rightarrow> Buffer \<Rightarrow> (int32 \<times> Buffer) result" where
  "Buffer_readInt32 so b =
     rbind (Buffer_peekInt32 so b) (\<lambda>x. rbind (Buffer_retrieveInt32 b) (\<lambda>b'. Inr (x, b')))"

definition Buffer_readInt16 :: "socket_ops \<Rightarrow> Buffer \<Rightarrow> (int16 \<times> Buffer) result" where
  "Buffer_readInt16 so b =
     rbind (Buffer_peekInt16 so b) (\<lambda>x. rbind (Buffer_retrieveInt16 b) (\<lambda>b'. Inr (x, b')))"

definition Buffer_readInt8 :: "Buffer \<Rightarrow> (byte \<times> Buffer) result" where
  "Buffer_readInt8 b =
     rbind (Buffer_peekInt8 b) (\<lambda>x. rbind (Buffer_retrieveInt8 b) (\<lambda>b'. Inr (x, b')))"

section \<open>Writing\<close>

text \<open>
  \<open>makeSpace\<close>: grow the vector when the free bytes on both sides do not suffice, otherwise
  move the readable bytes to the front, with the forward \<open>std::copy\<close> of overlapping regions
  whose destination comes first.
\<close>

definition Buffer_makeSpace :: "nat \<Rightarrow> Buffer \<Rightarrow> Buffer result" where
  "Buffer_makeSpace n b =
     (if szadd (Buffer_writableBytes b) (Buffer_prependableBytes b) < szadd n kCheapPrepend
      then rbind (vec_resize (szadd (writerIndex b) n) (buffer b)) (\<lambda>v. Inr (b\<lparr>buffer := v\<rparr>))
      else if \<not> kCheapPrepend < readerIndex b then Inl AssertFailed
      else let readable = Buffer_readableBytes b in
           rbind (mem_read readable (Buffer_peek b)) (\<lambda>bs.
           rbind (vec_store kCheapPrepend bs (buffer b)) (\<lambda>v.
           let b' = b\<lparr>buffer := v, readerIndex := kCheapPrepend,
                      writerIndex := szadd kCheapPrepend readable\<rparr>
           in if readable = Buffer_readableBytes b' then Inr b' else Inl AssertFailed)))"

definition Buffer_ensureWritableBytes :: "nat \<Rightarrow> Buffer \<Rightarrow> Buffer result" where
  "Buffer_ensureWritableBytes n b =
     rbind (if Buffer_writableBytes b < n then Buffer_makeSpace n b else Inr b) (\<lambda>b'.
     if Buffer_writableBytes b' \<ge> n then Inr b' else Inl AssertFailed)"

definition Buffer_beginWrite :: "Buffer \<Rightarrow> byte list" where
  "Buffer_beginWrite b = drop (writerIndex b) (buffer b)"

definition Buffer_hasWritten :: "nat \<Rightarrow> Buffer \<Rightarrow> Buffer result" where
  "Buffer_hasWritten n b =
     (if \<not> n \<le> Buffer_writableBytes b then Inl AssertFailed
      else Inr (b\<lparr>writerIndex := szadd (writerIndex b) n\<rparr>))"

definition Buffer_unwrite :: "nat \<Rightarrow> Buffer \<Rightarrow> Buffer result" where
  "Buffer_unwrite n b =
     (if \<not> n \<le> Buffer_readableBytes b then Inl AssertFailed
      else Inr (b\<lparr>writerIndex := szsub (writerIndex b) n\<rparr>))"

text \<open>\<open>append(const char *data, size_t len)\<close>, of memory outside this buffer.\<close>

definition Buffer_append :: "byte list \<Rightarrow> nat \<Rightarrow> Buffer \<Rightarrow> Buffer result" where
  "Buffer_append data n b =
     rbind (Buffer_ensureWritableBytes n b) (\<lambda>b'.
     rbind (mem_read n data) (\<lambda>bs.
     rbind (vec_store (writerIndex b') bs (buffer b')) (\<lambda>v.
     Buffer_hasWritten n (b'\<lparr>buffer := v\<rparr>))))"

definition Buffer_append_piece :: "StringPiece \<Rightarrow> Buffer \<Rightarrow> Buffer result" where
  "Buffer_append_piece str b = Buffer_append (ptr str) (size_of_int (len str)) b"

definition Buffer_appendInt32 :: "socket_ops \<Rightarrow> int32 \<Rightarrow> Buffer \<Rightarrow> Buffer result" where
  "Buffer_appendInt32 so x b = Buffer_append (obj32 (host_to_network_long so x)) 4 b"

definition Buffer_appendInt16 :: "socket_ops \<Rightarrow> int16 \<Rightarrow> Buffer \<Rightarrow> Buffer result" where
  "Buffer_appendInt16 so x b = Buffer_append (obj16 (host_to_network_short so x)) 2 b"

definition Buffer_appendInt8 :: "byte \<Rightarrow> Buffer \<Rightarrow> Buffer result" where
  "Buffer_appendInt8 x b = Buffer_append [x] 1 b"

definition Buffer_prepend :: "byte list \<Rightarrow> nat \<Rightarrow> Buffer \<Rightarrow> Buffer result" where
  "Buffer_prepend data n b =
     (if \<not> n \<le> Buffer_prependableBytes b then Inl AssertFailed
      else let b' = b\<lparr>readerIndex := szsub (readerIndex b) n\<rparr> in
           rbind (mem_read n data) (\<lambda>bs.
           rbind (vec_store (readerIndex b') bs (buffer b')) (\<lambda>v. Inr (b'\<lparr>buffer := v\<rparr>))))"

definition Buffer_prependInt32 :: "socket_ops \<Rightarrow> int32 \<Rightarrow> Buffer \<Rightarrow> Buffer result" where
  "Buffer_prependInt32 so x b = Buffer_prepend (obj32 (host_to_network_long so x)) 4 b"

definition Buffer_prependInt16 :: "socket_ops \<Rightarrow> int16 \<Rightarrow> Buffer \<Rightarrow> Buffer result" where
  "Buffer_prependInt16 so x b = Buffer_prepend (obj16 (host_to_network_short so x)) 2 b"

definition Buffer_prependInt8 :: "byte \<Rightarrow> Buffer \<Rightarrow> Buffer result" where
  "Buffer_prependInt8 x b = Buffer_prepend [x] 1 b"

definition Buffer_shrink :: "nat \<Rightarrow> Buffer \<Rightarrow> Buffer result" where
  "Buffer_shrink reserve b =
     rbind (Buffer_new kInitialSize) (\<lambda>other.
     rbind (Buffer_ensureWritableBytes (szadd (Buffer_readableBytes b) reserve) other) (\<lambda>other'.
     rbind (Buffer_append_piece (Buffer_toStringPiece b) other') (\<lambda>other''.
     Inr (fst (Buffer_swap b other'')))))"

section \<open>Invariant and content\<close>

definition Buffer_wf :: "Buffer \<Rightarrow> bool" where
  "Buffer_wf b \<longleftrightarrow>
     readerIndex b \<le> writerIndex b \<and> writerIndex b \<le> length (buffer b) \<and>
     kCheapPrepend \<le> length (buffer b) \<and> length (buffer b) \<le> vec_max_size"

definition Buffer_content :: "Buffer \<Rightarrow> byte list" where
  "Buffer_content b = segment (readerIndex b) (writerIndex b) (buffer b)"

lemmas Buffer_consts = kCheapPrepend_def kInitialSize_def vec_max_size_def

lemma Buffer_wfD:
  assumes "Buffer_wf b"
  shows "readerIndex b \<le> writerIndex b" "writerIndex b \<le> length (buffer b)"
    "8 \<le> length (buffer b)" "length (buffer b) < 2 ^ 63"
  using assms by (auto simp: Buffer_wf_def Buffer_consts)

text \<open>Under the invariant no \<open>size_t\<close> expression of the three sizes wraps.\<close>

lemma Buffer_sizes [simp]:
  assumes "Buffer_wf b"
  shows "Buffer_readableBytes b = writerIndex b - readerIndex b"
    and "Buffer_writableBytes b = length (buffer b) - writerIndex b"
    and "Buffer_prependableBytes b = readerIndex b"
  using Buffer_wfD [OF assms]
  by (simp_all add: Buffer_readableBytes_def Buffer_writableBytes_def Buffer_prependableBytes_def)

lemma length_content [simp]: "Buffer_wf b \<Longrightarrow> length (Buffer_content b) = writerIndex b - readerIndex b"
  by (simp add: Buffer_content_def Buffer_wf_def)

lemma readable_content: "Buffer_wf b \<Longrightarrow> Buffer_readableBytes b = length (Buffer_content b)"
  by simp

lemma length_peek [simp]: "length (Buffer_peek b) = length (buffer b) - readerIndex b"
  by (simp add: Buffer_peek_def)

lemma take_peek [simp]:
  "Buffer_wf b \<Longrightarrow> n \<le> writerIndex b - readerIndex b \<Longrightarrow>
     take n (Buffer_peek b) = take n (Buffer_content b)"
  by (simp add: Buffer_peek_def Buffer_content_def segment_def min_def)

lemma mem_read_peek [result_simps]:
  "Buffer_wf b \<Longrightarrow> n \<le> length (Buffer_content b) \<Longrightarrow>
     mem_read n (Buffer_peek b) = Inr (take n (Buffer_content b))"
  using Buffer_wfD [of b] by (simp add: mem_read_def)

section \<open>Each operation on a well-formed buffer\<close>

lemma Buffer_new_ok:
  assumes "n + kCheapPrepend \<le> vec_max_size"
  obtains b where "Buffer_new n = Inr b" "Buffer_wf b" "Buffer_content b = []"
    "readerIndex b = kCheapPrepend" "writerIndex b = kCheapPrepend"
    "length (buffer b) = kCheapPrepend + n"
proof
  let ?b = "\<lparr>buffer = replicate (kCheapPrepend + n) 0,
    readerIndex = kCheapPrepend, writerIndex = kCheapPrepend\<rparr>"
  show "Buffer_new n = Inr ?b"
    using assms
    by (simp add: Buffer_new_def Buffer_consts Buffer_readableBytes_def Buffer_writableBytes_def
        Buffer_prependableBytes_def Let_def)
  show "Buffer_wf ?b"
    using assms by (simp add: Buffer_wf_def)
qed (simp_all add: Buffer_content_def)

lemma Buffer_retrieveAll_ok [wf_intros]: "Buffer_wf b \<Longrightarrow> Buffer_wf (Buffer_retrieveAll b)"
  by (auto simp: Buffer_wf_def Buffer_retrieveAll_def)

lemma Buffer_retrieveAll_content [simp]: "Buffer_content (Buffer_retrieveAll b) = []"
  by (simp add: Buffer_content_def Buffer_retrieveAll_def)

text \<open>\<open>retrieve\<close> succeeds exactly when that many bytes are readable, and drops them.\<close>

lemma Buffer_retrieve_ok:
  assumes "Buffer_wf b" "n \<le> length (Buffer_content b)"
  obtains b' where "Buffer_retrieve n b = Inr b'" "Buffer_wf b'"
    "Buffer_content b' = drop n (Buffer_content b)" "buffer b' = buffer b"
    "min kCheapPrepend (readerIndex b) \<le> readerIndex b'" "writerIndex b' \<le> max kCheapPrepend (writerIndex b)"
proof (cases "n < Buffer_readableBytes b")
  case True
  let ?b = "b\<lparr>readerIndex := readerIndex b + n\<rparr>"
  have *: "Buffer_retrieve n b = Inr ?b" "Buffer_wf ?b"
    using assms True Buffer_wfD [OF assms(1)] by (auto simp: Buffer_retrieve_def Buffer_wf_def)
  show ?thesis
    by (rule that [OF *]) (simp_all add: Buffer_content_def drop_segment)
next
  case False
  then have *: "Buffer_retrieve n b = Inr (Buffer_retrieveAll b)"
    using assms by (simp add: Buffer_retrieve_def)
  show ?thesis
    by (rule that [OF *]) (use assms False in \<open>simp_all add: wf_intros\<close>, simp_all add: Buffer_retrieveAll_def)
qed

lemma Buffer_retrieve_fault:
  "Buffer_wf b \<Longrightarrow> length (Buffer_content b) < n \<Longrightarrow> Buffer_retrieve n b = Inl AssertFailed"
  by (simp add: Buffer_retrieve_def)

lemma Buffer_retrieveAsString_ok:
  assumes "Buffer_wf b" "n \<le> length (Buffer_content b)"
  obtains b' where "Buffer_retrieveAsString n b = Inr (take n (Buffer_content b), b')"
    "Buffer_wf b'" "Buffer_content b' = drop n (Buffer_content b)"
proof -
  obtain b' where b': "Buffer_retrieve n b = Inr b'" "Buffer_wf b'"
    "Buffer_content b' = drop n (Buffer_content b)"
    using Buffer_retrieve_ok [OF assms] by blast
  show ?thesis
    by (rule that [OF _ b'(2,3)])
       (use assms in \<open>simp add: Buffer_retrieveAsString_def result_simps b'(1)\<close>)
qed

lemma Buffer_retrieveAllAsString_ok:
  assumes "Buffer_wf b"
  obtains b' where "Buffer_retrieveAllAsString b = Inr (Buffer_content b, b')"
    "Buffer_wf b'" "Buffer_content b' = []"
  using Buffer_retrieveAsString_ok [OF assms, of "Buffer_readableBytes b"] assms
  by (auto simp: Buffer_retrieveAllAsString_def)

lemma Buffer_peekInt32_ok [result_simps]:
  "Buffer_wf b \<Longrightarrow> 4 \<le> length (Buffer_content b) \<Longrightarrow>
     Buffer_peekInt32 so b = Inr (network_to_host_long so (mem32 (Buffer_content b)))"
  by (simp add: Buffer_peekInt32_def mem_read_peek)

lemma Buffer_peekInt32_fault:
  "Buffer_wf b \<Longrightarrow> length (Buffer_content b) < 4 \<Longrightarrow> Buffer_peekInt32 so b = Inl AssertFailed"
  by (simp add: Buffer_peekInt32_def)

lemma Buffer_peekInt16_ok [result_simps]:
  "Buffer_wf b \<Longrightarrow> 2 \<le> length (Buffer_content b) \<Longrightarrow>
     Buffer_peekInt16 so b = Inr (network_to_host_short so (mem16 (Buffer_content b)))"
  by (simp add: Buffer_peekInt16_def mem_read_peek)

lemma Buffer_peekInt8_ok [result_simps]:
  "Buffer_wf b \<Longrightarrow> 1 \<le> length (Buffer_content b) \<Longrightarrow>
     Buffer_peekInt8 b = Inr (Buffer_content b ! 0)"
  by (simp add: Buffer_peekInt8_def mem_read_peek)

lemma Buffer_toStringPiece_ok:
  assumes "Buffer_wf b" "length (Buffer_content b) < 2 ^ 31"
  shows "StringPiece_wf (Buffer_toStringPiece b)"
    and "viewed (Buffer_toStringPiece b) = Buffer_content b"
  using assms Buffer_wfD [OF assms(1)]
  by (auto simp: StringPiece_wf_def viewed_def Buffer_toStringPiece_def StringPiece_of_mem_def)

text \<open>
  A request of \<open>n\<close> bytes fits when the vector may grow to hold it behind the write index, or
  when the free bytes on both sides suffice and leave the reserve in front.
\<close>

definition Buffer_fits :: "nat \<Rightarrow> Buffer \<Rightarrow> bool" where
  "Buffer_fits n b \<longleftrightarrow> n \<le> vec_max_size \<and>
     (writerIndex b + n \<le> vec_max_size \<or>
      n + kCheapPrepend \<le> length (buffer b) - writerIndex b + readerIndex b)"

text \<open>
  \<open>makeSpace\<close> and \<open>ensureWritableBytes\<close> keep the content and never push the write index
  further back; they fail only when the vector cannot hold the request.
\<close>

lemma Buffer_makeSpace_ok:
  assumes wf: "Buffer_wf b" and room: "Buffer_fits n b"
    and few: "Buffer_writableBytes b < n"
  obtains b' where "Buffer_makeSpace n b = Inr b'" "Buffer_wf b'"
    "Buffer_content b' = Buffer_content b" "n \<le> length (buffer b') - writerIndex b'"
    "writerIndex b' \<le> writerIndex b" "min kCheapPrepend (readerIndex b) \<le> readerIndex b'"
    "length (buffer b') \<le> max (length (buffer b)) (writerIndex b + n)"
proof (cases "length (buffer b) - writerIndex b + readerIndex b < n + 8")
  case True
  have room': "writerIndex b + n \<le> vec_max_size"
    using True room by (auto simp: Buffer_fits_def Buffer_consts)
  let ?v = "buffer b @ replicate (writerIndex b + n - length (buffer b)) 0"
  let ?b = "b\<lparr>buffer := ?v\<rparr>"
  have "take (writerIndex b + n) (buffer b) = buffer b"
    using few wf by simp
  then have eq: "Buffer_makeSpace n b = Inr ?b"
    using True wf room' few Buffer_wfD [OF wf] by (simp add: Buffer_makeSpace_def Buffer_consts)
  have wf': "Buffer_wf ?b"
    using wf room' few by (auto simp: Buffer_wf_def)
  show ?thesis
    by (rule that [OF eq wf'])
       (use wf few in \<open>auto simp: Buffer_content_def segment_append_left Buffer_wf_def\<close>)
next
  case False
  let ?r = "writerIndex b - readerIndex b"
  let ?bs = "Buffer_content b"
  let ?b = "b\<lparr>buffer := overwrite 8 ?bs (buffer b), readerIndex := 8, writerIndex := 8 + ?r\<rparr>"
  note D = Buffer_wfD [OF wf]
  have lt: "8 < readerIndex b"
    using False few wf D by simp
  have fit: "8 + length ?bs \<le> length (buffer b)"
    using lt wf D by simp
  then have wf': "Buffer_wf ?b"
    using wf D lt by (simp add: Buffer_wf_def Buffer_consts)
  have "Buffer_makeSpace n b = Inr ?b"
    using False wf D lt fit Buffer_sizes [OF wf'] room
    by (simp add: Buffer_fits_def Buffer_makeSpace_def Buffer_consts mem_read_peek Let_def)
  moreover have "Buffer_content ?b = segment 8 (8 + length ?bs) (overwrite 8 ?bs (buffer b))"
    using wf by (subst Buffer_content_def) simp
  then have "Buffer_content ?b = ?bs"
    using segment_overwrite_exact [OF fit] by simp
  ultimately show ?thesis
    using that [of ?b] wf' False fit lt wf D by (simp add: Buffer_consts)
qed

lemma Buffer_ensureWritableBytes_ok:
  assumes wf: "Buffer_wf b" and room: "Buffer_fits n b"
  obtains b' where "Buffer_ensureWritableBytes n b = Inr b'" "Buffer_wf b'"
    "Buffer_content b' = Buffer_content b" "writerIndex b' + n \<le> length (buffer b')"
    "writerIndex b' \<le> writerIndex b" "min kCheapPrepend (readerIndex b) \<le> readerIndex b'"
    "length (buffer b') \<le> max (length (buffer b)) (writerIndex b + n)"
proof (cases "Buffer_writableBytes b < n")
  case True
  obtain b' where b': "Buffer_makeSpace n b = Inr b'" "Buffer_wf b'"
    "Buffer_content b' = Buffer_content b" "n \<le> length (buffer b') - writerIndex b'"
    "writerIndex b' \<le> writerIndex b" "min kCheapPrepend (readerIndex b) \<le> readerIndex b'"
    "length (buffer b') \<le> max (length (buffer b)) (writerIndex b + n)"
    using Buffer_makeSpace_ok [OF wf room True] .
  have "writerIndex b' + n \<le> length (buffer b')"
    using b'(4) Buffer_wfD(2) [OF b'(2)] by linarith
  then show ?thesis
    using that [of b'] b' True by (simp add: Buffer_ensureWritableBytes_def)
next
  case False
  then show ?thesis
    using that [of b] wf Buffer_wfD(2) [OF wf] by (simp add: Buffer_ensureWritableBytes_def)
qed

text \<open>A request that does not fit ends in the \<open>std::length_error\<close> of \<open>resize\<close>.\<close>

lemma Buffer_ensureWritableBytes_fault:
  assumes wf: "Buffer_wf b" and n: "n \<le> vec_max_size" and "\<not> Buffer_fits n b"
  shows "Buffer_ensureWritableBytes n b = Inl LengthError"
proof -
  have "length (buffer b) - writerIndex b < n"
    using assms unfolding Buffer_fits_def Buffer_wf_def by linarith
  then show ?thesis
    using assms Buffer_wfD [OF wf]
    by (simp add: Buffer_ensureWritableBytes_def Buffer_makeSpace_def Buffer_fits_def Buffer_consts
      vec_resize_def not_le)
qed

text \<open>With enough writable bytes nothing moves and an append writes in place.\<close>

lemma Buffer_ensureWritableBytes_id [result_simps]:
  assumes "Buffer_wf b" "writerIndex b + n \<le> length (buffer b)"
  shows "Buffer_ensureWritableBytes n b = Inr b"
proof -
  have "\<not> length (buffer b) - writerIndex b < n"
    using assms(2) by linarith
  then show ?thesis
    using assms(1) by (simp add: Buffer_ensureWritableBytes_def)
qed

lemma Buffer_append_in_place:
  assumes wf: "Buffer_wf b" and room: "writerIndex b + n \<le> length (buffer b)"
    and data: "n \<le> length data"
  defines "b' \<equiv> b\<lparr>buffer := overwrite (writerIndex b) (take n data) (buffer b),
    writerIndex := writerIndex b + n\<rparr>"
  shows "Buffer_append data n b = Inr b'" and "Buffer_wf b'"
    and "Buffer_content b' = Buffer_content b @ take n data"
proof -
  let ?w = "overwrite (writerIndex b) (take n data) (buffer b)"
  note D = Buffer_wfD [OF wf]
  have l: "length (take n data) = n"
    using data by simp
  have wf1: "Buffer_wf (b\<lparr>buffer := ?w\<rparr>)"
    using wf room l by (simp add: Buffer_wf_def)
  show "Buffer_wf b'"
    using wf room l by (simp add: Buffer_wf_def b'_def)
  have "Buffer_ensureWritableBytes n b = Inr b"
    using wf room by (rule Buffer_ensureWritableBytes_id)
  then show "Buffer_append data n b = Inr b'"
    using room l data Buffer_sizes [OF wf1] D
    by (simp add: Buffer_append_def Buffer_hasWritten_def b'_def)
  show "Buffer_content b' = Buffer_content b @ take n data"
    using segment_overwrite_after [of "readerIndex b" "writerIndex b" "take n data" "buffer b"]
      room D l by (simp add: Buffer_content_def b'_def)
qed

lemma Buffer_append_ok:
  assumes wf: "Buffer_wf b" and room: "Buffer_fits n b"
    and data: "n \<le> length data"
  obtains b' where "Buffer_append data n b = Inr b'" "Buffer_wf b'"
    "Buffer_content b' = Buffer_content b @ take n data"
    "writerIndex b' \<le> writerIndex b + n" "min kCheapPrepend (readerIndex b) \<le> readerIndex b'"
    "length (buffer b') \<le> max (length (buffer b)) (writerIndex b + n)"
proof -
  obtain c where c: "Buffer_ensureWritableBytes n b = Inr c" "Buffer_wf c"
    "Buffer_content c = Buffer_content b" "writerIndex c + n \<le> length (buffer c)"
    "writerIndex c \<le> writerIndex b" "min kCheapPrepend (readerIndex b) \<le> readerIndex c"
    "length (buffer c) \<le> max (length (buffer b)) (writerIndex b + n)"
    using Buffer_ensureWritableBytes_ok [OF wf room] .
  have "Buffer_ensureWritableBytes n c = Inr c"
    using c(2,4) by (rule Buffer_ensureWritableBytes_id)
  then have "Buffer_append data n b = Buffer_append data n c"
    using c(1) by (simp add: Buffer_append_def)
  then show ?thesis
    using that Buffer_append_in_place [OF c(2,4) data] c(3,5-7) c(4) data by simp
qed

lemma Buffer_append_InrD:
  assumes wf: "Buffer_wf b" and eq: "Buffer_append data n b = Inr b'" and n: "n \<le> vec_max_size"
  shows "Buffer_wf b'" and "Buffer_content b' = Buffer_content b @ take n data" and "n \<le> length data"
proof -
  obtain c where "Buffer_ensureWritableBytes n b = Inr c" "n \<le> length data"
    using eq by (auto simp: Buffer_append_def rbind_eq_Inr mem_read_def split: if_splits)
  moreover from this have "Buffer_fits n b"
    using Buffer_ensureWritableBytes_fault [OF wf n] by auto
  ultimately show "Buffer_wf b'" "Buffer_content b' = Buffer_content b @ take n data" "n \<le> length data"
    using Buffer_append_ok [OF wf, of n data] eq by auto
qed

lemma Buffer_prepend_ok:
  assumes wf: "Buffer_wf b" and room: "n \<le> readerIndex b" and data: "n \<le> length data"
  obtains b' where "Buffer_prepend data n b = Inr b'" "Buffer_wf b'"
    "Buffer_content b' = take n data @ Buffer_content b" "writerIndex b' = writerIndex b"
    "length (buffer b') = length (buffer b)" "readerIndex b' = readerIndex b - n"
proof -
  let ?r = "readerIndex b - n"
  let ?b = "b\<lparr>readerIndex := ?r, buffer := overwrite ?r (take n data) (buffer b)\<rparr>"
  note D = Buffer_wfD [OF wf]
  have l: "length (take n data) = n"
    using data by simp
  have fit: "?r + length (take n data) \<le> length (buffer b)"
    using l room D by linarith
  have wf': "Buffer_wf ?b"
    using wf fit by (auto simp: Buffer_wf_def)
  have "Buffer_prepend data n b = Inr ?b"
    using wf D room data fit l by (simp add: Buffer_prepend_def Let_def)
  moreover have "Buffer_content ?b = take n data @ Buffer_content b"
    using segment_overwrite_before [of ?r "take n data" "readerIndex b" "writerIndex b" "buffer b"]
      l room D by (simp add: Buffer_content_def)
  ultimately show ?thesis
    using that [of ?b] wf' fit by simp
qed

lemma Buffer_unwrite_ok:
  assumes wf: "Buffer_wf b" and n: "n \<le> length (Buffer_content b)"
  obtains b' where "Buffer_unwrite n b = Inr b'" "Buffer_wf b'"
    "Buffer_content b' = take (length (Buffer_content b) - n) (Buffer_content b)"
    "writerIndex b' \<le> writerIndex b" "readerIndex b' = readerIndex b" "buffer b' = buffer b"
proof -
  let ?b = "b\<lparr>writerIndex := writerIndex b - n\<rparr>"
  note D = Buffer_wfD [OF wf]
  have "Buffer_unwrite n b = Inr ?b" "Buffer_wf ?b"
    using wf n D by (auto simp: Buffer_unwrite_def Buffer_wf_def)
  moreover have "Buffer_content ?b = take (length (Buffer_content b) - n) (Buffer_content b)"
  proof -
    have "length (Buffer_content b) - n = writerIndex b - readerIndex b - n"
      and "readerIndex b + (writerIndex b - readerIndex b - n) = writerIndex b - n"
      using wf n D by simp_all
    then show ?thesis
      by (simp add: Buffer_content_def take_segment)
  qed
  ultimately show ?thesis
    using that [of ?b] by simp
qed

lemma Buffer_hasWritten_ok:
  assumes wf: "Buffer_wf b" and n: "writerIndex b + n \<le> length (buffer b)"
  shows "Buffer_hasWritten n b = Inr (b\<lparr>writerIndex := writerIndex b + n\<rparr>)"
    and "Buffer_wf (b\<lparr>writerIndex := writerIndex b + n\<rparr>)"
  using n wf Buffer_wfD [OF wf] by (auto simp: Buffer_hasWritten_def Buffer_wf_def)

section \<open>The buffer provides the byte-queue interface\<close>

text \<open>The bytes that can still be appended before the vector's greatest size is reached.\<close>

definition Buffer_room :: "Buffer \<Rightarrow> nat" where
  "Buffer_room b = vec_max_size - writerIndex b"

lemma Buffer_room_le: "Buffer_wf b \<Longrightarrow> n \<le> Buffer_room b \<longleftrightarrow> writerIndex b + n \<le> vec_max_size"
  unfolding Buffer_room_def Buffer_wf_def by linarith

interpretation bq: framed_queue Buffer_wf Buffer_content Buffer_readableBytes Buffer_peek
  Buffer_retrieve Buffer_room Buffer_append Buffer_prependableBytes Buffer_prepend
proof
  fix b :: Buffer and n :: nat
  assume wf: "Buffer_wf b"
  show "Buffer_readableBytes b = length (Buffer_content b)"
    using wf by (rule readable_content)
  show "n \<le> length (Buffer_content b) \<Longrightarrow>
      mem_read n (Buffer_peek b) = Inr (take n (Buffer_content b))"
    using wf by (rule mem_read_peek)
  show "n \<le> length (Buffer_content b) \<Longrightarrow> \<exists>b'. Buffer_retrieve n b = Inr b' \<and> Buffer_wf b'
      \<and> Buffer_content b' = drop n (Buffer_content b)"
    using Buffer_retrieve_ok [OF wf] by metis
  show "length (Buffer_content b) < n \<Longrightarrow> Buffer_retrieve n b = Inl AssertFailed"
    using wf by (rule Buffer_retrieve_fault)
next
  fix b :: Buffer and n :: nat and data :: "byte list"
  assume wf: "Buffer_wf b" and n: "n \<le> Buffer_room b"
  have room: "Buffer_fits n b"
    using wf n Buffer_room_le by (auto simp: Buffer_fits_def)
  show "\<exists>b'. Buffer_append data n b = Inr b' \<and> Buffer_wf b' \<and>
      Buffer_content b' = Buffer_content b @ take n data \<and> Buffer_room b \<le> Buffer_room b' + n"
    if data: "n \<le> length data"
  proof -
    obtain b' where b': "Buffer_append data n b = Inr b'" "Buffer_wf b'"
      "Buffer_content b' = Buffer_content b @ take n data" "writerIndex b' \<le> writerIndex b + n"
      using Buffer_append_ok [OF wf room data] by blast
    then have "Buffer_room b \<le> Buffer_room b' + n"
      unfolding Buffer_room_def by linarith
    then show ?thesis
      using b' by blast
  qed
  show "min 8 (Buffer_prependableBytes b) \<le> Buffer_prependableBytes b'"
    if eq: "Buffer_append data n b = Inr b'" for b'
  proof -
    obtain c where "Buffer_ensureWritableBytes n b = Inr c" "mem_read n data = Inr (take n data)"
      using eq by (auto simp: Buffer_append_def rbind_eq_Inr mem_read_eq_Inr)
    then have "n \<le> length data"
      by (auto simp: mem_read_def split: if_splits)
    then show ?thesis
      using Buffer_append_ok [OF wf room] wf eq
      by (metis Buffer_sizes(3) kCheapPrepend_def sum.inject(2))
  qed
next
  fix b :: Buffer and n :: nat and data :: "byte list"
  assume wf: "Buffer_wf b" and "n \<le> Buffer_prependableBytes b" "n \<le> length data"
  then show "\<exists>b'. Buffer_prepend data n b = Inr b' \<and> Buffer_wf b'
      \<and> Buffer_content b' = take n data @ Buffer_content b"
    using Buffer_prepend_ok [OF wf, of n data] by (metis Buffer_sizes(3))
qed

section \<open>A buffer refines a byte queue\<close>

text \<open>
  The abstract specification is a list of bytes with the operations of a queue that can also
  be extended in front and cut at the end; it faults where the code asserts.
\<close>

datatype buffer_op =
    Append "byte list"
  | Prepend "byte list"
  | Retrieve nat
  | RetrieveAll
  | Unwrite nat
  | EnsureWritable nat

fun op_size :: "buffer_op \<Rightarrow> nat" where
  "op_size (Append bs) = length bs"
| "op_size (EnsureWritable n) = n"
| "op_size _ = 0"

fun Buffer_step :: "buffer_op \<Rightarrow> Buffer \<Rightarrow> Buffer result" where
  "Buffer_step (Append bs) b = Buffer_append bs (length bs) b"
| "Buffer_step (Prepend bs) b = Buffer_prepend bs (length bs) b"
| "Buffer_step (Retrieve n) b = Buffer_retrieve n b"
| "Buffer_step RetrieveAll b = Inr (Buffer_retrieveAll b)"
| "Buffer_step (Unwrite n) b = Buffer_unwrite n b"
| "Buffer_step (EnsureWritable n) b = Buffer_ensureWritableBytes n b"

fun Buffer_run :: "buffer_op list \<Rightarrow> Buffer \<Rightarrow> Buffer result" where
  "Buffer_run [] b = Inr b"
| "Buffer_run (x # xs) b = rbind (Buffer_step x b) (Buffer_run xs)"

fun queue_step :: "buffer_op \<Rightarrow> byte list \<Rightarrow> byte list result" where
  "queue_step (Append bs) q = Inr (q @ bs)"
| "queue_step (Prepend bs) q = Inr (bs @ q)"
| "queue_step (Retrieve n) q = (if n \<le> length q then Inr (drop n q) else Inl AssertFailed)"
| "queue_step RetrieveAll q = Inr []"
| "queue_step (Unwrite n) q =
     (if n \<le> length q then Inr (take (length q - n) q) else Inl AssertFailed)"
| "queue_step (EnsureWritable n) q = Inr q"

fun queue_run :: "buffer_op list \<Rightarrow> byte list \<Rightarrow> byte list result" where
  "queue_run [] q = Inr q"
| "queue_run (x # xs) q = rbind (queue_step x q) (queue_run xs)"

lemma Buffer_append_fits:
  "Buffer_wf b \<Longrightarrow> n \<le> vec_max_size \<Longrightarrow> Buffer_append data n b = Inr b' \<Longrightarrow> Buffer_fits n b"
  by (cases "Buffer_fits n b") (simp_all add: Buffer_append_def Buffer_ensureWritableBytes_fault)

lemma Buffer_step_refines:
  assumes wf: "Buffer_wf b" and size: "op_size x \<le> vec_max_size" and step: "Buffer_step x b = Inr b'"
  shows "Buffer_wf b' \<and> queue_step x (Buffer_content b) = Inr (Buffer_content b')"
proof (cases x)
  case (Append bs)
  then have "Buffer_fits (length bs) b"
    using Buffer_append_fits wf size step by simp
  then show ?thesis
    using Buffer_append_ok [OF wf _ order_refl, of bs] step Append by (metis Buffer_step.simps(1)
      append_take_drop_id drop_all order_refl append_Nil2 queue_step.simps(1) sum.inject(2))
next
  case (Prepend bs)
  then have "length bs \<le> readerIndex b"
    using step wf by (auto simp: Buffer_prepend_def split: if_splits)
  then show ?thesis
    using Buffer_prepend_ok [OF wf _ order_refl, of bs] step Prepend
    by (metis Buffer_step.simps(2) take_all order_refl queue_step.simps(2) sum.inject(2))
next
  case (Retrieve n)
  then have "n \<le> length (Buffer_content b)"
    using step Buffer_retrieve_fault [OF wf, of n] by fastforce
  then show ?thesis
    using Buffer_retrieve_ok [OF wf, of n] step Retrieve by (metis Buffer_step.simps(3)
      queue_step.simps(3) sum.inject(2))
next
  case RetrieveAll
  then show ?thesis
    using step wf by (auto simp: Buffer_retrieveAll_ok)
next
  case (Unwrite n)
  then have "n \<le> length (Buffer_content b)"
    using step wf by (auto simp: Buffer_unwrite_def split: if_splits)
  then show ?thesis
    using Buffer_unwrite_ok [OF wf, of n] step Unwrite by (metis Buffer_step.simps(5)
      queue_step.simps(5) sum.inject(2))
next
  case (EnsureWritable n)
  then have "Buffer_fits n b"
    using Buffer_ensureWritableBytes_fault [OF wf, of n] size step by fastforce
  then show ?thesis
    using Buffer_ensureWritableBytes_ok [OF wf, of n] step EnsureWritable
    by (metis Buffer_step.simps(6) queue_step.simps(6) sum.inject(2))
qed

text \<open>C2. Whatever sequence of the six operations \<open>append\<close>, \<open>prepend\<close>, \<open>retrieve\<close>, \<open>retrieveAll\<close>,
  \<open>unwrite\<close> and \<open>ensureWritableBytes\<close> a client makes on a well-formed buffer, with sizes of at most
  \<open>vec_max_size\<close> (\<open>2^63 - 1\<close>, which a negative \<open>int\<close> taken as a \<open>size_t\<close> exceeds) to \<open>append\<close> and
  \<open>ensureWritableBytes\<close>, a buffer that has not faulted is well formed and its readable bytes are what the
  abstract byte queue holds after the same operations: growing, compacting and moving the indices lose,
  duplicate and reorder nothing.\<close>

theorem Buffer_refines_byte_queue:
  assumes "Buffer_wf b" "list_all (\<lambda>x. op_size x \<le> vec_max_size) ops" "Buffer_run ops b = Inr b'"
  shows "Buffer_wf b' \<and> queue_run ops (Buffer_content b) = Inr (Buffer_content b')"
  using assms
proof (induction ops arbitrary: b)
  case Nil
  then show ?case by simp
next
  case (Cons x xs)
  then obtain c where c: "Buffer_step x b = Inr c" "Buffer_run xs c = Inr b'"
    by (auto simp: rbind_eq_Inr)
  then show ?case
    using Buffer_step_refines [OF Cons.prems(1) _ c(1)] Cons.IH [of c] Cons.prems by auto
qed

text \<open>What evaluates a closed run of operations.\<close>

lemmas Buffer_eval = Buffer_append_def Buffer_retrieve_def Buffer_retrieveAll_def
  Buffer_prepend_def Buffer_unwrite_def Buffer_ensureWritableBytes_def Buffer_makeSpace_def
  Buffer_hasWritten_def Buffer_readableBytes_def Buffer_writableBytes_def
  Buffer_prependableBytes_def Buffer_peek_def Buffer_consts Let_def overwrite_def
  vec_resize_def vec_store_def

lemma Buffer_refines_byte_queue_witness:
  "\<exists>b'. Buffer_run [Append [1, 2, 3], Retrieve 1, EnsureWritable 4, Prepend [9], Unwrite 1]
      \<lparr>buffer = [0, 0, 0, 0, 0, 0, 0, 0, 0, 0, 0, 0], readerIndex = 8, writerIndex = 8\<rparr> = Inr b'
    \<and> Buffer_wf b' \<and> Buffer_content b' = [9, 2]"
proof -
  let ?b = "\<lparr>buffer = [0, 0, 0, 0, 0, 0, 0, 0, 0, 0, 0, 0], readerIndex = 8, writerIndex = 8\<rparr>"
  let ?ops = "[Append [1, 2, 3], Retrieve 1, EnsureWritable 4, Prepend [9], Unwrite 1]"
  have run: "Buffer_run ?ops ?b
      = Inr \<lparr>buffer = [0, 0, 0, 0, 0, 0, 0, 0, 9, 2, 3, 0, 0, 0, 0], readerIndex = 8, writerIndex = 10\<rparr>"
    by (simp add: Buffer_eval) (simp add: numeral_eq_Suc)
  have wf: "Buffer_wf ?b" and small: "list_all (\<lambda>x. op_size x \<le> vec_max_size) ?ops"
    by (simp_all add: Buffer_wf_def Buffer_consts)
  have "queue_run ?ops (Buffer_content ?b) = Inr [9, 2]"
    by (simp add: Buffer_content_def)
  then show ?thesis
    using Buffer_refines_byte_queue [OF wf small run] run by auto
qed

text \<open>An operation that puts nothing in front keeps the reserve of \<open>kCheapPrepend\<close> bytes.\<close>

fun keeps_front :: "buffer_op \<Rightarrow> bool" where
  "keeps_front (Prepend _) = False"
| "keeps_front _ = True"

lemma Buffer_step_total:
  assumes wf: "Buffer_wf b" and front: "keeps_front x" "kCheapPrepend \<le> readerIndex b"
    and room: "writerIndex b + op_size x \<le> vec_max_size"
    and spec: "queue_step x (Buffer_content b) = Inr q"
  obtains b' where "Buffer_step x b = Inr b'" "Buffer_wf b'" "Buffer_content b' = q"
    "kCheapPrepend \<le> readerIndex b'" "writerIndex b' \<le> writerIndex b + op_size x"
proof -
  have fits: "Buffer_fits (op_size x) b"
    using room by (simp add: Buffer_fits_def)
  have w: "kCheapPrepend \<le> writerIndex b"
    using front(2) wf by (simp add: Buffer_wf_def)
  have "\<exists>b'. Buffer_step x b = Inr b' \<and> Buffer_wf b' \<and> kCheapPrepend \<le> readerIndex b'
      \<and> writerIndex b' \<le> writerIndex b + op_size x"
  proof (cases x)
    case (Append bs)
    then show ?thesis
      using Buffer_append_ok [OF wf, of "length bs" bs] fits front(2) by fastforce
  next
    case (Retrieve n)
    then have "n \<le> length (Buffer_content b)"
      using spec by (auto split: if_splits)
    then show ?thesis
      using Buffer_retrieve_ok [OF wf, of n] front(2) w Retrieve by fastforce
  next
    case RetrieveAll
    then show ?thesis
      using wf w by (simp add: wf_intros) (simp add: Buffer_retrieveAll_def)
  next
    case (Unwrite n)
    then have "n \<le> length (Buffer_content b)"
      using spec by (auto split: if_splits)
    then show ?thesis
      using Buffer_unwrite_ok [OF wf, of n] front(2) Unwrite by fastforce
  next
    case (EnsureWritable n)
    then show ?thesis
      using Buffer_ensureWritableBytes_ok [OF wf, of n] fits front(2) by fastforce
  qed (use front in simp)
  then obtain b' where b': "Buffer_step x b = Inr b'" "Buffer_wf b'"
    "kCheapPrepend \<le> readerIndex b'" "writerIndex b' \<le> writerIndex b + op_size x"
    by blast
  have "op_size x \<le> vec_max_size"
    using room by simp
  then have "Buffer_content b' = q"
    using Buffer_step_refines [OF wf _ b'(1)] spec by simp
  then show ?thesis
    using that [of b'] b' by blast
qed



text \<open>C14. An append of \<open>n\<close> bytes succeeds exactly when they fit (the vector may grow
  behind the write index, or the free bytes on both sides suffice); then the bytes are at the
  end of the content, and otherwise the append ends in \<open>std::length_error\<close>.\<close>

theorem Buffer_append_outcome:
  assumes "Buffer_wf b" "n \<le> length data" "n \<le> vec_max_size"
  shows "if Buffer_fits n b
    then \<exists>b'. Buffer_append data n b = Inr b' \<and> Buffer_wf b'
      \<and> Buffer_content b' = Buffer_content b @ take n data
    else Buffer_append data n b = Inl LengthError"
proof (cases "Buffer_fits n b")
  case True
  then show ?thesis
    using Buffer_append_ok [OF assms(1) True assms(2)] by auto
next
  case False
  then show ?thesis
    using Buffer_ensureWritableBytes_fault [OF assms(1,3)] by (simp add: Buffer_append_def)
qed

lemma Buffer_append_outcome_witness:
  "\<exists>b'. Buffer_append [7, 8] 2 \<lparr>buffer = replicate 9 0, readerIndex = 8, writerIndex = 9\<rparr> = Inr b'
    \<and> Buffer_wf b' \<and> Buffer_content b' = [0, 7, 8]"
  using Buffer_append_outcome [of "\<lparr>buffer = replicate 9 0, readerIndex = 8, writerIndex = 9\<rparr>" 2 "[7, 8]"]
  by (simp add: Buffer_wf_def Buffer_consts Buffer_fits_def Buffer_content_def segment_def)

text \<open>A negative \<open>int32_t\<close> length converted to \<open>size_t\<close> defeats \<open>ensureWritableBytes\<close>:
  for \<open>-k\<close> with $8 < k \le$ \<open>writerIndex_\<close> the sum in \<open>resize(writerIndex_ + len)\<close> wraps,
  the vector is cut to \<open>k\<close> bytes less than the write index, \<open>writableBytes()\<close> wraps too, and
  the final assertion passes: the call returns normally with a buffer that is no longer well
  formed and claims $2^{64} - k$ writable bytes.\<close>

lemma ensureWritableBytes_negative:
  assumes "Buffer_wf b" "8 < k" "k \<le> writerIndex b"
  shows "\<exists>b'. Buffer_ensureWritableBytes (size_of_int (- int k)) b = Inr b'
    \<and> length (buffer b') = writerIndex b' - k \<and> writerIndex b' = writerIndex b
    \<and> \<not> Buffer_wf b' \<and> Buffer_writableBytes b' = 2 ^ 64 - k"
proof -
  note D = Buffer_wfD [OF assms(1)]
  let ?n = "2 ^ 64 - k" and ?b = "b\<lparr>buffer := take (writerIndex b - k) (buffer b)\<rparr>"
  have k: "k < 2 ^ 63"
    using D assms(3) by linarith
  have "(- int k) mod 2 ^ 64 = 2 ^ 64 - int k"
    using k assms(2) by (subst zmod_zminus1_eq_if) simp
  then have n: "size_of_int (- int k) = ?n"
    using k by (simp add: size_of_int_def nat_diff_distrib)
  have "writerIndex b + ?n = (writerIndex b - k) + 2 ^ 64"
    using k assms(3) by simp
  then have "szadd (writerIndex b) ?n = ((writerIndex b - k) + 2 ^ 64) mod 2 ^ 64"
    by (simp only: szadd_def)
  moreover have "?n + 8 = 2 ^ 64 - (k - 8)"
    using k assms(2) by simp
  ultimately have wrap: "szadd (writerIndex b) ?n = writerIndex b - k"
      "szadd ?n 8 = 2 ^ 64 - (k - 8)"
    using D k assms(2) by (simp_all add: szadd_def)
  have len: "length (buffer ?b) = writerIndex b - k"
    using D by simp
  have "(int (writerIndex b - k) - int (writerIndex b)) mod 2 ^ 64 = 2 ^ 64 - int k"
    using k assms(2,3) by (simp add: of_nat_diff) (subst zmod_zminus1_eq_if, simp)
  then have wr: "Buffer_writableBytes ?b = ?n"
    using k len by (simp add: Buffer_writableBytes_def szsub_def nat_diff_distrib)
  have "length (buffer b) - writerIndex b + readerIndex b < 2 ^ 64 - (k - 8)"
    using D k assms(2) by simp
  then have "Buffer_makeSpace ?n b = Inr ?b"
    using assms D k wrap by (simp add: Buffer_makeSpace_def Buffer_consts)
  then have "Buffer_ensureWritableBytes ?n b = Inr ?b"
    using assms(1) D k wr by (simp add: Buffer_ensureWritableBytes_def)
  moreover have "\<not> writerIndex b \<le> writerIndex b - k"
    using assms(2,3) by linarith
  then have "\<not> Buffer_wf ?b"
    using len by (simp add: Buffer_wf_def)
  ultimately show ?thesis
    using n wr len by auto
qed

section \<open>Integers and shrinking\<close>

lemma Buffer_appendInt32_ok:
  assumes "Buffer_wf b" "Buffer_fits 4 b"
  obtains b' where "Buffer_appendInt32 so x b = Inr b'" "Buffer_wf b'"
    "Buffer_content b' = Buffer_content b @ obj32 (host_to_network_long so x)"
    "writerIndex b' \<le> writerIndex b + 4" "min kCheapPrepend (readerIndex b) \<le> readerIndex b'"
  using Buffer_append_ok [OF assms, of "obj32 (host_to_network_long so x)"]
  unfolding Buffer_appendInt32_def by simp blast

lemma Buffer_prependInt32_ok:
  assumes "Buffer_wf b" "4 \<le> readerIndex b"
  obtains b' where "Buffer_prependInt32 so x b = Inr b'" "Buffer_wf b'"
    "Buffer_content b' = obj32 (host_to_network_long so x) @ Buffer_content b"
  using Buffer_prepend_ok [OF assms, of "obj32 (host_to_network_long so x)"]
  unfolding Buffer_prependInt32_def by simp blast

lemma Buffer_readInt32_ok:
  assumes "Buffer_wf b" "Buffer_content b = obj32 y @ rest"
  obtains b' where "Buffer_readInt32 so b = Inr (network_to_host_long so y, b')" "Buffer_wf b'"
    "Buffer_content b' = rest"
proof -
  have "4 \<le> length (Buffer_content b)"
    using assms(2) by simp
  moreover obtain b' where "Buffer_retrieve 4 b = Inr b'" "Buffer_wf b'"
    "Buffer_content b' = drop 4 (Buffer_content b)"
    using Buffer_retrieve_ok [OF assms(1) calculation] by blast
  ultimately show ?thesis
    using that [of b'] assms
    by (simp add: Buffer_readInt32_def Buffer_retrieveInt32_def Buffer_peekInt32_ok)
qed

text \<open>An \<open>int32_t\<close> put in front with \<open>prependInt32\<close>, or appended to an empty
  buffer with \<open>appendInt32\<close>, is stored with its most significant byte first, and \<open>readInt32\<close>
  returns it and leaves the rest of the content.\<close>

lemma Buffer_int32_roundtrip:
  assumes "socket_ops_ok so" "Buffer_wf b" "Buffer_fits 4 b" "4 \<le> readerIndex b"
  shows "\<exists>b1 b2 b3. Buffer_appendInt32 so x b = Inr b1
      \<and> Buffer_content b1 = Buffer_content b @ rev (obj32 x)
      \<and> Buffer_prependInt32 so x b = Inr b2
      \<and> Buffer_content b2 = rev (obj32 x) @ Buffer_content b
      \<and> Buffer_readInt32 so b2 = Inr (x, b3) \<and> Buffer_wf b3 \<and> Buffer_content b3 = Buffer_content b
      \<and> (Buffer_content b = [] \<longrightarrow>
          (\<exists>b4. Buffer_readInt32 so b1 = Inr (x, b4) \<and> Buffer_wf b4 \<and> Buffer_content b4 = []))"
proof -
  let ?y = "host_to_network_long so x"
  obtain b1 where b1: "Buffer_appendInt32 so x b = Inr b1" "Buffer_wf b1"
    "Buffer_content b1 = Buffer_content b @ obj32 ?y"
    using Buffer_appendInt32_ok [OF assms(2,3)] by blast
  obtain b2 where b2: "Buffer_prependInt32 so x b = Inr b2" "Buffer_wf b2"
    "Buffer_content b2 = obj32 ?y @ Buffer_content b"
    using Buffer_prependInt32_ok [OF assms(2,4)] by blast
  obtain b3 where b3: "Buffer_readInt32 so b2 = Inr (x, b3)" "Buffer_wf b3"
    "Buffer_content b3 = Buffer_content b"
    using Buffer_readInt32_ok [OF b2(2,3), of so] assms(1) by auto
  have "\<exists>b4. Buffer_readInt32 so b1 = Inr (x, b4) \<and> Buffer_wf b4 \<and> Buffer_content b4 = []"
    if "Buffer_content b = []"
    using Buffer_readInt32_ok [OF b1(2), of ?y "[]" so] b1(3) that assms(1) by auto
  then show ?thesis
    using b1 b2 b3 assms(1) by auto
qed

lemma Buffer_int32_roundtrip_witness:
  "\<exists>b1 b2. Buffer_appendInt32 bswap_ops 258 \<lparr>buffer = replicate 8 0, readerIndex = 8, writerIndex = 8\<rparr> = Inr b1
      \<and> Buffer_content b1 = [0, 0, 1, 2] \<and> Buffer_readInt32 bswap_ops b1 = Inr (258, b2)"
  using Buffer_int32_roundtrip [OF bswap_ops_ok,
      of "\<lparr>buffer = replicate 8 0, readerIndex = 8, writerIndex = 8\<rparr>" 258]
  by (auto simp: Buffer_wf_def Buffer_consts Buffer_fits_def Buffer_content_def obj32_def)

lemma fst_Buffer_swap [simp]: "fst (Buffer_swap b c) = c"
  by (cases b; cases c) (simp add: Buffer_swap_def)

text \<open>\<open>shrink\<close> keeps the readable bytes of a buffer of less than $2^{31}$ of them and
  leaves room for \<open>reserve\<close> more behind them, with the reserve in front restored.\<close>

lemma Buffer_shrink_content:
  assumes "Buffer_wf b" "length (Buffer_content b) < 2 ^ 31" "reserve < 2 ^ 31"
  shows "\<exists>b'. Buffer_shrink reserve b = Inr b' \<and> Buffer_wf b' \<and> Buffer_content b' = Buffer_content b
    \<and> reserve \<le> Buffer_writableBytes b' \<and> kCheapPrepend \<le> readerIndex b'"
proof -
  let ?n = "length (Buffer_content b)"
  obtain c where c: "Buffer_new kInitialSize = Inr c" "Buffer_wf c" "Buffer_content c = []"
    "readerIndex c = kCheapPrepend" "writerIndex c = kCheapPrepend"
    using Buffer_new_ok [of kInitialSize] by (auto simp: Buffer_consts)
  have sum: "szadd (Buffer_readableBytes b) reserve = ?n + reserve"
    using assms by simp
  have "Buffer_fits (?n + reserve) c"
    using assms c(5) by (simp add: Buffer_fits_def Buffer_consts)
  then obtain d where d: "Buffer_ensureWritableBytes (?n + reserve) c = Inr d" "Buffer_wf d"
    "Buffer_content d = []" "writerIndex d + (?n + reserve) \<le> length (buffer d)"
    "kCheapPrepend \<le> readerIndex d" "writerIndex d \<le> kCheapPrepend"
    using Buffer_ensureWritableBytes_ok [OF c(2)] c(3-5) by (metis min.idem)
  let ?m = "Buffer_peek b"
  have m: "?n \<le> length ?m" "take ?n ?m = Buffer_content b" and room: "writerIndex d + ?n \<le> length (buffer d)"
    using assms(1) Buffer_wfD [OF assms(1)] d(4) by simp_all
  have sp: "Buffer_append_piece (Buffer_toStringPiece b) d = Buffer_append ?m ?n d"
    using assms by (simp add: Buffer_append_piece_def Buffer_toStringPiece_def StringPiece_of_mem_def)
  note app = Buffer_append_in_place [OF d(2) room m(1)]
  show ?thesis
    using app m d c sum sp by (simp add: Buffer_shrink_def fst_Buffer_swap)
qed

text \<open>A buffer that holds given bytes behind the usual reserve, for concrete runs.\<close>

definition buffer_with :: "byte list \<Rightarrow> Buffer" where
  "buffer_with bs = \<lparr>buffer = replicate 8 0 @ bs, readerIndex = 8, writerIndex = 8 + length bs\<rparr>"

lemma buffer_with_content [simp]: "Buffer_content (buffer_with bs) = bs"
  by (simp add: buffer_with_def Buffer_content_def segment_def)

lemma buffer_with_wf: "length bs \<le> 1000 \<Longrightarrow> Buffer_wf (buffer_with bs)"
  by (simp add: buffer_with_def Buffer_wf_def Buffer_consts vec_max_size_def)

lemma Buffer_shrink_content_witness:
  "\<exists>b'. Buffer_shrink 5 (buffer_with [1, 2, 3]) = Inr b' \<and> Buffer_wf b' \<and> Buffer_content b' = [1, 2, 3]
    \<and> 5 \<le> Buffer_writableBytes b' \<and> kCheapPrepend \<le> readerIndex b'"
  using Buffer_shrink_content [of "buffer_with [1, 2, 3]" 5] buffer_with_wf [of "[1, 2, 3]"]
  by (simp del: length_content)

end
