(* ===== verification/Codec.thy ===== *)
theory Codec
  imports Buffer
begin

text \<open>
  \<open>Codec.h\<close>, \<open>Codec.cpp\<close>: \<open>LengthHeaderCodec\<close>, which cuts the input buffer of a connection
  into messages behind a 32 bit length. What \<open>onMessage\<close> does to the outside, the calls of
  the message callback and of \<open>conn->shutdown()\<close>, is the list of events it returns. The lemmas
  refine it to \<open>decode\<close>, a function on the bytes of the stream, and show that \<open>decode\<close> inverts
  the framing, however the stream is cut into reads.
\<close>

section \<open>The codec\<close>

datatype codec_event = Deliver "byte list" | Shutdown

definition kHeaderLen :: int where "kHeaderLen = 4"
definition kMaxMessageLen :: int where "kMaxMessageLen = 65536"
definition kMinMessageLen :: int where "kMinMessageLen = 0"

lemmas codec_consts = kHeaderLen_def kMaxMessageLen_def kMinMessageLen_def

lemma Buffer_retrieve_readable:
  "Buffer_retrieve n b = Inr b' \<Longrightarrow> Buffer_readableBytes b' = Buffer_readableBytes b - n"
  by (auto simp: Buffer_retrieve_def Buffer_readableBytes_def szsub_szadd Buffer_retrieveAll_def
      Buffer_consts split: if_splits)

lemma Buffer_retrieve_le: "Buffer_retrieve n b = Inr b' \<Longrightarrow> n \<le> Buffer_readableBytes b"
  by (auto simp: Buffer_retrieve_def split: if_splits)

text \<open>The loop of \<open>onMessage\<close>, one call per iteration.\<close>

function LengthHeaderCodec_onMessage ::
    "socket_ops \<Rightarrow> Buffer \<Rightarrow> (codec_event list \<times> Buffer) result" where
  "LengthHeaderCodec_onMessage so message =
     (if Buffer_readableBytes message > size_of_int kHeaderLen then
        rbind (Buffer_peekInt32 so message) (\<lambda>x.
        let bodyLen = sint x in
        if bodyLen > kMaxMessageLen \<or> bodyLen < kMinMessageLen then Inr ([Shutdown], message)
        else if Buffer_readableBytes message \<ge> size_of_int (bodyLen + kHeaderLen) then
          rbind (Buffer_retrieve (size_of_int kHeaderLen) message) (\<lambda>message1.
          rbind (mem_read (size_of_int bodyLen) (Buffer_peek message1)) (\<lambda>s.
          rbind (Buffer_retrieve (size_of_int bodyLen) message1) (\<lambda>message2.
          rbind (LengthHeaderCodec_onMessage so message2) (\<lambda>(evs, message').
          Inr (Deliver s # evs, message')))))
        else Inr ([], message))
      else Inr ([], message))"
  by pat_completeness auto
termination
proof (relation "measure (\<lambda>(so, message). Buffer_readableBytes message)", goal_cases)
  case (2 so message x bodyLen message1 s message2)
  then have "Buffer_readableBytes message2 = Buffer_readableBytes message - 4 - size_of_int bodyLen"
    by (simp add: Buffer_retrieve_readable codec_consts)
  then show ?case
    using 2(1) by (simp add: codec_consts)
qed simp

declare LengthHeaderCodec_onMessage.simps [simp del]

text \<open>The body of \<open>send\<close> is commented out: the call changes nothing and sends nothing.\<close>

definition LengthHeaderCodec_send :: "byte list \<Rightarrow> nat \<Rightarrow> 'conn \<Rightarrow> 'conn" where
  "LengthHeaderCodec_send data n conn = conn"

section \<open>Decoding a byte stream\<close>

text \<open>The length in front of a stream, and the specification of the loop on plain bytes.\<close>

definition header_len :: "socket_ops \<Rightarrow> byte list \<Rightarrow> int" where
  "header_len so bs = sint (network_to_host_long so (mem32 bs))"

function decode :: "socket_ops \<Rightarrow> byte list \<Rightarrow> codec_event list \<times> byte list" where
  "decode so bs =
     (if length bs > 4 then
        let n = header_len so bs in
        if n > 65536 \<or> n < 0 then ([Shutdown], bs)
        else if length bs \<ge> nat n + 4 then
          let r = decode so (drop (nat n + 4) bs)
          in (Deliver (take (nat n) (drop 4 bs)) # fst r, snd r)
        else ([], bs)
      else ([], bs))"
  by pat_completeness auto
termination
  by (relation "measure (\<lambda>(so, bs). length bs)") auto

declare decode.simps [simp del]

text \<open>One iteration of either loop, by the length found in the header.\<close>

lemma decode_stop:
  "length bs \<le> 4 \<Longrightarrow> decode so bs = ([], bs)"
  "4 < length bs \<Longrightarrow> header_len so bs > 65536 \<or> header_len so bs < 0 \<Longrightarrow> decode so bs = ([Shutdown], bs)"
  "0 \<le> header_len so bs \<Longrightarrow> header_len so bs \<le> 65536 \<Longrightarrow> length bs < nat (header_len so bs) + 4 \<Longrightarrow>
     decode so bs = ([], bs)"
  by (auto simp: decode.simps [of so bs])

lemma decode_full:
  assumes "4 < length bs" "header_len so bs = int n" "n \<le> 65536" "n + 4 \<le> length bs"
  shows "decode so bs = (Deliver (take n (drop 4 bs)) # fst (decode so (drop (n + 4) bs)),
    snd (decode so (drop (n + 4) bs)))"
  using assms by (subst decode.simps) (simp add: Let_def)

lemma onMessage_stop:
  assumes wf: "Buffer_wf m"
  shows "length (Buffer_content m) \<le> 4 \<Longrightarrow> LengthHeaderCodec_onMessage so m = Inr ([], m)"
    and "4 < length (Buffer_content m) \<Longrightarrow>
      header_len so (Buffer_content m) > 65536 \<or> header_len so (Buffer_content m) < 0 \<Longrightarrow>
      LengthHeaderCodec_onMessage so m = Inr ([Shutdown], m)"
    and "4 < length (Buffer_content m) \<Longrightarrow>
      0 \<le> header_len so (Buffer_content m) \<Longrightarrow> header_len so (Buffer_content m) \<le> 65536 \<Longrightarrow>
      length (Buffer_content m) < nat (header_len so (Buffer_content m)) + 4 \<Longrightarrow>
      LengthHeaderCodec_onMessage so m = Inr ([], m)"
  using Buffer_peekInt32_ok [OF wf, of so] readable_content [OF wf]
  by (auto simp: LengthHeaderCodec_onMessage.simps [of so m] codec_consts header_len_def Let_def
      nat_add_distrib simp del: length_content Buffer_sizes)

lemma onMessage_unfold:
  assumes wf: "Buffer_wf m" and len: "4 < length (Buffer_content m)" "n + 4 \<le> length (Buffer_content m)"
    and n2: "n \<le> 65536"
   and pk: "Buffer_peekInt32 so m = Inr x"
   and hd: "sint x = int n"
   and m1: "Buffer_retrieve 4 m = Inr m1" and m2: "Buffer_retrieve n m1 = Inr m2"
   and rd: "mem_read n (Buffer_peek m1) = Inr b"
  shows "LengthHeaderCodec_onMessage so m = rbind (LengthHeaderCodec_onMessage so m2) (\<lambda>(evs, m').
        Inr (Deliver b # evs, m'))"
proof -
  have sz: "size_of_int (int n + 4) = n + 4" "size_of_int (int n) = n" "size_of_int 4 = 4"
    using n2 by (simp_all add: nat_add_distrib)
  have c: "\<not> (sint x > 65536 \<or> sint x < 0)" "4 < Buffer_readableBytes m" "n + 4 \<le> Buffer_readableBytes m"
    using hd n2 len readable_content [OF wf] by simp_all
  show ?thesis
    unfolding LengthHeaderCodec_onMessage.simps [of so m] codec_consts sz
    using c by (simp add: pk m1 m2 rd sz hd)
qed

lemma onMessage_full:
  assumes wf: "Buffer_wf m" and len: "4 < length (Buffer_content m)" "n + 4 \<le> length (Buffer_content m)"
    and n: "header_len so (Buffer_content m) = int n" "n \<le> 65536"
  obtains m2 where "Buffer_wf m2" "Buffer_content m2 = drop (n + 4) (Buffer_content m)"
    "writerIndex m2 \<le> max kCheapPrepend (writerIndex m)"
    "LengthHeaderCodec_onMessage so m =
      rbind (LengthHeaderCodec_onMessage so m2) (\<lambda>(evs, m').
        Inr (Deliver (take n (drop 4 (Buffer_content m))) # evs, m'))"
proof -
  have four: "4 \<le> length (Buffer_content m)"
    using len(1) by simp
  obtain m1 where m1: "Buffer_retrieve 4 m = Inr m1" "Buffer_wf m1"
    "Buffer_content m1 = drop 4 (Buffer_content m)" "writerIndex m1 \<le> max kCheapPrepend (writerIndex m)"
    using Buffer_retrieve_ok [OF wf four] by blast
  have n1: "n \<le> length (Buffer_content m1)"
    using len(2) m1(3) by simp
  obtain m2 where m2: "Buffer_retrieve n m1 = Inr m2" "Buffer_wf m2"
    "Buffer_content m2 = drop n (Buffer_content m1)" "writerIndex m2 \<le> max kCheapPrepend (writerIndex m1)"
    using Buffer_retrieve_ok [OF m1(2) n1] by blast
  note * = onMessage_unfold [OF wf len n(2) Buffer_peekInt32_ok [OF wf four]
      n(1) [unfolded header_len_def] m1(1) m2(1) mem_read_peek [OF m1(2) n1]]
  have "Buffer_content m2 = drop (n + 4) (Buffer_content m)"
    using m2(3) m1(3) by simp
  moreover have "writerIndex m2 \<le> max kCheapPrepend (writerIndex m)"
    using m1(4) m2(4) by linarith
  ultimately show ?thesis
    using that [OF m2(2)] * m1(3) by simp
qed

text \<open>
  The refinement: on a well-formed buffer the loop does not fault, its events are those of
  \<open>decode\<close> on the readable bytes, and what \<open>decode\<close> leaves is what the buffer holds.
\<close>

lemma onMessage_decode:
  assumes "Buffer_wf m"
  shows "\<exists>m'. LengthHeaderCodec_onMessage so m = Inr (fst (decode so (Buffer_content m)), m')
    \<and> Buffer_wf m' \<and> Buffer_content m' = snd (decode so (Buffer_content m))
    \<and> writerIndex m' \<le> max kCheapPrepend (writerIndex m)"
  using assms
proof (induction "length (Buffer_content m)" arbitrary: m rule: less_induct)
  case less
  let ?bs = "Buffer_content m" let ?n = "header_len so ?bs"
  consider (short) "length ?bs \<le> 4" | (bad) "4 < length ?bs" "?n > 65536 \<or> ?n < 0"
    | (part) "4 < length ?bs" "0 \<le> ?n" "?n \<le> 65536" "length ?bs < nat ?n + 4"
    | (full) "4 < length ?bs" "0 \<le> ?n" "?n \<le> 65536" "nat ?n + 4 \<le> length ?bs"
    by (meson not_le)
  then show ?case
  proof cases
    case full
    define n where "n = nat ?n"
    have n: "?n = int n" "n \<le> 65536" "n + 4 \<le> length ?bs"
      using full unfolding n_def by simp_all
    obtain m2 where m2: "Buffer_wf m2" "Buffer_content m2 = drop (n + 4) ?bs"
      "writerIndex m2 \<le> max kCheapPrepend (writerIndex m)"
      "LengthHeaderCodec_onMessage so m = rbind (LengthHeaderCodec_onMessage so m2) (\<lambda>(evs, m').
        Inr (Deliver (take n (drop 4 ?bs)) # evs, m'))"
      using onMessage_full [OF less.prems full(1) n(3,1,2)] .
    have shorter: "length (Buffer_content m2) < length ?bs"
      unfolding m2(2) using full(1) by simp
    obtain m' where m': "LengthHeaderCodec_onMessage so m2 = Inr (fst (decode so (Buffer_content m2)), m')"
      "Buffer_wf m'" "Buffer_content m' = snd (decode so (Buffer_content m2))"
      "writerIndex m' \<le> max kCheapPrepend (writerIndex m2)"
      using less.hyps [OF shorter m2(1)] by blast
    have "writerIndex m' \<le> max kCheapPrepend (writerIndex m)"
      using m'(4) m2(3) by linarith
    then show ?thesis
      using m' unfolding m2(4) decode_full [OF full(1) n] m2(2) by simp
  qed (use less.prems in \<open>simp_all add: decode_stop onMessage_stop del: length_content\<close>)
qed

section \<open>Framing\<close>

text \<open>A message on the wire: its length as four bytes, most significant first, and its bytes.\<close>

definition frame :: "byte list \<Rightarrow> byte list" where
  "frame body = rev (obj32 (of_nat (length body))) @ body"

lemma length_frame [simp]: "length (frame body) = 4 + length body"
  by (simp add: frame_def)

lemma header_len_frame:
  assumes "socket_ops_ok so" "length body \<le> 65536"
  shows "header_len so (frame body @ tail) = int (length body)"
proof -
  let ?x = "of_nat (length body) :: int32"
  have "mem32 (frame body @ tail) = mem32 (obj32 (host_to_network_long so ?x) @ body @ tail)"
    using assms(1) by (simp add: frame_def)
  then have "header_len so (frame body @ tail) = sint ?x"
    using assms(1) by (simp add: header_len_def del: socket_ops_okD(3))
  also have "\<dots> = int (length body)"
    using assms(2) by (simp add: sint_of_nat32)
  finally show ?thesis .
qed

lemma decode_frame:
  assumes "socket_ops_ok so" "length body \<le> 65536" "body @ tail \<noteq> []"
  shows "decode so (frame body @ tail) =
    (Deliver body # fst (decode so tail), snd (decode so tail))"
proof -
  let ?bs = "frame body @ tail"
  have "4 < length ?bs" "length body + 4 \<le> length ?bs"
    using assms(3) by (cases body; cases tail; simp)+
  then show ?thesis
    using decode_full [OF _ header_len_frame [OF assms(1,2)] assms(2)]
    by (simp add: frame_def)
qed

text \<open>C13. The loop of \<open>onMessage\<close> inverts the framing: whatever follows in the buffer,
  the messages of 1 to \<open>kMaxMessageLen\<close> bytes in front of it are delivered complete, in
  order and once each; the events and the bytes after them are those of the rest alone. No
  assertion fails and the buffer stays well formed. (The frame of an empty message is not one of them:
  the loop waits for more than a header.)\<close>

theorem LengthHeaderCodec_delivers_frames:
  assumes "socket_ops_ok so" "Buffer_wf m"
    and "Buffer_content m = concat (map frame bodies) @ rest"
    and "\<forall>body\<in>set bodies. 0 < length body \<and> length body \<le> 65536"
  shows "\<exists>m'. LengthHeaderCodec_onMessage so m = Inr (map Deliver bodies @ fst (decode so rest), m')
    \<and> Buffer_wf m' \<and> Buffer_content m' = snd (decode so rest)"
proof -
  have "decode so (concat (map frame bodies) @ rest)
      = (map Deliver bodies @ fst (decode so rest), snd (decode so rest))"
    using assms(4) by (induction bodies) (auto simp: decode_frame [OF assms(1)])
  then show ?thesis
    using onMessage_decode [OF assms(2), of so] assms(3) by auto
qed

lemma LengthHeaderCodec_delivers_frames_witness:
  "\<exists>m'. LengthHeaderCodec_onMessage bswap_ops
      \<lparr>buffer = replicate 8 0 @ [0, 0, 0, 2, 65, 66, 0, 0, 0, 1, 67, 0, 0], readerIndex = 8, writerIndex = 21\<rparr>
      = Inr ([Deliver [65, 66], Deliver [67]], m')
    \<and> Buffer_wf m' \<and> Buffer_content m' = [0, 0]"
  using LengthHeaderCodec_delivers_frames [OF bswap_ops_ok, of
      "\<lparr>buffer = replicate 8 0 @ [0, 0, 0, 2, 65, 66, 0, 0, 0, 1, 67, 0, 0], readerIndex = 8, writerIndex = 21\<rparr>"
      "[[65, 66], [67]]" "[0, 0]"]
  by (simp add: Buffer_wf_def Buffer_consts Buffer_content_def segment_def frame_def obj32_def decode_stop)

text \<open>A length field that is negative or above \<open>kMaxMessageLen\<close> makes \<open>onMessage\<close>
  ask for the connection's shutdown, deliver nothing and leave the buffer as it is; an incomplete
  frame leaves it as it is too, without a shutdown.\<close>

lemma LengthHeaderCodec_rejects_bad_length:
  assumes "Buffer_wf m" "4 < length (Buffer_content m)"
  shows "(header_len so (Buffer_content m) < 0 \<or> 65536 < header_len so (Buffer_content m) \<longrightarrow>
      LengthHeaderCodec_onMessage so m = Inr ([Shutdown], m))
    \<and> (0 \<le> header_len so (Buffer_content m) \<and> header_len so (Buffer_content m) \<le> 65536
       \<and> length (Buffer_content m) < nat (header_len so (Buffer_content m)) + 4 \<longrightarrow>
      LengthHeaderCodec_onMessage so m = Inr ([], m))"
  using onMessage_stop(2,3) [OF assms] by blast

lemma LengthHeaderCodec_rejects_bad_length_witness:
  "LengthHeaderCodec_onMessage bswap_ops
      \<lparr>buffer = replicate 8 0 @ [255, 255, 255, 255, 1], readerIndex = 8, writerIndex = 13\<rparr>
    = Inr ([Shutdown], \<lparr>buffer = replicate 8 0 @ [255, 255, 255, 255, 1], readerIndex = 8, writerIndex = 13\<rparr>)"
proof -
  let ?m = "\<lparr>buffer = replicate 8 0 @ [255, 255, 255, 255, 1], readerIndex = 8, writerIndex = 13\<rparr>"
  have "Buffer_wf ?m" "4 < length (Buffer_content ?m)" "header_len bswap_ops (Buffer_content ?m) < 0"
    by (simp_all add: Buffer_wf_def Buffer_consts Buffer_content_def segment_def header_len_def
        bswap_ops_def mem32_def obj32_def)
  then show ?thesis
    using LengthHeaderCodec_rejects_bad_length [of ?m bswap_ops] by blast
qed

text \<open>A message of length zero, which \<open>kMinMessageLen\<close> admits, is not delivered
  when its four header bytes are all the buffer holds: the loop asks for more than
  \<open>kHeaderLen\<close> bytes, so the message waits for the first byte of the next one.\<close>

lemma LengthHeaderCodec_empty_message_stuck:
  assumes "socket_ops_ok so" "Buffer_wf m" "Buffer_content m = frame []"
  shows "LengthHeaderCodec_onMessage so m = Inr ([], m)
    \<and> header_len so (Buffer_content m) = 0
    \<and> fst (decode so (frame [] @ [c])) = [Deliver []]"
  using onMessage_stop(1) [OF assms(2)] assms(3) header_len_frame [OF assms(1), of "[]" "[]"]
    decode_frame [OF assms(1), of "[]" "[c]"]
  by (simp add: decode_stop)

lemma LengthHeaderCodec_empty_message_stuck_witness:
  "LengthHeaderCodec_onMessage bswap_ops
      \<lparr>buffer = [0, 0, 0, 0, 0, 0, 0, 0, 0, 0, 0, 0], readerIndex = 8, writerIndex = 12\<rparr>
    = Inr ([], \<lparr>buffer = [0, 0, 0, 0, 0, 0, 0, 0, 0, 0, 0, 0], readerIndex = 8, writerIndex = 12\<rparr>)"
  using LengthHeaderCodec_empty_message_stuck [OF bswap_ops_ok,
      of "\<lparr>buffer = [0, 0, 0, 0, 0, 0, 0, 0, 0, 0, 0, 0], readerIndex = 8, writerIndex = 12\<rparr>" 0]
  by (simp add: Buffer_wf_def Buffer_consts Buffer_content_def segment_def frame_def obj32_def)

section \<open>Streams cut into reads\<close>

text \<open>Decoding may stop anywhere: what is left is decoded with what comes after it.\<close>

lemma decode_append:
  assumes "Shutdown \<notin> set (fst (decode so xs))"
  shows "decode so (xs @ ys) =
    (fst (decode so xs) @ fst (decode so (snd (decode so xs) @ ys)),
     snd (decode so (snd (decode so xs) @ ys)))"
  using assms
proof (induction "length xs" arbitrary: xs rule: less_induct)
  case less
  let ?n = "header_len so xs"
  consider (short) "length xs \<le> 4" | (bad) "4 < length xs" "?n > 65536 \<or> ?n < 0"
    | (part) "4 < length xs" "0 \<le> ?n" "?n \<le> 65536" "length xs < nat ?n + 4"
    | (full) "4 < length xs" "0 \<le> ?n" "?n \<le> 65536" "nat ?n + 4 \<le> length xs"
    by (meson not_le)
  then show ?case
  proof cases
    case full
    define n where "n = nat ?n"
    have n: "?n = int n" "n \<le> 65536" "n + 4 \<le> length xs"
      using full unfolding n_def by simp_all
    have hd: "header_len so (xs @ ys) = int n"
      using n(1) full(1) by (simp add: header_len_def mem32_append)
    have d: "decode so xs = (Deliver (take n (drop 4 xs)) # fst (decode so (drop (n + 4) xs)),
        snd (decode so (drop (n + 4) xs)))"
      using decode_full [OF full(1) n] .
    have e: "decode so (xs @ ys) = (Deliver (take n (drop 4 xs)) # fst (decode so (drop (n + 4) xs @ ys)),
        snd (decode so (drop (n + 4) xs @ ys)))"
      using decode_full [OF _ hd n(2)] full(1) n(3) by simp
    have "Shutdown \<notin> set (fst (decode so (drop (n + 4) xs)))"
      using less.prems d by simp
    then show ?thesis
      using less.hyps [of "drop (n + 4) xs"] full(1) unfolding d e by simp
  qed (use less.prems in \<open>simp_all add: decode_stop\<close>)
qed

text \<open>A bad length stays one when more bytes arrive, and a decoded rest has nothing to decode.\<close>

lemma decode_shutdown_mono:
  "Shutdown \<in> set (fst (decode so xs)) \<Longrightarrow> Shutdown \<in> set (fst (decode so (xs @ ys)))"
proof (induction "length xs" arbitrary: xs rule: less_induct)
  case less
  let ?n = "header_len so xs"
  have hd: "4 < length xs \<Longrightarrow> header_len so (xs @ ys) = ?n"
    by (simp add: header_len_def mem32_append)
  consider (short) "length xs \<le> 4" | (bad) "4 < length xs" "?n > 65536 \<or> ?n < 0"
    | (part) "4 < length xs" "0 \<le> ?n" "?n \<le> 65536" "length xs < nat ?n + 4"
    | (full) "4 < length xs" "0 \<le> ?n" "?n \<le> 65536" "nat ?n + 4 \<le> length xs"
    by (meson not_le)
  then show ?case
  proof cases
    case full
    define n where "n = nat ?n"
    have n: "?n = int n" "n \<le> 65536" "n + 4 \<le> length xs"
      using full unfolding n_def by simp_all
    have "Shutdown \<in> set (fst (decode so (drop (n + 4) xs)))"
      using less.prems decode_full [OF full(1) n] by simp
    then have "Shutdown \<in> set (fst (decode so (drop (n + 4) xs @ ys)))"
      using less.hyps full(1) by simp
    moreover have "header_len so (xs @ ys) = int n"
      using hd full(1) n(1) by simp
    ultimately show ?thesis
      using decode_full [of "xs @ ys" so n] full(1) n(2,3) by simp
  qed (use less.prems hd in \<open>simp_all add: decode_stop\<close>)
qed

lemma decode_rest:
  assumes "Shutdown \<notin> set (fst (decode so xs))"
  shows "decode so (snd (decode so xs)) = ([], snd (decode so xs))"
  using decode_append [OF assms, of "[]"] by (simp add: prod_eq_iff)

text \<open>
  A connection's input: each read is appended to the buffer and \<open>onMessage\<close> runs after it.
\<close>

fun feed :: "socket_ops \<Rightarrow> byte list list \<Rightarrow> Buffer \<Rightarrow> (codec_event list \<times> Buffer) result" where
  "feed so [] m = Inr ([], m)"
| "feed so (chunk # chunks) m =
     rbind (Buffer_append chunk (length chunk) m) (\<lambda>m1.
     rbind (LengthHeaderCodec_onMessage so m1) (\<lambda>(evs, m2).
     rbind (feed so chunks m2) (\<lambda>(evs', m'). Inr (evs @ evs', m'))))"

lemma feed_step:
  assumes "Buffer_wf m" "max kCheapPrepend (writerIndex m) + length chunk \<le> vec_max_size"
  obtains m2 where "Buffer_wf m2"
    "feed so (chunk # chunks) m = rbind (feed so chunks m2) (\<lambda>(evs', m').
       Inr (fst (decode so (Buffer_content m @ chunk)) @ evs', m'))"
    "Buffer_content m2 = snd (decode so (Buffer_content m @ chunk))"
    "max kCheapPrepend (writerIndex m2) \<le> max kCheapPrepend (writerIndex m) + length chunk"
proof -
  have "Buffer_fits (length chunk) m"
    using assms(2) unfolding Buffer_fits_def by linarith
  then obtain m1 where m1: "Buffer_append chunk (length chunk) m = Inr m1" "Buffer_wf m1"
    "Buffer_content m1 = Buffer_content m @ chunk" "writerIndex m1 \<le> writerIndex m + length chunk"
    using Buffer_append_ok [OF assms(1) _ order_refl] by auto
  obtain m2 where m2: "LengthHeaderCodec_onMessage so m1 = Inr (fst (decode so (Buffer_content m1)), m2)"
    "Buffer_wf m2" "Buffer_content m2 = snd (decode so (Buffer_content m1))"
    "writerIndex m2 \<le> max kCheapPrepend (writerIndex m1)"
    using onMessage_decode [OF m1(2)] by blast
  have "max kCheapPrepend (writerIndex m2) \<le> max kCheapPrepend (writerIndex m) + length chunk"
    using m1(4) m2(4) by linarith
  then show ?thesis
    using that [OF m2(2)] m1(1) m2(1,3) unfolding m1(3) by simp
qed

text \<open>C7. It does not matter how the stream is cut into reads: appending the chunks
  one by one and running \<open>onMessage\<close> after each delivers the same messages in the same order,
  and leaves the same bytes, as decoding the whole stream at once (while no length field is
  invalid).\<close>

theorem LengthHeaderCodec_chunking:
  assumes "Buffer_wf m"
    and "Shutdown \<notin> set (fst (decode so (Buffer_content m @ concat chunks)))"
    and "max kCheapPrepend (writerIndex m) + length (concat chunks) \<le> vec_max_size"
    and "decode so (Buffer_content m) = ([], Buffer_content m)"
  shows "\<exists>m'. feed so chunks m = Inr (fst (decode so (Buffer_content m @ concat chunks)), m')
    \<and> Buffer_wf m' \<and> Buffer_content m' = snd (decode so (Buffer_content m @ concat chunks))"
  using assms
proof (induction chunks arbitrary: m)
  case Nil
  then show ?case by simp
next
  case (Cons chunk chunks)
  let ?xs = "Buffer_content m @ chunk" and ?ys = "concat chunks"
  obtain m2 where m2: "Buffer_wf m2"
    "feed so (chunk # chunks) m = rbind (feed so chunks m2) (\<lambda>(evs', m').
       Inr (fst (decode so ?xs) @ evs', m'))"
    "Buffer_content m2 = snd (decode so ?xs)"
    "max kCheapPrepend (writerIndex m2) \<le> max kCheapPrepend (writerIndex m) + length chunk"
    using feed_step [OF Cons.prems(1), of chunk so chunks] Cons.prems(3) by auto
  have ok: "Shutdown \<notin> set (fst (decode so ?xs))"
    using Cons.prems(2) decode_shutdown_mono [of so ?xs ?ys] by auto
  have room: "max kCheapPrepend (writerIndex m2) + length ?ys \<le> vec_max_size"
    using m2(4) Cons.prems(3) by (simp del: max.bounded_iff)
  note dec = decode_append [OF ok, of ?ys, folded m2(3)]
  obtain m' where "feed so chunks m2 = Inr (fst (decode so (Buffer_content m2 @ ?ys)), m')"
    "Buffer_wf m'" "Buffer_content m' = snd (decode so (Buffer_content m2 @ ?ys))"
    using Cons.IH [OF m2(1) _ room decode_rest [OF ok, folded m2(3)]] Cons.prems(2) dec by auto
  then show ?case
    using m2(2) dec by simp
qed

lemma LengthHeaderCodec_chunking_witness:
  "\<exists>m'. feed bswap_ops [[0, 0, 0], [2, 65], [66, 0]]
      \<lparr>buffer = [0, 0, 0, 0, 0, 0, 0, 0], readerIndex = 8, writerIndex = 8\<rparr> = Inr ([Deliver [65, 66]], m')
    \<and> Buffer_wf m' \<and> Buffer_content m' = [0]"
proof -
  have eq: "concat [[0, 0, 0], [2, 65], [66, 0 :: byte]] = frame [65, 66] @ [0]"
    by (simp add: frame_def obj32_def)
  have "decode bswap_ops (frame [65, 66] @ [0]) = ([Deliver [65, 66]], [0])"
    by (simp add: decode_frame [OF bswap_ops_ok] decode_stop)
  then show ?thesis
    using LengthHeaderCodec_chunking [of "\<lparr>buffer = [0, 0, 0, 0, 0, 0, 0, 0], readerIndex = 8, writerIndex = 8\<rparr>"
        bswap_ops "[[0, 0, 0], [2, 65], [66, 0]]"]
    unfolding eq by (simp add: Buffer_wf_def Buffer_consts Buffer_content_def decode_stop)
qed

end
