(* ===== verification/ProtobufCodec.thy ===== *)
theory ProtobufCodec
  imports Codec
begin

text \<open>
  \<open>ProtobufCodec.h\<close>, \<open>ProtobufCodec.cpp\<close>: frames of a length, a type name, a serialized
  message and an Adler-32 checksum. Protocol buffers and zlib are not part of the repository:
  the calls the code makes of them are the fields of the parameter \<open>protobuf\<close>. The loop of
  \<open>onMessage\<close> has iterations that consume nothing, so it is a partial function into
  \<open>option\<close>, where \<open>None\<close> is a call that never returns. The lemmas show the round trip of a
  message through \<open>send\<close> and \<open>onMessage\<close>, that \<open>parse\<close> reads only inside its frame, and
  exactly which inputs make the loop run forever.
\<close>

section \<open>The external calls\<close>

text \<open>
  \<open>adler32(start, data)\<close>; \<open>DescriptorPool::FindMessageTypeByName\<close> and
  \<open>MessageFactory::GetPrototype\<close>, which may return \<open>nullptr\<close>; \<open>Message::New\<close>,
  \<open>ParseFromArray\<close> (the message afterwards and the result, which the code ignores),
  \<open>GetTypeName\<close>, \<open>ByteSize\<close> and the bytes \<open>SerializeWithCachedSizesToArray\<close> writes.
\<close>

record ('d, 'm) protobuf =
  adler32 :: "nat \<Rightarrow> byte list \<Rightarrow> int32"
  find_message_type :: "byte list \<Rightarrow> 'd option"
  get_prototype :: "'d \<Rightarrow> 'm option"
  new_message :: "'m \<Rightarrow> 'm"
  parse_from_array :: "byte list \<Rightarrow> 'm \<Rightarrow> 'm \<times> bool"
  get_type_name :: "'m \<Rightarrow> byte list"
  byte_size :: "'m \<Rightarrow> int"
  serialize_to_array :: "'m \<Rightarrow> byte list"

section \<open>The codec\<close>

definition pbHeaderLen :: int where "pbHeaderLen = 4"
definition pbMinMessageLen :: int where "pbMinMessageLen = 2 * pbHeaderLen + 2"
definition pbMaxMessageLen :: int where "pbMaxMessageLen = 64 * 1024 * 1024"

lemmas pb_consts = pbHeaderLen_def pbMinMessageLen_def pbMaxMessageLen_def

definition ProtobufCodec_networkToHost32 :: "socket_ops \<Rightarrow> byte list \<Rightarrow> int32 result" where
  "ProtobufCodec_networkToHost32 so buf =
     rbind (mem_read 4 buf) (\<lambda>bs. Inr (network_to_host_long so (mem32 bs)))"

definition ProtobufCodec_createMessage :: "('d, 'm) protobuf \<Rightarrow> byte list \<Rightarrow> 'm option" where
  "ProtobufCodec_createMessage pb typeName =
     (case find_message_type pb typeName of
        None \<Rightarrow> None
      | Some descriptor \<Rightarrow>
          (case get_prototype pb descriptor of
             None \<Rightarrow> None
           | Some protoType \<Rightarrow> Some (new_message pb protoType)))"

definition ProtobufCodec_parse ::
    "socket_ops \<Rightarrow> ('d, 'm) protobuf \<Rightarrow> byte list \<Rightarrow> nat \<Rightarrow> 'm option result" where
  "ProtobufCodec_parse so pb data n =
     rbind (ProtobufCodec_networkToHost32 so (drop (szsub n 4) data)) (\<lambda>expectedCheckSum.
     rbind (mem_read (size_of_int (int_of_size (szsub n 4))) data) (\<lambda>covered.
     if adler32 pb 1 covered = expectedCheckSum then
       rbind (ProtobufCodec_networkToHost32 so data) (\<lambda>x.
       let nameLen = sint x in
       if nameLen \<ge> 2 \<and> size_of_int nameLen \<le> szsub n 8 then
         rbind (mem_read (nat (nameLen - 1)) (drop 4 data)) (\<lambda>typeName.
         case ProtobufCodec_createMessage pb typeName of
           None \<Rightarrow> Inr None
         | Some message \<Rightarrow>
             let dataLen = szsub (szsub n (size_of_int nameLen)) 8 in
             rbind (mem_read (size_of_int (int_of_size dataLen)) (drop (4 + nat nameLen) data)) (\<lambda>bytes.
             Inr (Some (fst (parse_from_array pb bytes message)))))
       else Inr None)
     else Inr None))"

datatype 'm pb_event = PbDeliver 'm | PbShutdown

partial_function (option) ProtobufCodec_onMessage ::
    "socket_ops \<Rightarrow> ('d, 'm) protobuf \<Rightarrow> Buffer \<Rightarrow> ('m pb_event list \<times> Buffer) result option" where
  "ProtobufCodec_onMessage so pb buf =
     (if Buffer_readableBytes buf \<ge> size_of_int (pbMinMessageLen + pbHeaderLen) then
        (case Buffer_peekInt32 so buf of
           Inl e \<Rightarrow> Some (Inl e)
         | Inr x \<Rightarrow>
             (if sint x > pbMaxMessageLen \<or> sint x < pbMinMessageLen then Some (Inr ([PbShutdown], buf))
              else if Buffer_readableBytes buf \<ge> size_of_int (sint x + pbHeaderLen) then
                (case ProtobufCodec_parse so pb (drop 4 (Buffer_peek buf)) (size_of_int (sint x)) of
                   Inl e \<Rightarrow> Some (Inl e)
                 | Inr None \<Rightarrow> ProtobufCodec_onMessage so pb buf
                 | Inr (Some message) \<Rightarrow>
                     (case Buffer_retrieve (size_of_int (sint x + pbHeaderLen)) buf of
                        Inl e \<Rightarrow> Some (Inl e)
                      | Inr buf1 \<Rightarrow>
                          Option.bind (ProtobufCodec_onMessage so pb buf1) (\<lambda>r.
                          Some (rbind r (\<lambda>(evs, buf'). Inr (PbDeliver message # evs, buf'))))))
              else ProtobufCodec_onMessage so pb buf))
      else Some (Inr ([], buf)))"

text \<open>
  \<open>send\<close> builds the frame in a local buffer and hands it to \<open>conn->send\<close>; the result is that
  buffer. \<open>typeName.c_str()\<close> points to the name and a null byte.
\<close>

definition ProtobufCodec_send :: "socket_ops \<Rightarrow> ('d, 'm) protobuf \<Rightarrow> 'm \<Rightarrow> Buffer result" where
  "ProtobufCodec_send so pb message =
     rbind (Buffer_new kInitialSize) (\<lambda>buff0.
     let typeName = get_type_name pb message;
         nameLen = int_of_size (length typeName + 1) in
     rbind (Buffer_appendInt32 so (word_of_int nameLen) buff0) (\<lambda>buff1.
     rbind (Buffer_append (typeName @ [0]) (size_of_int nameLen) buff1) (\<lambda>buff2.
     let byteSize = byte_size pb message in
     rbind (Buffer_ensureWritableBytes (size_of_int byteSize) buff2) (\<lambda>buff3.
     let bytes = serialize_to_array pb message in
     rbind (vec_store (writerIndex buff3) bytes (buffer buff3)) (\<lambda>v.
     if int (length bytes) \<noteq> byteSize then Inl LogFatal
     else
     rbind (Buffer_hasWritten (size_of_int byteSize) (buff3\<lparr>buffer := v\<rparr>)) (\<lambda>buff4.
     rbind (mem_read (size_of_int (int_of_size (Buffer_readableBytes buff4))) (Buffer_peek buff4)) (\<lambda>covered.
     let checkSum = adler32 pb 1 covered in
     rbind (Buffer_appendInt32 so checkSum buff4) (\<lambda>buff5.
     if Buffer_readableBytes buff5 \<noteq> szadd (szadd (szadd 4 (size_of_int nameLen)) (size_of_int byteSize)) 4
     then Inl AssertFailed
     else
     let n = host_to_network_long so (word_of_int (int_of_size (Buffer_readableBytes buff5))) in
     Buffer_prepend (obj32 n) 4 buff5))))))))"

section \<open>The frame format\<close>

text \<open>What a frame's body means: the specification of \<open>parse\<close> on exactly the body's bytes.\<close>

definition pb_decode :: "socket_ops \<Rightarrow> ('d, 'm) protobuf \<Rightarrow> byte list \<Rightarrow> 'm option" where
  "pb_decode so pb body =
     (let n = length body; k = header_len so body in
      if adler32 pb 1 (take (n - 4) body) = network_to_host_long so (mem32 (drop (n - 4) body))
         \<and> 2 \<le> k \<and> k \<le> int n - 8
      then (case ProtobufCodec_createMessage pb (take (nat k - 1) (drop 4 body)) of
              None \<Rightarrow> None
            | Some message \<Rightarrow>
                Some (fst (parse_from_array pb (take (n - nat k - 8) (drop (4 + nat k) body)) message)))
      else None)"

text \<open>\<open>parse\<close> reads no byte outside the \<open>n\<close> bytes of its frame, whatever they are.\<close>

lemma networkToHost32_ok:
  "4 \<le> length p \<Longrightarrow>
     ProtobufCodec_networkToHost32 so p = Inr (network_to_host_long so (mem32 p))"
  by (simp add: ProtobufCodec_networkToHost32_def)

lemma mem32_drop_take:
  assumes "k + 4 \<le> n"
  shows "mem32 (drop k (take n bs)) = mem32 (drop k bs)"
proof -
  have "take 4 (drop k (take n bs)) = take 4 (drop k bs)"
    using assms by (simp add: drop_take min_def)
  then show ?thesis
    using mem32_take [of "drop k bs"] mem32_take [of "drop k (take n bs)"] by simp
qed

lemma parse_decode:
  assumes "10 \<le> n" "n < 2 ^ 31" "n \<le> length data"
  shows "ProtobufCodec_parse so pb data n = Inr (pb_decode so pb (take n data))"
proof -
  let ?k = "header_len so data"
  have k: "header_len so (take n data) = ?k"
    using assms mem32_drop_take [of 0 n data] by (simp add: header_len_def)
  have sub: "szsub n 4 = n - 4" "szsub n 8 = n - 8"
    using assms by simp_all
  have check: "ProtobufCodec_networkToHost32 so (drop (n - 4) data)
      = Inr (network_to_host_long so (mem32 (drop (n - 4) (take n data))))"
    using assms by (simp add: networkToHost32_ok mem32_drop_take)
  have covered: "mem_read (size_of_int (int_of_size (n - 4))) data = Inr (take (n - 4) (take n data))"
    using assms by (simp add: min_def nat_diff_distrib)
  have name: "mem_read (nat (?k - 1)) (drop 4 data) = Inr (take (nat ?k - 1) (drop 4 (take n data)))"
    and bytes: "mem_read (size_of_int (int_of_size (szsub (szsub n (size_of_int ?k)) 8)))
        (drop (4 + nat ?k) data) = Inr (take (n - nat ?k - 8) (drop (4 + nat ?k) (take n data)))"
    if "2 \<le> ?k" "?k \<le> int n - 8"
    using that assms by (auto simp: mem_read_def drop_take min_def nat_diff_distrib nat_add_distrib)
  have cond: "2 \<le> ?k \<Longrightarrow> size_of_int ?k \<le> n - 8 \<longleftrightarrow> ?k \<le> int n - 8"
    using assms sint_less [of "network_to_host_long so (mem32 data)"]
    by (auto simp: header_len_def nat_le_iff)
  have len: "length (take n data) = n"
    using assms by simp
  show ?thesis
    unfolding ProtobufCodec_parse_def sub check covered pb_decode_def Let_def k len
    using networkToHost32_ok [of data so] assms name bytes cond
    by (auto simp: header_len_def [symmetric] split: option.splits)
qed

text \<open>The bytes \<open>send\<close> is to put on the wire for a message.\<close>

definition pb_named :: "('d, 'm) protobuf \<Rightarrow> 'm \<Rightarrow> byte list" where
  "pb_named pb m = rev (obj32 (of_nat (length (get_type_name pb m) + 1)))
     @ get_type_name pb m @ [0] @ serialize_to_array pb m"

definition pb_body :: "('d, 'm) protobuf \<Rightarrow> 'm \<Rightarrow> byte list" where
  "pb_body pb m = pb_named pb m @ rev (obj32 (adler32 pb 1 (pb_named pb m)))"

definition pb_frame :: "('d, 'm) protobuf \<Rightarrow> 'm \<Rightarrow> byte list" where
  "pb_frame pb m = rev (obj32 (of_nat (length (pb_body pb m)))) @ pb_body pb m"

text \<open>
  What the code relies on for a message: its type has a name and is registered, with a
  prototype; \<open>ByteSize\<close> is the number of bytes serialization writes; parsing these bytes into a
  new message of the type gives an equal message; and the body is no longer than
  \<open>kMaxMessageLen\<close>.
\<close>

definition pb_message_ok :: "('d, 'm) protobuf \<Rightarrow> 'm \<Rightarrow> bool" where
  "pb_message_ok pb m \<longleftrightarrow>
     0 < length (get_type_name pb m) \<and>
     byte_size pb m = int (length (serialize_to_array pb m)) \<and>
     (\<exists>d p. find_message_type pb (get_type_name pb m) = Some d \<and> get_prototype pb d = Some p \<and>
            fst (parse_from_array pb (serialize_to_array pb m) (new_message pb p)) = m) \<and>
     int (length (pb_body pb m)) \<le> pbMaxMessageLen"

lemma length_pb [simp]:
  "length (pb_named pb m) = 5 + length (get_type_name pb m) + length (serialize_to_array pb m)"
  "length (pb_body pb m) = 9 + length (get_type_name pb m) + length (serialize_to_array pb m)"
  "length (pb_frame pb m) = 13 + length (get_type_name pb m) + length (serialize_to_array pb m)"
  by (simp_all add: pb_named_def pb_body_def pb_frame_def)

text \<open>A big-endian field at the front of a byte string reads back as its value.\<close>

lemma header_len_be32:
  assumes "socket_ops_ok so" "n < 2 ^ 31"
  shows "header_len so (rev (obj32 (of_nat n)) @ ys) = int n"
proof -
  have "rev (obj32 (of_nat n)) @ ys = obj32 (host_to_network_long so (of_nat n)) @ ys"
    using assms(1) by simp
  then have "header_len so (rev (obj32 (of_nat n)) @ ys) = sint (of_nat n :: int32)"
    using assms(1) by (simp add: header_len_def del: socket_ops_okD(3))
  then show ?thesis
    using assms(2) by (simp add: sint_of_nat32)
qed

lemma be32_read:
  assumes "socket_ops_ok so"
  shows "network_to_host_long so (mem32 (rev (obj32 x))) = x"
  using assms mem32_obj32 [of "host_to_network_long so x"] by simp

lemma pb_decode_body:
  assumes "socket_ops_ok so" "pb_message_ok pb m"
  shows "pb_decode so pb (pb_body pb m) = Some m"
proof -
  let ?name = "get_type_name pb m" and ?data = "serialize_to_array pb m" and ?body = "pb_body pb m"
  obtain d p where dp: "find_message_type pb ?name = Some d" "get_prototype pb d = Some p"
    "fst (parse_from_array pb ?data (new_message pb p)) = m"
    using assms(2) by (auto simp: pb_message_ok_def)
  have small: "length ?name + 1 < 2 ^ 31" "0 < length ?name"
    using assms(2) by (auto simp: pb_message_ok_def pb_consts)
  have k: "header_len so ?body = int (length ?name + 1)"
    using header_len_be32 [OF assms(1) small(1)] by (simp add: pb_body_def pb_named_def)
  have n: "length ?body - 4 = length (pb_named pb m)"
    by simp
  have "take (length ?body - 4) ?body = pb_named pb m"
    unfolding n by (simp add: pb_body_def)
  moreover have "drop (length ?body - 4) ?body = rev (obj32 (adler32 pb 1 (pb_named pb m)))"
    unfolding n by (simp add: pb_body_def del: length_pb)
  moreover have "take (length ?name) (drop 4 ?body) = ?name"
    and "take (length ?data) (drop (4 + (length ?name + 1)) ?body) = ?data"
    by (simp_all add: pb_body_def pb_named_def)
  moreover have "length ?body - (length ?name + 1) - 8 = length ?data"
    by simp
  ultimately show ?thesis
    using small dp unfolding pb_decode_def Let_def k
    by (simp add: be32_read [OF assms(1)] ProtobufCodec_createMessage_def del: length_pb)
       (simp add: nat_add_distrib Suc_le_eq)
qed

section \<open>Sending\<close>

text \<open>Appends to a buffer far from the vector's greatest size, with the reserve in front kept.\<close>

lemma Buffer_fits_small: "writerIndex b + n \<le> 2 ^ 62 \<Longrightarrow> Buffer_fits n b"
  by (simp add: Buffer_fits_def Buffer_consts)

lemma Buffer_append_small:
  assumes "Buffer_wf b" "8 \<le> readerIndex b" "writerIndex b + length data \<le> 2 ^ 62"
  obtains b' where "Buffer_append data (length data) b = Inr b'" "Buffer_wf b'"
    "Buffer_content b' = Buffer_content b @ data" "8 \<le> readerIndex b'"
    "writerIndex b' \<le> writerIndex b + length data"
proof -
  obtain b' where b': "Buffer_append data (length data) b = Inr b'" "Buffer_wf b'"
    "Buffer_content b' = Buffer_content b @ take (length data) data"
    "writerIndex b' \<le> writerIndex b + length data" "min kCheapPrepend (readerIndex b) \<le> readerIndex b'"
    using Buffer_append_ok [OF assms(1) Buffer_fits_small [OF assms(3)] order_refl] by blast
  then have "8 \<le> readerIndex b'"
    using assms(2) by (simp add: Buffer_consts)
  then show ?thesis
    using that [OF b'(1,2) _ _ b'(4)] b'(3) by simp
qed

lemma Buffer_appendInt32_small:
  assumes "socket_ops_ok so" "Buffer_wf b" "8 \<le> readerIndex b" "writerIndex b + 4 \<le> 2 ^ 62"
  obtains b' where "Buffer_appendInt32 so x b = Inr b'" "Buffer_wf b'"
    "Buffer_content b' = Buffer_content b @ rev (obj32 x)" "8 \<le> readerIndex b'"
    "writerIndex b' \<le> writerIndex b + 4"
  using Buffer_append_small [OF assms(2,3), of "obj32 (host_to_network_long so x)"] assms(1,4)
  unfolding Buffer_appendInt32_def by auto

text \<open>Serializing into the ensured space and \<open>hasWritten\<close> append the written bytes.\<close>

lemma Buffer_written_small:
  assumes "Buffer_wf b" "8 \<le> readerIndex b" "writerIndex b + length bytes \<le> 2 ^ 62"
  obtains c v b' where "Buffer_ensureWritableBytes (length bytes) b = Inr c"
    "vec_store (writerIndex c) bytes (buffer c) = Inr v"
    "Buffer_hasWritten (length bytes) (c\<lparr>buffer := v\<rparr>) = Inr b'" "Buffer_wf b'"
    "Buffer_content b' = Buffer_content b @ bytes" "8 \<le> readerIndex b'"
    "writerIndex b' \<le> writerIndex b + length bytes"
proof -
  obtain c where c: "Buffer_ensureWritableBytes (length bytes) b = Inr c" "Buffer_wf c"
    "Buffer_content c = Buffer_content b" "writerIndex c + length bytes \<le> length (buffer c)"
    "writerIndex c \<le> writerIndex b" "min kCheapPrepend (readerIndex b) \<le> readerIndex c"
    using Buffer_ensureWritableBytes_ok [OF assms(1) Buffer_fits_small [OF assms(3)]] by blast
  let ?v = "overwrite (writerIndex c) bytes (buffer c)"
  let ?b = "c\<lparr>buffer := ?v, writerIndex := writerIndex c + length bytes\<rparr>"
  have store: "vec_store (writerIndex c) bytes (buffer c) = Inr ?v"
    using c(4) by simp
  note put = Buffer_append_in_place [OF c(2,4) order_refl, unfolded take_all [OF order_refl]]
  have "Buffer_ensureWritableBytes (length bytes) c = Inr c"
    using c(2,4) by (rule Buffer_ensureWritableBytes_id)
  then have "Buffer_hasWritten (length bytes) (c\<lparr>buffer := ?v\<rparr>) = Inr ?b"
    using put(1) store by (simp add: Buffer_append_def)
  moreover have "8 \<le> readerIndex ?b"
    using c(6) assms(2) by (simp add: Buffer_consts)
  ultimately show ?thesis
    using that [OF c(1) store _ put(2)] put(3) c(3,5) by simp
qed

lemma pb_bounds:
  assumes "pb_message_ok pb m"
  shows "length (get_type_name pb m) \<le> 67108864" "length (serialize_to_array pb m) \<le> 67108864"
  using assms by (auto simp: pb_message_ok_def pb_consts)

lemma send_ok:
  assumes "socket_ops_ok so" "pb_message_ok pb m"
  obtains b where "ProtobufCodec_send so pb m = Inr b" "Buffer_wf b" "Buffer_content b = pb_frame pb m"
proof -
  let ?name = "get_type_name pb m" and ?data = "serialize_to_array pb m"
  note small = pb_bounds [OF assms(2)]
  have bs: "byte_size pb m = int (length ?data)"
    using assms(2) by (simp add: pb_message_ok_def)
  have nl: "int_of_size (length ?name + 1) = int (length ?name + 1)"
    "size_of_int (int (length ?name + 1)) = length (?name @ [0])"
    using small by simp_all
  have dl: "size_of_int (int (length ?data)) = length ?data"
    using small by simp
  have len: "5 + length ?name + length ?data \<le> 2 ^ 28"
    using small by simp
  have "kInitialSize + kCheapPrepend \<le> vec_max_size"
    by (simp add: Buffer_consts)
  then obtain b0 where b0: "Buffer_new kInitialSize = Inr b0" "Buffer_wf b0" "Buffer_content b0 = []"
    "readerIndex b0 = kCheapPrepend" "writerIndex b0 = kCheapPrepend"
    using Buffer_new_ok by blast
  have front0: "8 \<le> readerIndex b0" and r0: "writerIndex b0 + 4 \<le> 2 ^ 62" and w0: "writerIndex b0 = 8"
    using b0(4,5) by (simp_all add: kCheapPrepend_def)
  obtain b1 where b1: "Buffer_appendInt32 so (of_nat (length ?name + 1)) b0 = Inr b1" "Buffer_wf b1"
    "Buffer_content b1 = Buffer_content b0 @ rev (obj32 (of_nat (length ?name + 1)))" "8 \<le> readerIndex b1"
    "writerIndex b1 \<le> writerIndex b0 + 4"
    using Buffer_appendInt32_small [OF assms(1) b0(2) front0 r0] by blast
  have r1: "writerIndex b1 + length (?name @ [0]) \<le> 2 ^ 62"
    using b1(5) w0 len by simp
  obtain b2 where b2: "Buffer_append (?name @ [0]) (length (?name @ [0])) b1 = Inr b2" "Buffer_wf b2"
    "Buffer_content b2 = Buffer_content b1 @ ?name @ [0]" "8 \<le> readerIndex b2"
    "writerIndex b2 \<le> writerIndex b1 + length (?name @ [0])"
    using Buffer_append_small [OF b1(2,4) r1] by blast
  have r2: "writerIndex b2 + length ?data \<le> 2 ^ 62"
    using b2(5) b1(5) w0 len by simp
  obtain b3 v b4 where b34: "Buffer_ensureWritableBytes (length ?data) b2 = Inr b3"
    "vec_store (writerIndex b3) ?data (buffer b3) = Inr v"
    "Buffer_hasWritten (length ?data) (b3\<lparr>buffer := v\<rparr>) = Inr b4" "Buffer_wf b4"
    "Buffer_content b4 = Buffer_content b2 @ ?data" "8 \<le> readerIndex b4"
    "writerIndex b4 \<le> writerIndex b2 + length ?data"
    using Buffer_written_small [OF b2(2,4) r2] by blast
  have named: "Buffer_content b4 = pb_named pb m"
    using b34(5) b2(3) b1(3) b0(3) by (simp add: pb_named_def)
  have n4: "Buffer_readableBytes b4 = length (pb_named pb m)"
    using readable_content [OF b34(4)] named by simp
  have "length (pb_named pb m) < 2 ^ 31"
    using len by simp
  then have covered: "mem_read (size_of_int (int_of_size (Buffer_readableBytes b4))) (Buffer_peek b4)
      = Inr (pb_named pb m)"
    unfolding n4 size_of_int_of_size
    using mem_read_peek [OF b34(4), of "length (pb_named pb m)"] named by (simp del: length_pb length_content)
  have r4: "writerIndex b4 + 4 \<le> 2 ^ 62"
    using b34(7) b2(5) b1(5) w0 len by simp
  obtain b5 where b5: "Buffer_appendInt32 so (adler32 pb 1 (pb_named pb m)) b4 = Inr b5" "Buffer_wf b5"
    "Buffer_content b5 = Buffer_content b4 @ rev (obj32 (adler32 pb 1 (pb_named pb m)))" "8 \<le> readerIndex b5"
    using Buffer_appendInt32_small [OF assms(1) b34(4,6) r4] by blast
  have body: "Buffer_content b5 = pb_body pb m"
    using b5(3) named by (simp add: pb_body_def)
  have n5: "Buffer_readableBytes b5 = length (pb_body pb m)"
    using readable_content [OF b5(2)] body by simp
  have assertion: "Buffer_readableBytes b5 =
      szadd (szadd (szadd 4 (length (?name @ [0]))) (length ?data)) 4"
    unfolding n5 using len by simp
  have front: "4 \<le> readerIndex b5"
    using b5(4) by simp
  obtain b6 where b6: "Buffer_prependInt32 so (of_nat (length (pb_body pb m))) b5 = Inr b6" "Buffer_wf b6"
    "Buffer_content b6 = obj32 (host_to_network_long so (of_nat (length (pb_body pb m)))) @ Buffer_content b5"
    using Buffer_prependInt32_ok [OF b5(2) front] by blast
  have n5': "int_of_size (Buffer_readableBytes b5) = int (length (pb_body pb m))"
    unfolding n5 using len by simp
  have frame: "Buffer_content b6 = pb_frame pb m"
    using b6(3) body assms(1) by (simp add: pb_frame_def)
  have "ProtobufCodec_send so pb m = Inr b6"
    by (simp only: ProtobufCodec_send_def Let_def rbind_simps nl bs of_int_of_nat_eq b0(1) b1(1) b2(1)
        dl b34(1-3) covered b5(1) assertion [symmetric] n5' b6(1) [unfolded Buffer_prependInt32_def]
        simp_thms if_False)
  then show ?thesis
    using that [OF _ b6(2) frame] by blast
qed

section \<open>The receiving loop\<close>

text \<open>
  The header of a frame and the result of \<open>parse\<close> on it, for a buffer that holds all of it:
  what one iteration of the loop looks at.
\<close>

lemma pb_header:
  assumes wf: "Buffer_wf b" and n: "header_len so (Buffer_content b) = int n"
    and hi: "n \<le> 67108864" and all: "4 \<le> length (Buffer_content b)"
  shows "Buffer_peekInt32 so b = Inr (network_to_host_long so (mem32 (Buffer_content b)))"
    and "sint (network_to_host_long so (mem32 (Buffer_content b))) = int n"
    and "size_of_int (int n + 4) = n + 4" and "size_of_int (int n) = n"
  using Buffer_peekInt32_ok [OF wf all] n hi by (simp_all add: header_len_def nat_add_distrib)

lemma pb_parse:
  assumes wf: "Buffer_wf b" and lo: "10 \<le> n" and hi: "n \<le> 67108864"
    and all: "n + 4 \<le> length (Buffer_content b)"
  shows "ProtobufCodec_parse so pb (drop 4 (Buffer_peek b)) n
      = Inr (pb_decode so pb (take n (drop 4 (Buffer_content b))))"
proof -
  have "take n (drop 4 (Buffer_peek b)) = drop 4 (take (n + 4) (Buffer_peek b))"
    by (simp add: take_drop add.commute)
  also have "\<dots> = drop 4 (take (n + 4) (Buffer_content b))"
    using take_peek [OF wf] all wf by simp
  finally have peek: "take n (drop 4 (Buffer_peek b)) = take n (drop 4 (Buffer_content b))"
    by (simp add: take_drop add.commute)
  have long: "n \<le> length (drop 4 (Buffer_peek b))" and lt: "n < 2 ^ 31"
    using all wf Buffer_wfD [OF wf] hi by simp_all
  show ?thesis
    unfolding parse_decode [OF lo lt long] peek ..
qed

text \<open>A complete frame whose body decodes is delivered and removed.\<close>

lemma pb_onMessage_deliver:
  assumes wf: "Buffer_wf b" and n: "header_len so (Buffer_content b) = int n"
    and lo: "10 \<le> n" and hi: "n \<le> 67108864" and all: "n + 4 \<le> length (Buffer_content b)"
    and m: "pb_decode so pb (take n (drop 4 (Buffer_content b))) = Some m"
  obtains b' where "Buffer_retrieve (n + 4) b = Inr b'" "Buffer_wf b'"
    "Buffer_content b' = drop (n + 4) (Buffer_content b)"
    "ProtobufCodec_onMessage so pb b = Option.bind (ProtobufCodec_onMessage so pb b') (\<lambda>r.
       Some (rbind r (\<lambda>(evs, buf'). Inr (PbDeliver m # evs, buf'))))"
proof -
  have four: "4 \<le> length (Buffer_content b)"
    using all by linarith
  obtain b' where b': "Buffer_retrieve (n + 4) b = Inr b'" "Buffer_wf b'"
    "Buffer_content b' = drop (n + 4) (Buffer_content b)"
    using Buffer_retrieve_ok [OF wf all] by blast
  have "ProtobufCodec_onMessage so pb b = Option.bind (ProtobufCodec_onMessage so pb b') (\<lambda>r.
       Some (rbind r (\<lambda>(evs, buf'). Inr (PbDeliver m # evs, buf'))))"
    by (subst ProtobufCodec_onMessage.simps)
       (use lo hi all in \<open>simp add: pb_header [OF wf n hi four] pb_parse [OF wf lo hi all] m b'(1) pb_consts
         readable_content [OF wf] del: length_content Buffer_sizes\<close>)
  then show ?thesis
    using that [OF b'] by blast
qed

lemma pb_onMessage_frame:
  assumes so: "socket_ops_ok so" and m: "pb_message_ok pb m" and wf: "Buffer_wf b"
    and content: "Buffer_content b = pb_frame pb m @ rest"
  obtains b' where "Buffer_wf b'" "Buffer_content b' = rest"
    "ProtobufCodec_onMessage so pb b = Option.bind (ProtobufCodec_onMessage so pb b') (\<lambda>r.
       Some (rbind r (\<lambda>(evs, buf'). Inr (PbDeliver m # evs, buf'))))"
proof -
  let ?n = "length (pb_body pb m)"
  have lo: "10 \<le> ?n" and hi: "?n \<le> 67108864"
    using m by (auto simp: pb_message_ok_def pb_consts Suc_le_eq)
  have hd: "header_len so (Buffer_content b) = int ?n"
    using header_len_be32 [OF so, of ?n "pb_body pb m @ rest"] hi by (simp add: content pb_frame_def)
  have all: "?n + 4 \<le> length (Buffer_content b)"
    by (simp add: content)
  have "take ?n (drop 4 (Buffer_content b)) = pb_body pb m"
    by (simp add: content pb_frame_def del: length_pb)
  then have dec: "pb_decode so pb (take ?n (drop 4 (Buffer_content b))) = Some m"
    using pb_decode_body [OF so m] by simp
  obtain b' where b': "Buffer_wf b'" "Buffer_content b' = drop (?n + 4) (Buffer_content b)"
    "ProtobufCodec_onMessage so pb b = Option.bind (ProtobufCodec_onMessage so pb b') (\<lambda>r.
       Some (rbind r (\<lambda>(evs, buf'). Inr (PbDeliver m # evs, buf'))))"
    using pb_onMessage_deliver [OF wf hd lo hi all dec] by blast
  have "Buffer_content b' = rest"
    using b'(2) by (simp add: content)
  then show ?thesis
    using that b'(1,3) by blast
qed

text \<open>With fewer bytes than the smallest frame has, the loop stops.\<close>

lemma pb_onMessage_short:
  "Buffer_wf b \<Longrightarrow> length (Buffer_content b) < 14 \<Longrightarrow> ProtobufCodec_onMessage so pb b = Some (Inr ([], b))"
  by (subst ProtobufCodec_onMessage.simps) (simp add: pb_consts)

text \<open>C8. What \<open>send\<close> hands to the connection for a message is one frame, and
  \<open>onMessage\<close> on a buffer that holds it delivers an equal message, once, and consumes
  exactly the frame.\<close>

theorem ProtobufCodec_send_onMessage:
  assumes "socket_ops_ok so" "pb_message_ok pb m"
  shows "\<exists>b b'. ProtobufCodec_send so pb m = Inr b \<and> Buffer_content b = pb_frame pb m
    \<and> ProtobufCodec_onMessage so pb b = Some (Inr ([PbDeliver m], b'))
    \<and> Buffer_wf b' \<and> Buffer_content b' = []"
proof -
  obtain b where b: "ProtobufCodec_send so pb m = Inr b" "Buffer_wf b" "Buffer_content b = pb_frame pb m"
    using send_ok [OF assms] .
  obtain b' where b': "Buffer_wf b'" "Buffer_content b' = []"
    "ProtobufCodec_onMessage so pb b = Option.bind (ProtobufCodec_onMessage so pb b') (\<lambda>r.
       Some (rbind r (\<lambda>(evs, buf'). Inr (PbDeliver m # evs, buf'))))"
    using pb_onMessage_frame [OF assms b(2), of "[]"] b(3) by auto
  have "ProtobufCodec_onMessage so pb b' = Some (Inr ([], b'))"
    using b'(1,2) by (intro pb_onMessage_short) simp_all
  then show ?thesis
    using b b' by simp
qed

text \<open>A buffer of complete frames followed by fewer than 14 bytes is drained by one
  call of \<open>onMessage\<close>: it returns, every message is delivered in order, and the bytes behind
  the frames stay.\<close>

lemma ProtobufCodec_delivers_frames:
  assumes "socket_ops_ok so" "Buffer_wf b" "list_all (pb_message_ok pb) ms"
    and "Buffer_content b = concat (map (pb_frame pb) ms) @ rest" "length rest < 14"
  shows "\<exists>b'. ProtobufCodec_onMessage so pb b = Some (Inr (map PbDeliver ms, b'))
    \<and> Buffer_wf b' \<and> Buffer_content b' = rest"
  using assms(2-4)
proof (induction ms arbitrary: b)
  case Nil
  then have "length (Buffer_content b) < 14"
    using assms(5) by (simp del: length_content)
  then show ?case
    using Nil.prems
    by (intro exI [of _ b]) (simp add: pb_onMessage_short [OF Nil.prems(1)] del: length_content)
next
  case (Cons m ms)
  obtain b1 where b1: "Buffer_wf b1" "Buffer_content b1 = concat (map (pb_frame pb) ms) @ rest"
    "ProtobufCodec_onMessage so pb b = Option.bind (ProtobufCodec_onMessage so pb b1) (\<lambda>r.
       Some (rbind r (\<lambda>(evs, buf'). Inr (PbDeliver m # evs, buf'))))"
    using pb_onMessage_frame [OF assms(1) _ Cons.prems(1), of pb m "concat (map (pb_frame pb) ms) @ rest"]
      Cons.prems(2,3) by auto
  then obtain b' where "ProtobufCodec_onMessage so pb b1 = Some (Inr (map PbDeliver ms, b'))"
    "Buffer_wf b'" "Buffer_content b' = rest"
    using Cons.IH [OF b1(1) _ b1(2)] Cons.prems(2) by auto
  then show ?case
    using b1(3) by simp
qed

section \<open>When the loop runs forever\<close>

text \<open>
  An iteration that finds an incomplete frame, or a complete one that \<open>parse\<close> rejects,
  changes nothing and starts over. On the bytes of the buffer:
\<close>

function pb_hangs :: "socket_ops \<Rightarrow> ('d, 'm) protobuf \<Rightarrow> byte list \<Rightarrow> bool" where
  "pb_hangs so pb bs =
     (let n = header_len so bs in
      if length bs < 14 \<or> n < 10 \<or> 67108864 < n then False
      else if length bs < nat n + 4 then True
      else (case pb_decode so pb (take (nat n) (drop 4 bs)) of
              None \<Rightarrow> True
            | Some m \<Rightarrow> pb_hangs so pb (drop (nat n + 4) bs)))"
  by pat_completeness auto
termination
  by (relation "measure (\<lambda>(so, pb, bs). length bs)") auto

declare pb_hangs.simps [simp del]

lemma pb_onMessage_hangs:
  assumes "Buffer_wf b" "pb_hangs so pb (Buffer_content b)"
  shows "ProtobufCodec_onMessage so pb b = None"
proof (rule ccontr)
  assume "ProtobufCodec_onMessage so pb b \<noteq> None"
  then obtain r where ret: "ProtobufCodec_onMessage so pb b = Some r"
    by auto
  have "\<not> (Buffer_wf b \<and> pb_hangs so pb (Buffer_content b))"
  proof (rule ProtobufCodec_onMessage.raw_induct
      [where P = "\<lambda>so pb b r. \<not> (Buffer_wf b \<and> pb_hangs so pb (Buffer_content b))", OF _ ret], rule notI)
    fix f so and pb :: "('a, 'b) protobuf" and b r
    let ?bs = "Buffer_content b"
    assume IH: "\<And>so pb b r. f so pb b = Some r \<Longrightarrow> \<not> (Buffer_wf b \<and> pb_hangs so pb (Buffer_content b))"
      and body: "(if size_of_int (pbMinMessageLen + pbHeaderLen) \<le> Buffer_readableBytes b
        then case Buffer_peekInt32 so b of Inl e \<Rightarrow> Some (Inl e)
          | Inr x \<Rightarrow> if pbMaxMessageLen < sint x \<or> sint x < pbMinMessageLen then Some (Inr ([PbShutdown], b))
            else if size_of_int (sint x + pbHeaderLen) \<le> Buffer_readableBytes b
            then case ProtobufCodec_parse so pb (drop 4 (Buffer_peek b)) (size_of_int (sint x)) of
                Inl e \<Rightarrow> Some (Inl e) | Inr None \<Rightarrow> f so pb b
              | Inr (Some message) \<Rightarrow> (case Buffer_retrieve (size_of_int (sint x + pbHeaderLen)) b of
                  Inl e \<Rightarrow> Some (Inl e)
                | Inr buf1 \<Rightarrow> Option.bind (f so pb buf1)
                    (\<lambda>r. Some (rbind r (\<lambda>(evs, buf'). Inr (PbDeliver message # evs, buf')))))
            else f so pb b
        else Some (Inr ([], b))) = Some r"
      and h: "Buffer_wf b \<and> pb_hangs so pb ?bs"
    define n where "n = nat (header_len so ?bs)"
    have wf: "Buffer_wf b" and long: "14 \<le> length ?bs" and n: "header_len so ?bs = int n" "10 \<le> n" "n \<le> 67108864"
      using h unfolding n_def by (auto simp: pb_hangs.simps [of so pb ?bs] Let_def split: if_splits)
    have four: "4 \<le> length ?bs"
      using long by linarith
    note hd = pb_header [OF wf n(1,3) four] readable_content [OF wf]
    show False
    proof (cases "length ?bs < n + 4")
      case True
      then have "f so pb b = Some r"
        using body long n(2,3) by (simp add: hd pb_consts del: length_content Buffer_sizes)
      then show False
        using IH h by blast
    next
      case False
      then have all: "n + 4 \<le> length ?bs"
        by linarith
      note parse = pb_parse [OF wf n(2,3) all, of so pb]
      show False
      proof (cases "pb_decode so pb (take n (drop 4 ?bs))")
        case None
        then have "f so pb b = Some r"
          using body long n(2,3) False by (simp add: hd parse pb_consts del: length_content Buffer_sizes)
        then show False
          using IH h by blast
      next
        case (Some m)
        obtain b1 where b1: "Buffer_retrieve (n + 4) b = Inr b1" "Buffer_wf b1"
          "Buffer_content b1 = drop (n + 4) ?bs"
          using Buffer_retrieve_ok [OF wf all] by blast
        have "pb_hangs so pb (Buffer_content b1)"
          using h Some False n(2,3) long unfolding b1(3) pb_hangs.simps [of so pb ?bs] Let_def n(1)
          by (simp add: add.commute del: length_content split: if_splits)
        moreover obtain r1 where "f so pb b1 = Some r1"
          using body long n(2,3) False Some b1(1)
          by (auto simp: hd parse pb_consts bind_eq_Some_conv simp del: length_content Buffer_sizes)
        ultimately show False
          using IH b1(2) by blast
      qed
    qed
  qed
  then show False
    using assms by blast
qed

lemma pb_onMessage_shutdown:
  assumes "Buffer_wf b" "14 \<le> length (Buffer_content b)"
    and "header_len so (Buffer_content b) < 10 \<or> 67108864 < header_len so (Buffer_content b)"
  shows "ProtobufCodec_onMessage so pb b = Some (Inr ([PbShutdown], b))"
proof -
  have "4 \<le> length (Buffer_content b)"
    using assms(2) by linarith
  then show ?thesis
    using assms by (subst ProtobufCodec_onMessage.simps)
      (auto simp: Buffer_peekInt32_ok header_len_def pb_consts)
qed

lemma pb_onMessage_returns:
  assumes "Buffer_wf b" "\<not> pb_hangs so pb (Buffer_content b)"
  shows "\<exists>evs b'. ProtobufCodec_onMessage so pb b = Some (Inr (evs, b')) \<and> Buffer_wf b'"
  using assms
proof (induction "length (Buffer_content b)" arbitrary: b rule: less_induct)
  case less
  let ?bs = "Buffer_content b" let ?n = "header_len so ?bs"
  consider (short) "length ?bs < 14" | (bad) "14 \<le> length ?bs" "?n < 10 \<or> 67108864 < ?n"
    | (good) "14 \<le> length ?bs" "10 \<le> ?n" "?n \<le> 67108864"
    by linarith
  then show ?case
  proof cases
    case good
    define n where "n = nat ?n"
    have n: "?n = int n" "10 \<le> n" "n \<le> 67108864"
      using good unfolding n_def by simp_all
    have ends: "\<not> (length ?bs < n + 4)"
      "\<not> (case pb_decode so pb (take n (drop 4 ?bs)) of None \<Rightarrow> True
        | Some m \<Rightarrow> pb_hangs so pb (drop (n + 4) ?bs))"
      using less.prems(2) good(1) n(2,3) unfolding pb_hangs.simps [of so pb ?bs] Let_def n(1) nat_int
      by (simp_all del: length_content split: if_splits)
    have all: "n + 4 \<le> length ?bs"
      using ends(1) by linarith
    obtain m where m: "pb_decode so pb (take n (drop 4 ?bs)) = Some m"
      using ends(2) by (cases "pb_decode so pb (take n (drop 4 ?bs))") simp_all
    obtain b1 where b1: "Buffer_wf b1" "Buffer_content b1 = drop (n + 4) ?bs"
      "ProtobufCodec_onMessage so pb b = Option.bind (ProtobufCodec_onMessage so pb b1) (\<lambda>r.
         Some (rbind r (\<lambda>(evs, buf'). Inr (PbDeliver m # evs, buf'))))"
      using pb_onMessage_deliver [OF less.prems(1) n all m] by blast
    have "\<not> pb_hangs so pb (Buffer_content b1)"
      using ends(2) m unfolding b1(2) by simp
    moreover have "length (Buffer_content b1) < length ?bs"
      unfolding b1(2) using good(1) by simp
    ultimately obtain evs b' where "ProtobufCodec_onMessage so pb b1 = Some (Inr (evs, b'))" "Buffer_wf b'"
      using less.hyps [OF _ b1(1)] by blast
    then show ?thesis
      using b1(3) by simp
  qed (use less.prems(1) pb_onMessage_short pb_onMessage_shutdown in blast)+
qed

text \<open>C10. On a well-formed buffer the loop of \<open>onMessage\<close> either runs forever or
  returns without a fault, and it runs forever exactly when, after the complete frames that
  decode, the buffer continues with at least 14 bytes whose length field is valid and whose
  frame is incomplete or rejected by \<open>parse\<close>.\<close>

theorem ProtobufCodec_onMessage_terminates_iff:
  assumes "Buffer_wf b"
  shows "if pb_hangs so pb (Buffer_content b) then ProtobufCodec_onMessage so pb b = None
    else \<exists>evs b'. ProtobufCodec_onMessage so pb b = Some (Inr (evs, b')) \<and> Buffer_wf b'"
  using pb_onMessage_hangs [OF assms, of so pb] pb_onMessage_returns [OF assms, of so pb] by simp

text \<open>A frame that has arrived only in part, with at least 14 bytes of it, hangs the
  loop: \<open>onMessage\<close> never returns to read the rest.\<close>

lemma ProtobufCodec_partial_frame_hangs:
  assumes "socket_ops_ok so" "pb_message_ok pb m" "Buffer_wf b"
    and "Buffer_content b = take k (pb_frame pb m)" "14 \<le> k" "k < length (pb_frame pb m)"
  shows "ProtobufCodec_onMessage so pb b = None"
proof (rule pb_onMessage_hangs [OF assms(3)])
  let ?n = "length (pb_body pb m)" and ?bs = "take k (pb_frame pb m)"
  have bounds: "10 \<le> ?n" "?n \<le> 67108864"
    using assms(2) by (auto simp: pb_message_ok_def pb_consts Suc_le_eq)
  have "header_len so ?bs = header_len so (pb_frame pb m)"
    using mem32_drop_take [of 0 k "pb_frame pb m"] assms(5) by (simp add: header_len_def)
  then have hd: "header_len so ?bs = int ?n"
    using header_len_be32 [OF assms(1), of ?n "pb_body pb m"] bounds(2) by (simp add: pb_frame_def)
  have len: "length ?bs = k" "k < ?n + 4"
    using assms(6) by simp_all
  show "pb_hangs so pb (Buffer_content b)"
    unfolding assms(4) pb_hangs.simps [of so pb ?bs] Let_def hd len(1) nat_int
    using bounds len(2) assms(5) by (simp del: length_pb)
qed

text \<open>C15. \<open>parse\<close>, given \<open>n\<close> readable bytes (at least ten, the least \<open>onMessage\<close>
  accepts), never reads outside them: its result is a function of these bytes alone. It is no
  message when the checksum at their end is not the Adler-32 of the bytes before it.\<close>

theorem ProtobufCodec_parse_inside_frame:
  assumes "10 \<le> length body" "length body < 2 ^ 31"
  shows "\<exists>result. (\<forall>behind. ProtobufCodec_parse so pb (body @ behind) (length body) = Inr result)
    \<and> (adler32 pb 1 (take (length body - 4) body)
         \<noteq> network_to_host_long so (mem32 (drop (length body - 4) body)) \<longrightarrow> result = None)"
proof (intro exI conjI)
  show "\<forall>behind. ProtobufCodec_parse so pb (body @ behind) (length body) = Inr (pb_decode so pb body)"
    using parse_decode [OF assms, of "body @ _" so pb] by simp
qed (simp add: pb_decode_def Let_def)

text \<open>A length field below \<open>kMinMessageLen\<close> (negative ones included) or above
  \<open>kMaxMessageLen\<close> makes \<open>onMessage\<close> return at once with a shutdown request.\<close>

lemma ProtobufCodec_rejects_bad_length:
  assumes "Buffer_wf b" "14 \<le> length (Buffer_content b)"
    and "header_len so (Buffer_content b) < 10 \<or> 67108864 < header_len so (Buffer_content b)"
  shows "ProtobufCodec_onMessage so pb b = Some (Inr ([PbShutdown], b))"
  using assms by (rule pb_onMessage_shutdown)

section \<open>An instance of the external calls, for the witnesses\<close>

text \<open>Adler-32 as zlib documents it, and messages that are byte strings of one type.\<close>

fun adler_sums :: "nat \<Rightarrow> nat \<Rightarrow> byte list \<Rightarrow> nat \<times> nat" where
  "adler_sums a b [] = (a, b)"
| "adler_sums a b (x # xs) =
     adler_sums ((a + unat x) mod 65521) ((b + (a + unat x) mod 65521) mod 65521) xs"

definition raw_protobuf :: "(unit, byte list) protobuf" where
  "raw_protobuf = \<lparr>
     adler32 = (\<lambda>start bs. let (a, b) = adler_sums (start mod 65536) (start div 65536) bs in of_nat (b * 65536 + a)),
     find_message_type = (\<lambda>name. if name = [77] then Some () else None),
     get_prototype = (\<lambda>_. Some []),
     new_message = (\<lambda>p. p),
     parse_from_array = (\<lambda>bs _. (bs, True)),
     get_type_name = (\<lambda>_. [77]),
     byte_size = (\<lambda>m. int (length m)),
     serialize_to_array = (\<lambda>m. m)\<rparr>"

lemma raw_message_ok: "length m \<le> 1000 \<Longrightarrow> pb_message_ok raw_protobuf m"
  by (simp add: pb_message_ok_def pb_consts) (simp add: raw_protobuf_def)

text \<open>One message sent and received, two frames behind one another, and the inputs that hang.\<close>

lemma ProtobufCodec_send_onMessage_witness:
  "\<exists>b b'. ProtobufCodec_send bswap_ops raw_protobuf [1, 2, 3] = Inr b
    \<and> ProtobufCodec_onMessage bswap_ops raw_protobuf b = Some (Inr ([PbDeliver [1, 2, 3]], b'))"
  using ProtobufCodec_send_onMessage [OF bswap_ops_ok raw_message_ok [of "[1, 2, 3]"]] by auto

lemma ProtobufCodec_delivers_frames_witness:
  "\<exists>b'. ProtobufCodec_onMessage bswap_ops raw_protobuf
      (buffer_with (pb_frame raw_protobuf [1] @ pb_frame raw_protobuf [2, 3] @ [0]))
    = Some (Inr ([PbDeliver [1], PbDeliver [2, 3]], b'))"
proof -
  let ?bs = "pb_frame raw_protobuf [1] @ pb_frame raw_protobuf [2, 3] @ [0]"
  have "length ?bs \<le> 1000"
    by (simp add: raw_protobuf_def)
  then show ?thesis
    using ProtobufCodec_delivers_frames [OF bswap_ops_ok buffer_with_wf, of ?bs raw_protobuf "[[1], [2, 3]]" "[0]"]
      raw_message_ok [of "[1]"] raw_message_ok [of "[2, 3]"] by auto
qed

lemma raw_partial:
  "14 < length (pb_frame raw_protobuf [1, 2])" "Buffer_wf (buffer_with (take 14 (pb_frame raw_protobuf [1, 2])))"
  by (simp_all add: raw_protobuf_def buffer_with_wf)

lemma ProtobufCodec_partial_frame_hangs_witness:
  "ProtobufCodec_onMessage bswap_ops raw_protobuf (buffer_with (take 14 (pb_frame raw_protobuf [1, 2]))) = None"
  using ProtobufCodec_partial_frame_hangs [OF bswap_ops_ok raw_message_ok [of "[1, 2]"] raw_partial(2)
      buffer_with_content _ raw_partial(1)] by simp

lemma ProtobufCodec_onMessage_terminates_iff_witness:
  "\<exists>evs b'. ProtobufCodec_onMessage bswap_ops raw_protobuf (buffer_with [1, 2, 3]) = Some (Inr (evs, b')) \<and> Buffer_wf b'"
  using ProtobufCodec_onMessage_terminates_iff [OF buffer_with_wf [of "[1, 2, 3]"], of bswap_ops raw_protobuf]
  by (simp add: pb_hangs.simps [of _ _ "[1, 2, 3]"] del: split_paired_Ex)

lemma ProtobufCodec_parse_inside_frame_witness:
  "\<exists>result. \<forall>behind. ProtobufCodec_parse bswap_ops raw_protobuf (replicate 12 0 @ behind) 12 = Inr result"
  using ProtobufCodec_parse_inside_frame [of "replicate 12 0" bswap_ops raw_protobuf] by auto

lemma ProtobufCodec_rejects_bad_length_witness:
  "ProtobufCodec_onMessage bswap_ops raw_protobuf (buffer_with (replicate 14 255))
    = Some (Inr ([PbShutdown], buffer_with (replicate 14 255)))"
proof (rule ProtobufCodec_rejects_bad_length)
  have "mem32 (replicate 14 255) = - 1"
    by (simp add: mem32_def numeral_eq_Suc) code_simp
  moreover have "network_to_host_long bswap_ops (- 1) = - 1"
    by code_simp
  ultimately show "header_len bswap_ops (Buffer_content (buffer_with (replicate 14 255))) < 10
    \<or> 67108864 < header_len bswap_ops (Buffer_content (buffer_with (replicate 14 255)))"
    by (simp add: header_len_def)
qed (simp_all add: buffer_with_wf del: length_content)

end
