(* ===== verification/TcpConnection.thy ===== *)
theory TcpConnection
  imports Buffer "HOL-Library.Sublist"
begin

text \<open>
  \<open>TcpConnection.h\<close>, \<open>TcpConnection.cpp\<close>: one connection of the loop's thread. The state
  holds the members of the class, the asynchronous operations asio has outstanding, the
  functions posted to the loop for the connection, and three histories that the code does not
  keep: the callbacks made, the bytes accepted for sending and the bytes the socket has taken.
  A run is a sequence of steps: calls of the public operations from the loop's thread or
  another one, posted functions, and the progress and completion of the reads and writes. The
  lemmas show which runs put on the wire exactly what was sent, in which order the callbacks
  come, what the message callback sees of the peer's stream, and which runs end in a fault.
\<close>

section \<open>State\<close>

datatype StateE = kDisconnected | kConnecting | kConnected | kDisconnecting

text \<open>
  An outstanding \<open>async_read\<close> stores into \<open>inputBuffer_\<close> from index \<open>r_off\<close> on, until
  \<open>r_len\<close> bytes are there. An outstanding \<open>async_write\<close> reads \<open>w_len\<close> bytes through a
  pointer to index \<open>w_off\<close> of \<open>outputBuffer_\<close>; \<open>w_stale\<close> says that the vector has been
  resized since, which lets it move to other memory.
\<close>

datatype read_kind = ReadHeader | ReadBody

record read_op =
  r_kind :: read_kind
  r_off :: nat
  r_len :: nat
  r_done :: nat

record write_op =
  w_off :: nat
  w_len :: nat
  w_done :: nat
  w_stale :: bool

text \<open>
  The functions that the operations post to the loop. \<open>RunSend\<close> owns its string;
  \<open>RunSendView\<close> is bound to a view of the caller's string. \<open>ShutdownSend\<close> is the
  \<open>shutdown\<close> of the socket, with the number of bytes accepted and transmitted before it.
\<close>

datatype tcp_task =
    RunSend "byte list"
  | RunSendView "byte list"
  | RunShutdown
  | RunForceClose

datatype conn_event = OnConnection bool | OnMessage "byte list" | OnClose | ShutdownSend nat nat

record TcpConnection =
  conn_state :: StateE
  inputBuffer :: Buffer
  outputBuffer :: Buffer
  reading :: "read_op option"
  writing :: "write_op list"
  posted :: "tcp_task list"
  events :: "conn_event list"
  sent :: "byte list"
  wire :: "byte list"
  hazard :: bool

text \<open>
  What a user's callback does with the connection: the public operations it calls, and \<open>Fail\<close>, a fault
  of its own code. A \<open>std::function\<close> may be empty.
\<close>

datatype conn_action =
    SendBuffer Buffer
  | SendInput
  | SendString "byte list"
  | DoShutdown
  | DoForceClose
  | Consume nat
  | Fail fault

record callbacks =
  connectionCallback :: "(TcpConnection \<Rightarrow> conn_action list) option"
  messageCallback :: "(TcpConnection \<Rightarrow> conn_action list) option"
  closeCallback :: "(TcpConnection \<Rightarrow> conn_action list) option"

definition TcpConnection_new :: "TcpConnection result" where
  "TcpConnection_new =
     rbind (Buffer_new kInitialSize) (\<lambda>inp.
     rbind (Buffer_new kInitialSize) (\<lambda>outp.
     Inr \<lparr>conn_state = kConnecting, inputBuffer = inp, outputBuffer = outp, reading = None,
       writing = [], posted = [], events = [], sent = [], wire = [], hazard = False\<rparr>))"

definition TcpConnection_destructor :: "TcpConnection \<Rightarrow> unit result" where
  "TcpConnection_destructor c = (if conn_state c = kDisconnected then Inr () else Inl AssertFailed)"

definition TcpConnection_connected :: "TcpConnection \<Rightarrow> bool" where
  "TcpConnection_connected c \<longleftrightarrow> conn_state c = kConnected"

definition TcpConnection_setState :: "StateE \<Rightarrow> TcpConnection \<Rightarrow> TcpConnection" where
  "TcpConnection_setState s c = c\<lparr>conn_state := s\<rparr>"

definition log_event :: "conn_event \<Rightarrow> TcpConnection \<Rightarrow> TcpConnection" where
  "log_event e c = c\<lparr>events := events c @ [e]\<rparr>"

definition post_task :: "tcp_task \<Rightarrow> TcpConnection \<Rightarrow> TcpConnection" where
  "post_task t c = c\<lparr>posted := posted c @ [t]\<rparr>"

section \<open>Starting reads and writes\<close>

definition TcpConnection_readHeader :: "TcpConnection \<Rightarrow> TcpConnection" where
  "TcpConnection_readHeader c =
     c\<lparr>reading := Some \<lparr>r_kind = ReadHeader, r_off = writerIndex (inputBuffer c), r_len = 4, r_done = 0\<rparr>\<rparr>"

definition TcpConnection_readBody :: "nat \<Rightarrow> TcpConnection \<Rightarrow> TcpConnection" where
  "TcpConnection_readBody n c =
     c\<lparr>reading := Some \<lparr>r_kind = ReadBody, r_off = writerIndex (inputBuffer c), r_len = n, r_done = 0\<rparr>\<rparr>"

definition TcpConnection_write :: "TcpConnection \<Rightarrow> TcpConnection" where
  "TcpConnection_write c =
     c\<lparr>writing := writing c @
       [\<lparr>w_off = readerIndex (outputBuffer c), w_len = Buffer_readableBytes (outputBuffer c),
         w_done = 0, w_stale = False\<rparr>]\<rparr>"

text \<open>
  \<open>sendInThisThread\<close>. The local variable \<open>write_in_progress\<close> is true when nothing is
  readable. The histories: \<open>sent\<close> grows by the bytes appended; \<open>hazard\<close> remembers that an
  append was empty, or did not fit behind the write index while a write was outstanding.
  \<open>in_loop\<close> says whether a call is made in the loop's thread.
\<close>

definition TcpConnection_sendInThisThread :: "bool \<Rightarrow> StringPiece \<Rightarrow> TcpConnection \<Rightarrow> TcpConnection result" where
  "TcpConnection_sendInThisThread in_loop str c =
     (if \<not> in_loop then Inl LogFatal
      else if conn_state c = kDisconnected then Inr c
      else
        let write_in_progress = (Buffer_readableBytes (outputBuffer c) = 0);
            n = size_of_int (len str) in
        rbind (Buffer_append (ptr str) n (outputBuffer c)) (\<lambda>b.
        let resized = (length (buffer b) \<noteq> length (buffer (outputBuffer c)));
            c1 = c\<lparr>outputBuffer := b,
                   writing := (if resized then map (\<lambda>w. w\<lparr>w_stale := True\<rparr>) (writing c) else writing c),
                   sent := sent c @ take n (ptr str),
                   hazard := hazard c \<or> len str \<le> 0 \<or>
                     (writing c \<noteq> [] \<and> Buffer_writableBytes (outputBuffer c) < n)\<rparr> in
        Inr (if write_in_progress then TcpConnection_write c1 else c1)))"

text \<open>The body of \<open>shutdownInThisThread\<close>.\<close>

definition shutdown_when_flushed :: "TcpConnection \<Rightarrow> TcpConnection" where
  "shutdown_when_flushed c =
     (if Buffer_readableBytes (outputBuffer c) = 0 
      then log_event (ShutdownSend (length (sent c)) (length (wire c))) c else c)"

definition TcpConnection_shutdownInThisThread :: "bool \<Rightarrow> TcpConnection \<Rightarrow> TcpConnection result" where
  "TcpConnection_shutdownInThisThread in_loop c =
     (if \<not> in_loop then Inl LogFatal
      else Inr (shutdown_when_flushed c))"

lemma shutdownInThisThread_in_loop [simp]: "TcpConnection_shutdownInThisThread True c = Inr (shutdown_when_flushed c)"
  by (simp add: TcpConnection_shutdownInThisThread_def)

section \<open>The public operations\<close>

text \<open>\<open>in_loop\<close> is \<open>loop_->isInLoopThread()\<close>; \<open>IOLoop::dispatch\<close> calls the function at once
  in the loop's thread and posts it otherwise.\<close>

definition TcpConnection_shutdown :: "bool \<Rightarrow> TcpConnection \<Rightarrow> TcpConnection result" where
  "TcpConnection_shutdown in_loop c =
     (if conn_state c = kConnected then
        (let c1 = TcpConnection_setState kDisconnecting c in
         if in_loop then TcpConnection_shutdownInThisThread in_loop c1 else Inr (post_task RunShutdown c1))
      else Inr c)"

definition TcpConnection_forceClose :: "TcpConnection \<Rightarrow> TcpConnection" where
  "TcpConnection_forceClose c =
     (if conn_state c = kConnected \<or> conn_state c = kDisconnecting
      then post_task RunForceClose (TcpConnection_setState kDisconnecting c)
      else c)"

definition TcpConnection_send_buffer :: "bool \<Rightarrow> Buffer \<Rightarrow> TcpConnection \<Rightarrow> (Buffer \<times> TcpConnection) result" where
  "TcpConnection_send_buffer in_loop buf c =
     (if conn_state c = kConnected then
        rbind (Buffer_retrieveAllAsString buf) (\<lambda>(s, buf').
        if in_loop then
          rbind (TcpConnection_sendInThisThread in_loop (StringPiece_of_string s) c) (\<lambda>c'. Inr (buf', c'))
        else Inr (buf', post_task (RunSend s) c))
      else Inr (buf, c))"

definition TcpConnection_send_string :: "bool \<Rightarrow> byte list \<Rightarrow> TcpConnection \<Rightarrow> TcpConnection result" where
  "TcpConnection_send_string in_loop message c =
     (if conn_state c = kConnected then
        (if in_loop then TcpConnection_sendInThisThread in_loop (StringPiece_of_string message) c
         else Inr (post_task (RunSendView message) c))
      else Inr c)"

text \<open>One call by user code; \<open>SendInput\<close> is \<open>send(conn->inputBuffer())\<close>, \<open>Consume\<close> is
  \<open>retrieve\<close> on the input buffer.\<close>

fun conn_call :: "bool \<Rightarrow> conn_action \<Rightarrow> TcpConnection \<Rightarrow> TcpConnection result" where
  "conn_call in_loop (SendBuffer buf) c =
     rbind (TcpConnection_send_buffer in_loop buf c) (\<lambda>(_, c'). Inr c')"
| "conn_call in_loop SendInput c =
     rbind (TcpConnection_send_buffer in_loop (inputBuffer c) c) (\<lambda>(buf, c').
     Inr (c'\<lparr>inputBuffer := buf\<rparr>))"
| "conn_call in_loop (SendString s) c = TcpConnection_send_string in_loop s c"
| "conn_call in_loop DoShutdown c = TcpConnection_shutdown in_loop c"
| "conn_call in_loop DoForceClose c = Inr (TcpConnection_forceClose c)"
| "conn_call in_loop (Consume n) c =
     rbind (Buffer_retrieve n (inputBuffer c)) (\<lambda>buf. Inr (c\<lparr>inputBuffer := buf\<rparr>))"
| "conn_call in_loop (Fail e) c = Inl e"

fun conn_calls :: "conn_action list \<Rightarrow> TcpConnection \<Rightarrow> TcpConnection result" where
  "conn_calls [] c = Inr c"
| "conn_calls (a # as) c = rbind (conn_call True a c) (conn_calls as)"

text \<open>A callback is made in the loop's thread; calling an empty \<open>std::function\<close> throws.\<close>

definition invoke :: "(TcpConnection \<Rightarrow> conn_action list) option \<Rightarrow> conn_event \<Rightarrow> TcpConnection \<Rightarrow> TcpConnection result" where
  "invoke cb e c =
     (case cb of
        None \<Rightarrow> Inl BadFunctionCall
      | Some f \<Rightarrow> conn_calls (f (log_event e c)) (log_event e c))"

definition invoke_if :: "(TcpConnection \<Rightarrow> conn_action list) option \<Rightarrow> conn_event \<Rightarrow> TcpConnection \<Rightarrow> TcpConnection result" where
  "invoke_if cb e c = (if cb = None then Inr c else invoke cb e c)"

section \<open>The handlers of the loop's thread\<close>

text \<open>
  \<open>in_loop\<close> says whether the call is made in the thread of \<open>loop_\<close>, for \<open>loop_->assertInLoopThread()\<close>.
  Posted functions and completion handlers are run by the loop, so there it is true; the owners of a
  connection dispatch or post \<open>connectEstablished\<close> and \<open>connectDestroyed\<close> to its loop.
\<close>

definition TcpConnection_connectEstablished :: "bool \<Rightarrow> callbacks \<Rightarrow> TcpConnection \<Rightarrow> TcpConnection result" where
  "TcpConnection_connectEstablished in_loop cb c =
     (if \<not> in_loop then Inl LogFatal
      else if conn_state c \<noteq> kConnecting then Inl AssertFailed
      else
        rbind (invoke_if (connectionCallback cb) (OnConnection True) (TcpConnection_setState kConnected c)) (\<lambda>c1.
        Inr (TcpConnection_readHeader c1)))"

definition TcpConnection_connectDestroyed :: "bool \<Rightarrow> callbacks \<Rightarrow> TcpConnection \<Rightarrow> TcpConnection result" where
  "TcpConnection_connectDestroyed in_loop cb c =
     (if \<not> in_loop then Inl LogFatal
      else if conn_state c = kConnected
      then invoke (connectionCallback cb) (OnConnection False) (TcpConnection_setState kDisconnected c)
      else Inr c)"

definition TcpConnection_handleClose :: "bool \<Rightarrow> callbacks \<Rightarrow> TcpConnection \<Rightarrow> TcpConnection result" where
  "TcpConnection_handleClose in_loop cb c =
     (if \<not> in_loop then Inl LogFatal
      else if \<not> (conn_state c = kConnected \<or> conn_state c = kDisconnecting) then Inl AssertFailed
      else
        rbind (invoke_if (connectionCallback cb) (OnConnection False) (TcpConnection_setState kDisconnected c)) (\<lambda>c1.
        invoke_if (closeCallback cb) OnClose c1))"

definition TcpConnection_forceCloseInThisThread :: "bool \<Rightarrow> callbacks \<Rightarrow> TcpConnection \<Rightarrow> TcpConnection result" where
  "TcpConnection_forceCloseInThisThread in_loop cb c =
     (if \<not> in_loop then Inl LogFatal
      else if conn_state c = kConnected \<or> conn_state c = kDisconnecting
      then TcpConnection_handleClose in_loop cb c else Inr c)"

text \<open>The completion handlers of \<open>readHeader\<close> and \<open>readBody\<close>, for an error and for success.\<close>

definition on_readHeader :: "callbacks \<Rightarrow> socket_ops \<Rightarrow> bool \<Rightarrow> nat \<Rightarrow> TcpConnection \<Rightarrow> TcpConnection result" where
  "on_readHeader cb so error byte c =
     (if error then TcpConnection_handleClose True cb c
      else
        rbind (Buffer_hasWritten byte (inputBuffer c)) (\<lambda>b1.
        rbind (Buffer_peekInt32 so b1) (\<lambda>n.
        rbind (Buffer_ensureWritableBytes (size_of_int (sint n)) b1) (\<lambda>b2.
        Inr (TcpConnection_readBody (size_of_int (sint n)) (c\<lparr>inputBuffer := b2\<rparr>))))))"

definition on_readBody :: "callbacks \<Rightarrow> bool \<Rightarrow> nat \<Rightarrow> TcpConnection \<Rightarrow> TcpConnection result" where
  "on_readBody cb error byte c =
     (if error then TcpConnection_handleClose True cb c
      else
        rbind (Buffer_hasWritten byte (inputBuffer c)) (\<lambda>b1.
        rbind (invoke (messageCallback cb) (OnMessage (Buffer_content b1)) (c\<lparr>inputBuffer := b1\<rparr>)) (\<lambda>c1.
        Inr (TcpConnection_readHeader c1))))"

text \<open>The completion handler of \<open>write\<close>; on an error it only logs.\<close>

definition on_write :: "bool \<Rightarrow> nat \<Rightarrow> TcpConnection \<Rightarrow> TcpConnection result" where
  "on_write error byte c =
     (if error then Inr c
      else
        rbind (Buffer_retrieve byte (outputBuffer c)) (\<lambda>b.
        let c1 = c\<lparr>outputBuffer := b\<rparr> in
        if Buffer_readableBytes b \<noteq> 0 then Inr (TcpConnection_write c1)
        else if conn_state c1 = kDisconnecting then TcpConnection_shutdownInThisThread True c1
        else Inr c1))"

section \<open>Runs\<close>

text \<open>
  The steps: \<open>Call\<close> says whether it is made in the loop's thread; \<open>RunTask\<close> runs the oldest
  posted function, and says whether a string that it only has a view of still exists;
  \<open>ReadSome\<close> and \<open>WriteSome\<close> are the transfers an \<open>async_read\<close> or \<open>async_write\<close> is
  composed of.
\<close>

datatype conn_step =
    Established
  | Destroyed
  | Call bool conn_action
  | RunTask bool
  | ReadSome "byte list"
  | ReadDone
  | ReadFail
  | WriteSome nat nat
  | WriteDone nat
  | WriteFail nat

fun run_task :: "callbacks \<Rightarrow> bool \<Rightarrow> tcp_task \<Rightarrow> TcpConnection \<Rightarrow> TcpConnection result" where
  "run_task cb alive (RunSend s) c = TcpConnection_sendInThisThread True (StringPiece_of_string s) c"
| "run_task cb alive (RunSendView s) c =
     (if alive then TcpConnection_sendInThisThread True (StringPiece_of_string s) c else Inl UseAfterFree)"
| "run_task cb alive RunShutdown c = TcpConnection_shutdownInThisThread True c"
| "run_task cb alive RunForceClose c = TcpConnection_forceCloseInThisThread True cb c"

definition remove_nth :: "nat \<Rightarrow> 'a list \<Rightarrow> 'a list" where
  "remove_nth i xs = take i xs @ drop (Suc i) xs"

definition on_read :: "callbacks \<Rightarrow> socket_ops \<Rightarrow> bool \<Rightarrow> TcpConnection \<Rightarrow> TcpConnection result" where
  "on_read cb so error c =
     (case reading c of
        None \<Rightarrow> Inr c
      | Some r \<Rightarrow>
          (case r_kind r of
             ReadHeader \<Rightarrow> on_readHeader cb so error (r_done r) (c\<lparr>reading := None\<rparr>)
           | ReadBody \<Rightarrow> on_readBody cb error (r_done r) (c\<lparr>reading := None\<rparr>)))"

fun tcp_step :: "callbacks \<Rightarrow> socket_ops \<Rightarrow> conn_step \<Rightarrow> TcpConnection \<Rightarrow> TcpConnection result" where
  "tcp_step cb so Established c = TcpConnection_connectEstablished True cb c"
| "tcp_step cb so Destroyed c = TcpConnection_connectDestroyed True cb c"
| "tcp_step cb so (Call in_loop a) c = conn_call in_loop a c"
| "tcp_step cb so (RunTask alive) c =
     (case posted c of [] \<Rightarrow> Inr c | t # ts \<Rightarrow> run_task cb alive t (c\<lparr>posted := ts\<rparr>))"
| "tcp_step cb so (ReadSome bs) c =
     (case reading c of
        None \<Rightarrow> Inr c
      | Some r \<Rightarrow>
          rbind (vec_store (r_off r + r_done r) bs (buffer (inputBuffer c))) (\<lambda>v.
          Inr (c\<lparr>inputBuffer := inputBuffer c\<lparr>buffer := v\<rparr>,
                 reading := Some (r\<lparr>r_done := r_done r + length bs\<rparr>)\<rparr>)))"
| "tcp_step cb so ReadDone c = on_read cb so False c"
| "tcp_step cb so ReadFail c = on_read cb so True c"
| "tcp_step cb so (WriteSome i k) c =
     (let w = writing c ! i in
      if w_stale w then Inl UseAfterFree
      else
        rbind (mem_read k (drop (w_off w + w_done w) (buffer (outputBuffer c)))) (\<lambda>bs.
        Inr (c\<lparr>wire := wire c @ bs, writing := (writing c)[i := w\<lparr>w_done := w_done w + k\<rparr>]\<rparr>)))"
| "tcp_step cb so (WriteDone i) c =
     on_write False (w_len (writing c ! i)) (c\<lparr>writing := remove_nth i (writing c)\<rparr>)"
| "tcp_step cb so (WriteFail i) c =
     on_write True (w_done (writing c ! i)) (c\<lparr>writing := remove_nth i (writing c)\<rparr>)"

text \<open>What asio guarantees of the steps it makes: it transfers no more than was asked for and
  reports success when all of it is done.\<close>

fun enabled :: "conn_step \<Rightarrow> TcpConnection \<Rightarrow> bool" where
  "enabled (RunTask alive) c \<longleftrightarrow> posted c \<noteq> []"
| "enabled (ReadSome bs) c \<longleftrightarrow>
     (case reading c of None \<Rightarrow> False | Some r \<Rightarrow> bs \<noteq> [] \<and> r_done r + length bs \<le> r_len r)"
| "enabled ReadDone c \<longleftrightarrow> (case reading c of None \<Rightarrow> False | Some r \<Rightarrow> r_done r = r_len r)"
| "enabled ReadFail c \<longleftrightarrow> reading c \<noteq> None"
| "enabled (WriteSome i k) c \<longleftrightarrow>
     i < length (writing c) \<and> 0 < k \<and> w_done (writing c ! i) + k \<le> w_len (writing c ! i)"
| "enabled (WriteDone i) c \<longleftrightarrow>
     i < length (writing c) \<and> w_done (writing c ! i) = w_len (writing c ! i)"
| "enabled (WriteFail i) c \<longleftrightarrow> i < length (writing c)"
| "enabled _ c \<longleftrightarrow> True"

inductive reach :: "callbacks \<Rightarrow> socket_ops \<Rightarrow> TcpConnection \<Rightarrow> TcpConnection \<Rightarrow> bool"
  for cb so c0 where
  start: "reach cb so c0 c0"
| step: "reach cb so c0 c \<Longrightarrow> enabled s c \<Longrightarrow> tcp_step cb so s c = Inr c' \<Longrightarrow> reach cb so c0 c'"

text \<open>The same for a given sequence of steps.\<close>

fun run :: "callbacks \<Rightarrow> socket_ops \<Rightarrow> conn_step list \<Rightarrow> TcpConnection \<Rightarrow> TcpConnection result" where
  "run cb so [] c = Inr c"
| "run cb so (s # ss) c = rbind (tcp_step cb so s c) (run cb so ss)"

fun run_enabled :: "callbacks \<Rightarrow> socket_ops \<Rightarrow> conn_step list \<Rightarrow> TcpConnection \<Rightarrow> bool" where
  "run_enabled cb so [] c \<longleftrightarrow> True"
| "run_enabled cb so (s # ss) c \<longleftrightarrow>
     enabled s c \<and> (case tcp_step cb so s c of Inl _ \<Rightarrow> ss = [] | Inr c' \<Rightarrow> run_enabled cb so ss c')"

section \<open>What is on the wire\<close>

text \<open>
  The output buffer, the outstanding writes, the bytes accepted and the bytes transmitted fit
  together: at most one write is outstanding, it reads the front of the content, and what it
  has transmitted of it follows the bytes acknowledged before.
\<close>

fun wire_ok :: "Buffer \<Rightarrow> write_op list \<Rightarrow> byte list \<Rightarrow> byte list \<Rightarrow> bool" where
  "wire_ok b [] accepted taken \<longleftrightarrow>
     prefix taken accepted \<and> (Buffer_content b = [] \<longrightarrow> taken = accepted)"
| "wire_ok b [w] accepted taken \<longleftrightarrow>
     \<not> w_stale w \<and> w_off w = readerIndex b \<and> 0 < w_len w \<and> w_len w \<le> length (Buffer_content b)
     \<and> w_done w \<le> w_len w
     \<and> (\<exists>acked. accepted = acked @ Buffer_content b \<and> taken = acked @ take (w_done w) (Buffer_content b))"
| "wire_ok b (w # w' # ws) accepted taken \<longleftrightarrow> False"

definition flushes :: "conn_event list \<Rightarrow> bool" where
  "flushes es \<longleftrightarrow> (\<forall>n m. ShutdownSend n m \<in> set es \<longrightarrow> n = m)"

definition out_inv :: "TcpConnection \<Rightarrow> bool" where
  "out_inv c \<longleftrightarrow> hazard c \<or>
     (Buffer_wf (outputBuffer c) \<and> flushes (events c) \<and>
      wire_ok (outputBuffer c) (writing c) (sent c) (wire c))"

lemma out_inv_simps [simp]:
  "out_inv (conn_state_update f c) = out_inv c" "out_inv (inputBuffer_update g c) = out_inv c"
  "out_inv (reading_update h c) = out_inv c" "out_inv (posted_update k c) = out_inv c"
  by (simp_all add: out_inv_def)

lemma out_inv_log [simp]:
  "out_inv (log_event (OnConnection up) c) = out_inv c" "out_inv (log_event OnClose c) = out_inv c"
  "out_inv (log_event (OnMessage bs) c) = out_inv c"
  by (simp_all add: out_inv_def flushes_def log_event_def)

lemma wire_ok_single:
  assumes "wire_ok b ws accepted taken" "i < length ws"
  obtains w acked where "i = 0" "ws = [w]" "\<not> w_stale w" "w_off w = readerIndex b" "0 < w_len w"
    "w_len w \<le> length (Buffer_content b)" "w_done w \<le> w_len w"
    "accepted = acked @ Buffer_content b" "taken = acked @ take (w_done w) (Buffer_content b)"
  using assms by (cases "(b, ws, accepted, taken)" rule: wire_ok.cases) auto

lemma remove_nth_single [simp]: "remove_nth 0 [w] = []"
  by (simp add: remove_nth_def)

text \<open>With nothing left in the output buffer everything accepted is on the wire.\<close>

lemma wire_ok_empty:
  "wire_ok b ws accepted taken \<Longrightarrow> Buffer_content b = [] \<Longrightarrow> ws = [] \<and> taken = accepted"
  by (cases "(b, ws, accepted, taken)" rule: wire_ok.cases) auto

text \<open>Every byte transmitted is the next byte accepted.\<close>

lemma wire_ok_prefix: "wire_ok b ws accepted taken \<Longrightarrow> prefix taken accepted"
  by (cases "(b, ws, accepted, taken)" rule: wire_ok.cases) (auto simp: take_is_prefix)

text \<open>A new write of the whole content may start when none is outstanding.\<close>

lemma wire_ok_write:
  assumes "Buffer_wf b" "Buffer_content b \<noteq> []"
  shows "wire_ok b [\<lparr>w_off = readerIndex b, w_len = Buffer_readableBytes b, w_done = 0, w_stale = False\<rparr>]
    (acked @ Buffer_content b) acked"
  using assms readable_content [OF assms(1)] by (simp del: length_content Buffer_sizes)

lemma positive_view:
  assumes "0 < len (StringPiece_of_string s)"
  shows "size_of_int (len (StringPiece_of_string s)) \<le> vec_max_size"
    and "0 < size_of_int (len (StringPiece_of_string s))"
proof -
  have "len (StringPiece_of_string s) < 2 ^ 31"
    using signed_take_bit_int_less_exp [of 31 "int (length s)"]
    by (simp add: StringPiece_of_string_def int_of_size_def)
  then show "size_of_int (len (StringPiece_of_string s)) \<le> vec_max_size"
    and "0 < size_of_int (len (StringPiece_of_string s))"
    using assms by (simp_all add: vec_max_size_def nat_le_iff)
qed

text \<open>An append: it starts a write when the buffer was empty, and otherwise leaves the
  outstanding one alone.\<close>

lemma sendInThisThread_result:
  assumes "TcpConnection_sendInThisThread True (StringPiece_of_string s) c = Inr c'" "conn_state c \<noteq> kDisconnected"
  defines "n \<equiv> size_of_int (len (StringPiece_of_string s))"
  obtains b where "Buffer_append s n (outputBuffer c) = Inr b"
    "outputBuffer c' = b" "sent c' = sent c @ take n s" "wire c' = wire c" "events c' = events c"
    "hazard c' \<longleftrightarrow> hazard c \<or> len (StringPiece_of_string s) \<le> 0
      \<or> (writing c \<noteq> [] \<and> Buffer_writableBytes (outputBuffer c) < n)"
    "writing c' = (if length (buffer b) \<noteq> length (buffer (outputBuffer c))
        then map (\<lambda>w. w\<lparr>w_stale := True\<rparr>) (writing c) else writing c)
      @ (if Buffer_readableBytes (outputBuffer c) = 0
         then [\<lparr>w_off = readerIndex b, w_len = Buffer_readableBytes b, w_done = 0, w_stale = False\<rparr>] else [])"
  using assms
  by (auto simp: TcpConnection_sendInThisThread_def TcpConnection_write_def rbind_eq_Inr Let_def
      StringPiece_of_string_def)

lemma sendInThisThread_out:
  assumes inv: "out_inv c" and eq: "TcpConnection_sendInThisThread True (StringPiece_of_string s) c = Inr c'"
  shows "out_inv c'"
proof (cases "hazard c' \<or> conn_state c = kDisconnected")
  case True
  then show ?thesis
    using inv eq by (auto simp: out_inv_def TcpConnection_sendInThisThread_def)
next
  case False
  let ?o = "outputBuffer c" and ?n = "size_of_int (len (StringPiece_of_string s))"
  obtain b where b: "Buffer_append s ?n ?o = Inr b"
    and c': "outputBuffer c' = b" "sent c' = sent c @ take ?n s" "wire c' = wire c" "events c' = events c"
    and h: "hazard c' \<longleftrightarrow> hazard c \<or> len (StringPiece_of_string s) \<le> 0
      \<or> (writing c \<noteq> [] \<and> Buffer_writableBytes ?o < ?n)"
    and w: "writing c' = (if length (buffer b) \<noteq> length (buffer ?o)
        then map (\<lambda>w. w\<lparr>w_stale := True\<rparr>) (writing c) else writing c)
      @ (if Buffer_readableBytes ?o = 0
         then [\<lparr>w_off = readerIndex b, w_len = Buffer_readableBytes b, w_done = 0, w_stale = False\<rparr>] else [])"
    using sendInThisThread_result [OF eq] False by blast
  have nh: "\<not> hazard c" "0 < len (StringPiece_of_string s)"
    and room: "writing c = [] \<or> ?n \<le> Buffer_writableBytes ?o"
    using h False by auto
  note n = positive_view [OF nh(2)]
  have wf: "Buffer_wf ?o" and fl: "flushes (events c')" and ok: "wire_ok ?o (writing c) (sent c) (wire c)"
    using inv nh(1) c'(4) by (auto simp: out_inv_def)
  note app = Buffer_append_InrD [OF wf b n(1)]
  have pos: "Buffer_content b \<noteq> []"
    using app n by auto
  have "wire_ok b (writing c') (sent c') (wire c')"
  proof (cases "Buffer_content ?o = []")
    case True
    then have e: "writing c = []" "wire c = sent c"
      using wire_ok_empty [OF ok] by auto
    have "Buffer_readableBytes ?o = 0"
      using True readable_content [OF wf] by simp
    then show ?thesis
      using wire_ok_write [OF app(1) pos, of "sent c"] app(2) True e unfolding w c' by simp
  next
    case False
    then have r: "Buffer_readableBytes ?o \<noteq> 0"
      using readable_content [OF wf] by simp
    show ?thesis
    proof (cases "writing c")
      case Nil
      then show ?thesis
        using ok False app(2) r unfolding w c' by (simp add: prefix_append)
    next
      case (Cons x xs)
      then have x: "writing c = [x]" "wire_ok ?o [x] (sent c) (wire c)"
        using ok by (cases xs; simp)+
      have fit: "writerIndex ?o + ?n \<le> length (buffer ?o)"
        using room x(1) wf Buffer_wfD(2) [OF wf] by simp
      have "b = ?o\<lparr>buffer := overwrite (writerIndex ?o) (take ?n s) (buffer ?o), writerIndex := writerIndex ?o + ?n\<rparr>"
        using Buffer_append_in_place(1) [OF wf fit app(3)] b by simp
      then have bb: "readerIndex b = readerIndex ?o" "length (buffer b) = length (buffer ?o)"
        using fit app(3) by simp_all
      show ?thesis
        using x r bb app(2) unfolding w c' by (auto simp del: length_content)
    qed
  qed
  then show ?thesis
    using app(1) fl by (simp add: out_inv_def c'(1))
qed

lemma shutdownInThisThread_out [simp]:
  assumes "out_inv c"
  shows "out_inv (shutdown_when_flushed c)"
proof (cases "hazard c")
  case False
  then have "Buffer_readableBytes (outputBuffer c) = 0 \<Longrightarrow> wire c = sent c"
    using assms wire_ok_empty readable_content by (fastforce simp: out_inv_def simp del: Buffer_sizes)
  then show ?thesis
    using assms by (auto simp: out_inv_def shutdown_when_flushed_def log_event_def flushes_def)
qed (simp add: out_inv_def shutdown_when_flushed_def log_event_def)

section \<open>Invariants of the sending side\<close>

fun flush_event :: "conn_event \<Rightarrow> bool" where
  "flush_event (ShutdownSend n m) = True"
| "flush_event _ = False"

text \<open>
  A property of the sending side: it does not look at the state, the input, the posted
  functions or the callbacks, and an append and a shutdown keep it. Then everything the loop's
  thread and the callers do keeps it, apart from the progress of the writes themselves.
\<close>

locale output_invariant =
  fixes inv :: "TcpConnection \<Rightarrow> bool"
  assumes inv_state: "inv (c\<lparr>conn_state := s\<rparr>) = inv c"
    and inv_input: "inv (c\<lparr>inputBuffer := b\<rparr>) = inv c"
    and inv_reading: "inv (c\<lparr>reading := r\<rparr>) = inv c"
    and inv_posted: "inv (c\<lparr>posted := ts\<rparr>) = inv c"
    and inv_log: "\<not> flush_event e \<Longrightarrow> inv (log_event e c) = inv c"
    and inv_shutdown: "inv c \<Longrightarrow> inv (shutdown_when_flushed c)"
    and inv_send: "inv c \<Longrightarrow> TcpConnection_sendInThisThread True (StringPiece_of_string m) c = Inr c' \<Longrightarrow> inv c'"
begin

lemma inv_setState: "inv (TcpConnection_setState s c) = inv c"
  by (simp add: TcpConnection_setState_def inv_state)

lemmas inv_simps = inv_state inv_input inv_reading inv_posted inv_log inv_setState

lemma inv_call:
  assumes "inv c" "conn_call in_loop a c = Inr c'"
  shows "inv c'"
  using assms
  by (cases a)
     (auto simp: TcpConnection_send_buffer_def TcpConnection_send_string_def rbind_eq_Inr post_task_def
       TcpConnection_shutdown_def TcpConnection_forceClose_def inv_simps Let_def
       intro: inv_send inv_shutdown split: if_splits)

lemma inv_calls: "inv c \<Longrightarrow> conn_calls as c = Inr c' \<Longrightarrow> inv c'"
  by (induction as arbitrary: c) (auto simp: rbind_eq_Inr dest: inv_call)

lemma inv_invoke:
  assumes "invoke cb e c = Inr c'" "inv c" "\<not> flush_event e"
  shows "inv c'"
  using assms inv_log [OF assms(3), of c]
  by (auto simp: invoke_def split: option.splits dest: inv_calls)

lemma inv_invoke_if:
  assumes "invoke_if cb e c = Inr c'" "inv c" "\<not> flush_event e"
  shows "inv c'"
  using assms inv_invoke [OF _ assms(2,3)] by (cases "cb = None") (simp_all add: invoke_if_def)

lemma inv_handleClose:
  assumes "inv c" "TcpConnection_handleClose True cb c = Inr c'"
  shows "inv c'"
proof -
  obtain c1 where c1: "invoke_if (connectionCallback cb) (OnConnection False) (TcpConnection_setState kDisconnected c) = Inr c1"
    "invoke_if (closeCallback cb) OnClose c1 = Inr c'"
    using assms(2) by (auto simp: TcpConnection_handleClose_def rbind_eq_Inr split: if_splits)
  have "inv c1"
    using inv_invoke_if [OF c1(1)] assms(1) by (simp add: inv_setState)
  then show ?thesis
    using inv_invoke_if [OF c1(2)] by simp
qed

lemma inv_run_task:
  assumes "inv c" "run_task cb alive t c = Inr c'"
  shows "inv c'"
proof (cases t)
  case RunForceClose
  then show ?thesis
    using assms inv_handleClose [OF assms(1)]
    by (simp add: TcpConnection_forceCloseInThisThread_def split: if_splits)
qed (use assms inv_send [OF assms(1)] inv_shutdown [OF assms(1)] in \<open>auto split: if_splits\<close>)

lemma inv_on_readHeader:
  assumes "inv c" "on_readHeader cb so err n c = Inr c'"
  shows "inv c'"
proof (cases err)
  case True
  then show ?thesis
    using assms inv_handleClose [OF assms(1)] by (simp add: on_readHeader_def)
next
  case False
  then show ?thesis
    using assms by (auto simp: on_readHeader_def TcpConnection_readBody_def rbind_eq_Inr inv_simps)
qed

lemma inv_on_readBody:
  assumes "inv c" "on_readBody cb err n c = Inr c'"
  shows "inv c'"
proof (cases err)
  case True
  then show ?thesis
    using assms inv_handleClose [OF assms(1)] by (simp add: on_readBody_def)
next
  case False
  then obtain b c1 where c1: "invoke (messageCallback cb) (OnMessage (Buffer_content b)) (c\<lparr>inputBuffer := b\<rparr>) = Inr c1"
    "c' = TcpConnection_readHeader c1"
    using assms(2) by (auto simp: on_readBody_def rbind_eq_Inr)
  have "inv c1"
    using inv_invoke [OF c1(1)] assms(1) by (simp add: inv_input)
  then show ?thesis
    by (simp add: c1(2) TcpConnection_readHeader_def inv_reading)
qed

lemma inv_on_read:
  assumes "inv c" "on_read cb so err c = Inr c'"
  shows "inv c'"
proof (cases "reading c")
  case None
  then show ?thesis
    using assms by (simp add: on_read_def)
next
  case (Some x)
  have inv: "inv (c\<lparr>reading := None\<rparr>)"
    using assms(1) by (simp add: inv_reading)
  show ?thesis
  proof (cases "r_kind x")
    case ReadHeader
    then show ?thesis
      using inv_on_readHeader [OF inv] assms(2) Some by (simp add: on_read_def)
  next
    case ReadBody
    then show ?thesis
      using inv_on_readBody [OF inv] assms(2) Some by (simp add: on_read_def)
  qed
qed

lemma inv_step:
  assumes "inv c" "tcp_step cb so s c = Inr c'"
    and "\<And>i k. s \<noteq> WriteSome i k" "\<And>i. s \<noteq> WriteDone i" "\<And>i. s \<noteq> WriteFail i"
  shows "inv c'"
proof (cases s)
  case Established
  then obtain c1 where c1: "invoke_if (connectionCallback cb) (OnConnection True) (TcpConnection_setState kConnected c) = Inr c1"
    "c' = TcpConnection_readHeader c1"
    using assms(2) by (auto simp: TcpConnection_connectEstablished_def rbind_eq_Inr split: if_splits)
  then show ?thesis
    using assms(1) inv_invoke_if [OF c1(1)] by (simp add: TcpConnection_readHeader_def inv_simps)
next
  case Destroyed
  then show ?thesis
    using assms(1,2) inv_invoke [of "connectionCallback cb" "OnConnection False"]
    by (auto simp: TcpConnection_connectDestroyed_def inv_simps split: if_splits)
next
  case (Call in_loop a)
  then show ?thesis
    using assms(2) inv_call [OF assms(1)] by simp
next
  case (RunTask alive)
  show ?thesis
  proof (cases "posted c")
    case Nil
    then show ?thesis
      using RunTask assms(1,2) by simp
  next
    case (Cons t ts)
    then have "run_task cb alive t (c\<lparr>posted := ts\<rparr>) = Inr c'"
      using RunTask assms(2) by simp
    then show ?thesis
      using assms(1) inv_run_task [of "c\<lparr>posted := ts\<rparr>"] by (simp add: inv_posted)
  qed
next
  case (ReadSome bs)
  then show ?thesis
    using assms(1,2) by (auto simp: rbind_eq_Inr inv_simps split: option.splits)
qed (use assms inv_on_read [OF assms(1)] in \<open>simp_all\<close>)

end

interpretation stream: output_invariant out_inv
proof
  fix c c' e m
  show "\<not> flush_event e \<Longrightarrow> out_inv (log_event e c) = out_inv c"
    by (cases e) simp_all
  show "out_inv c \<Longrightarrow> TcpConnection_sendInThisThread True (StringPiece_of_string m) c = Inr c' \<Longrightarrow> out_inv c'"
    by (rule sendInThisThread_out)
qed simp_all

text \<open>The completion of the outstanding write acknowledges what it has transmitted.\<close>

lemma write_done_out:
  assumes "out_inv c" "enabled (WriteDone i) c" "tcp_step cb so (WriteDone i) c = Inr c'"
  shows "out_inv c'"
proof (cases "hazard c")
  case True
  then show ?thesis
    using assms(3) by (auto simp: out_inv_def on_write_def rbind_eq_Inr Let_def TcpConnection_write_def
        shutdown_when_flushed_def log_event_def split: if_splits)
next
  case False
  let ?o = "outputBuffer c"
  have wf: "Buffer_wf ?o" and fl: "flushes (events c)" and ok: "wire_ok ?o (writing c) (sent c) (wire c)"
    using assms(1) False by (auto simp: out_inv_def)
  have "i < length (writing c)"
    using assms(2) by simp
  then obtain w acked where w: "i = 0" "writing c = [w]" and len: "w_len w \<le> length (Buffer_content ?o)"
    and acked: "sent c = acked @ Buffer_content ?o" "wire c = acked @ take (w_done w) (Buffer_content ?o)"
    using wire_ok_single [OF ok] by metis
  have dn: "w_done w = w_len w"
    using assms(2) w by simp
  obtain b where b: "Buffer_retrieve (w_len w) ?o = Inr b" "Buffer_wf b"
    "Buffer_content b = drop (w_len w) (Buffer_content ?o)"
    using Buffer_retrieve_ok [OF wf len] by blast
  have eq: "on_write False (w_len w) (c\<lparr>writing := []\<rparr>) = Inr c'"
    using assms(3) w by simp
  have whole: "sent c = wire c @ Buffer_content b"
    using acked b(3) dn by simp
  show ?thesis
  proof (cases "Buffer_content b = []")
    case True
    then have r: "Buffer_readableBytes b = 0" and "wire c = sent c"
      using readable_content [OF b(2)] whole by simp_all
    then have "out_inv (c\<lparr>writing := [], outputBuffer := b\<rparr>)"
      using b(2) fl by (simp add: out_inv_def)
    then show ?thesis
      using eq b(1) r by (auto simp: on_write_def Let_def split: if_splits)
  next
    case False
    then have "Buffer_readableBytes b \<noteq> 0"
      using readable_content [OF b(2)] by simp
    then show ?thesis
      using eq b(1,2) fl wire_ok_write [OF b(2) False, of "wire c"] whole
      by (auto simp: on_write_def Let_def TcpConnection_write_def out_inv_def)
  qed
qed

lemma write_some_out:
  assumes "out_inv c" "enabled (WriteSome i k) c" "\<not> hazard c"
  obtains c' where "tcp_step cb so (WriteSome i k) c = Inr c'" "out_inv c'"
proof -
  let ?o = "outputBuffer c"
  have wf: "Buffer_wf ?o" and fl: "flushes (events c)" and ok: "wire_ok ?o (writing c) (sent c) (wire c)"
    using assms(1,3) by (auto simp: out_inv_def)
  have "i < length (writing c)"
    using assms(2) by simp
  then obtain w acked where w: "i = 0" "writing c = [w]" and fresh: "\<not> w_stale w" "w_off w = readerIndex ?o"
    and pos: "0 < w_len w" and len: "w_len w \<le> length (Buffer_content ?o)"
    and acked: "sent c = acked @ Buffer_content ?o" "wire c = acked @ take (w_done w) (Buffer_content ?o)"
    using wire_ok_single [OF ok] by metis
  have k: "w_done w + k \<le> w_len w"
    using assms(2) w by simp
  have "w_done w + k \<le> writerIndex ?o - readerIndex ?o"
    using k len wf by simp
  then have "k \<le> writerIndex ?o - (w_done w + readerIndex ?o)"
    and "k \<le> length (buffer ?o) - (w_done w + readerIndex ?o)"
    using Buffer_wfD [OF wf] by arith+
  then have mem: "mem_read k (drop (w_off w + w_done w) (buffer ?o)) = Inr (take k (drop (w_done w) (Buffer_content ?o)))"
    using fresh(2) Buffer_wfD [OF wf]
    by (simp add: mem_read_def Buffer_content_def segment_def drop_take min_def add.commute)
  let ?c' = "c\<lparr>wire := wire c @ take k (drop (w_done w) (Buffer_content ?o)),
    writing := [w\<lparr>w_done := w_done w + k\<rparr>]\<rparr>"
  have "out_inv ?c'"
    using wf fl acked k fresh pos len by (simp add: out_inv_def take_add del: length_content)
  moreover have "tcp_step cb so (WriteSome i k) c = Inr ?c'"
    using w fresh(1) mem by (simp add: Let_def)
  ultimately show ?thesis
    using that by blast
qed

lemma write_fail_out:
  assumes "out_inv c" "enabled (WriteFail i) c" "tcp_step cb so (WriteFail i) c = Inr c'"
  shows "out_inv c'"
proof (cases "hazard c")
  case False
  have ok: "wire_ok (outputBuffer c) (writing c) (sent c) (wire c)" and i: "i < length (writing c)"
    using assms(1,2) False by (auto simp: out_inv_def)
  obtain w where w: "i = 0" "writing c = [w]" "0 < w_len w" "w_len w \<le> length (Buffer_content (outputBuffer c))"
    using wire_ok_single [OF ok i] by metis
  have "Buffer_content (outputBuffer c) \<noteq> []"
    using w(3,4) by auto
  then show ?thesis
    using assms(1,3) False wire_ok_prefix [OF ok] w(1,2) by (auto simp: out_inv_def on_write_def)
qed (use assms(3) in \<open>auto simp: out_inv_def on_write_def\<close>)

lemma tcp_step_out:
  assumes "out_inv c" "enabled s c" "tcp_step cb so s c = Inr c'"
  shows "out_inv c'"
proof (cases s)
  case (WriteSome i k)
  show ?thesis
  proof (cases "hazard c")
    case True
    then show ?thesis
      using assms(3) WriteSome by (auto simp: out_inv_def Let_def rbind_eq_Inr split: if_splits)
  next
    case False
    then obtain d where "tcp_step cb so (WriteSome i k) c = Inr d" "out_inv d"
      using write_some_out [OF assms(1)] assms(2) WriteSome by blast
    then show ?thesis
      using assms(3) WriteSome by simp
  qed
next
  case (WriteDone i)
  then show ?thesis
    using write_done_out assms by blast
next
  case (WriteFail i)
  then show ?thesis
    using write_fail_out assms by blast
qed (rule stream.inv_step [OF assms(1,3)]; simp)+

lemma TcpConnection_new_result:
  assumes "TcpConnection_new = Inr c"
  shows "conn_state c = kConnecting" "Buffer_wf (inputBuffer c)" "Buffer_content (inputBuffer c) = []"
    "writerIndex (inputBuffer c) = 8" "readerIndex (inputBuffer c) = 8" "length (buffer (inputBuffer c)) = 1032"
    "outputBuffer c = inputBuffer c" "reading c = None" "writing c = []" "posted c = []" "events c = []"
    "sent c = []" "wire c = []" "\<not> hazard c"
proof -
  obtain b where b: "Buffer_new kInitialSize = Inr b" "Buffer_wf b" "Buffer_content b = []"
    "readerIndex b = kCheapPrepend" "writerIndex b = kCheapPrepend" "length (buffer b) = kCheapPrepend + kInitialSize"
    using Buffer_new_ok [of kInitialSize] by (auto simp: Buffer_consts)
  then show "conn_state c = kConnecting" "Buffer_wf (inputBuffer c)" "Buffer_content (inputBuffer c) = []"
    "writerIndex (inputBuffer c) = 8" "readerIndex (inputBuffer c) = 8" "length (buffer (inputBuffer c)) = 1032"
    "outputBuffer c = inputBuffer c" "reading c = None" "writing c = []" "posted c = []" "events c = []"
    "sent c = []" "wire c = []" "\<not> hazard c"
    using assms by (auto simp: TcpConnection_new_def Buffer_consts)
qed

lemma reach_out_inv:
  assumes "TcpConnection_new = Inr c0" "reach cb so c0 c"
  shows "out_inv c"
  using assms(2)
proof (induction rule: reach.induct)
  case start
  then show ?case
    using TcpConnection_new_result [OF assms(1)] by (simp add: out_inv_def flushes_def)
qed (rule tcp_step_out)

section \<open>Reachable connections\<close>

text \<open>C1. In every reachable state of a connection before which no send was empty and none found too little
  room behind the unsent bytes while a write was outstanding (\<open>\<not> hazard c\<close>), the bytes the socket has taken
  are a prefix of the bytes accepted for sending, in order, and all of them once the output buffer is
  empty: whatever the callbacks do and however calls, posted functions, reads and writes interleave.\<close>

theorem TcpConnection_stream_in_order:
  assumes "TcpConnection_new = Inr c0" "reach cb so c0 c" "\<not> hazard c"
  shows "prefix (wire c) (sent c) \<and> (Buffer_content (outputBuffer c) = [] \<longrightarrow> wire c = sent c)"
  using reach_out_inv [OF assms(1,2)] assms(3) wire_ok_prefix wire_ok_empty
  by (auto simp: out_inv_def)

text \<open>C11. In every reachable state before which no send was empty and none found too little room behind
  the unsent bytes while a write was outstanding, the socket has only ever been shut down for sending when
  every byte accepted until then was transmitted.\<close>

theorem TcpConnection_shutdown_after_flush:
  assumes "TcpConnection_new = Inr c0" "reach cb so c0 c" "\<not> hazard c" "ShutdownSend n m \<in> set (events c)"
  shows "n = m"
  using reach_out_inv [OF assms(1,2)] assms(3,4) by (auto simp: out_inv_def flushes_def)

text \<open>A run of enabled steps reaches its result.\<close>

lemma reach_trans: "reach cb so c1 c2 \<Longrightarrow> reach cb so c0 c1 \<Longrightarrow> reach cb so c0 c2"
  by (induction rule: reach.induct) (auto intro: reach.step)

lemma run_reach: "run_enabled cb so ss c \<Longrightarrow> run cb so ss c = Inr c' \<Longrightarrow> reach cb so c c'"
proof (induction ss arbitrary: c)
  case Nil
  then show ?case
    by (simp add: reach.start)
next
  case (Cons s ss)
  then obtain d where d: "tcp_step cb so s c = Inr d" "run cb so ss d = Inr c'"
    by (auto simp: rbind_eq_Inr)
  then have "reach cb so c d"
    using Cons.prems(1) reach.step [OF reach.start] by auto
  moreover have "reach cb so d c'"
    using Cons.IH [of d] Cons.prems(1) d by simp
  ultimately show ?case
    by (rule reach_trans [rotated])
qed

text \<open>A send into a buffer as the constructor leaves it.\<close>

lemma send_string_fresh:
  assumes "conn_state c = kConnected" "outputBuffer c = \<lparr>buffer = v, readerIndex = 8, writerIndex = 8\<rparr>"
    and "length v = 1032" "writing c = []" "s \<noteq> []" "length s \<le> 1024"
  shows "conn_call True (SendString s) c = Inr (c\<lparr>outputBuffer := \<lparr>buffer = overwrite 8 s v, readerIndex = 8,
      writerIndex = 8 + length s\<rparr>, writing := [\<lparr>w_off = 8, w_len = length s, w_done = 0, w_stale = False\<rparr>],
      sent := sent c @ s\<rparr>)"
proof -
  let ?b = "\<lparr>buffer = v, readerIndex = 8, writerIndex = 8\<rparr>"
  have wf: "Buffer_wf ?b"
    using assms(3) by (simp add: Buffer_wf_def Buffer_consts)
  have app: "Buffer_append s (length s) ?b = Inr \<lparr>buffer = overwrite 8 s v, readerIndex = 8, writerIndex = 8 + length s\<rparr>"
    using Buffer_append_in_place(1) [OF wf, of "length s" s] assms(3,6) by simp
  have wf': "Buffer_wf \<lparr>buffer = overwrite 8 s v, readerIndex = 8, writerIndex = 8 + length s\<rparr>"
    using assms(3,6) by (simp add: Buffer_wf_def Buffer_consts)
  show ?thesis
    using assms app Buffer_sizes(1) [OF wf] Buffer_sizes(1) [OF wf']
    by (simp add: TcpConnection_send_string_def TcpConnection_sendInThisThread_def StringPiece_of_string_def
        TcpConnection_write_def Let_def)
qed

definition no_callbacks :: callbacks where
  "no_callbacks = \<lparr>connectionCallback = Some (\<lambda>_. []), messageCallback = Some (\<lambda>_. []), closeCallback = Some (\<lambda>_. [])\<rparr>"

definition fresh_buffer :: Buffer where
  "fresh_buffer = \<lparr>buffer = replicate 1032 0, readerIndex = 8, writerIndex = 8\<rparr>"

definition fresh_connection :: TcpConnection where
  "fresh_connection = \<lparr>conn_state = kConnecting, inputBuffer = fresh_buffer, outputBuffer = fresh_buffer,
     reading = None, writing = [], posted = [], events = [], sent = [], wire = [], hazard = False\<rparr>"

lemma new_connection: "TcpConnection_new = Inr fresh_connection"
proof -
  have "Buffer_new kInitialSize = Inr fresh_buffer"
    by (simp add: Buffer_new_def Buffer_consts fresh_buffer_def Buffer_readableBytes_def
        Buffer_writableBytes_def Buffer_prependableBytes_def Let_def)
  then show ?thesis
    by (simp add: TcpConnection_new_def fresh_connection_def)
qed

lemmas established = TcpConnection_connectEstablished_def invoke_if_def invoke_def no_callbacks_def
  TcpConnection_setState_def log_event_def TcpConnection_readHeader_def fresh_connection_def

text \<open>Established, one send of three bytes, of which two are transmitted.\<close>

lemma sending_run:
  obtains c where "reach no_callbacks bswap_ops fresh_connection c" "\<not> hazard c"
    "sent c = [1, 2, 3]" "wire c = [1, 2]" "enabled (WriteSome 0 1) c"
proof -
  obtain c1 where c1: "tcp_step no_callbacks bswap_ops Established fresh_connection = Inr c1"
    "conn_state c1 = kConnected" "outputBuffer c1 = \<lparr>buffer = replicate 1032 0, readerIndex = 8, writerIndex = 8\<rparr>"
    "writing c1 = []" "sent c1 = []" "wire c1 = []" "\<not> hazard c1"
    by (simp add: established fresh_buffer_def)
  obtain c2 where c2: "tcp_step no_callbacks bswap_ops (Call True (SendString [1, 2, 3])) c1 = Inr c2"
    "drop 8 (buffer (outputBuffer c2)) = [1, 2, 3] @ replicate 1021 0" "\<not> hazard c2" "sent c2 = [1, 2, 3]" "wire c2 = []"
    "writing c2 = [\<lparr>w_off = 8, w_len = 3, w_done = 0, w_stale = False\<rparr>]"
    using send_string_fresh [OF c1(2,3) _ c1(4), of "[1, 2, 3]"] c1(5-7) by (simp add: overwrite_def)
  obtain c3 where c3: "tcp_step no_callbacks bswap_ops (WriteSome 0 2) c2 = Inr c3" "\<not> hazard c3"
    "sent c3 = [1, 2, 3]" "wire c3 = [1, 2]" "writing c3 = [\<lparr>w_off = 8, w_len = 3, w_done = 2, w_stale = False\<rparr>]"
    using c2 by (simp add: mem_read_def)
  have "reach no_callbacks bswap_ops fresh_connection c3"
    by (rule run_reach [of _ _ "[Established, Call True (SendString [1, 2, 3]), WriteSome 0 2]"])
       (simp_all add: c1(1) c2(1,6) c3(1) del: tcp_step.simps)
  then show ?thesis
    using that c3 by simp
qed

lemma TcpConnection_stream_in_order_witness:
  "\<exists>c. reach no_callbacks bswap_ops fresh_connection c \<and> wire c = [1, 2] \<and> prefix (wire c) (sent c)"
  using sending_run TcpConnection_stream_in_order [OF new_connection] by metis

text \<open>Established and shut down at once.\<close>

lemma TcpConnection_shutdown_after_flush_witness:
  "\<exists>c n m. reach no_callbacks bswap_ops fresh_connection c \<and> ShutdownSend n m \<in> set (events c) \<and> n = m"
proof -
  let ?ss = "[Established, Call True DoShutdown]"
  obtain c where c: "run no_callbacks bswap_ops ?ss fresh_connection = Inr c"
    "run_enabled no_callbacks bswap_ops ?ss fresh_connection" "ShutdownSend 0 0 \<in> set (events c)" "\<not> hazard c"
    by (simp add: established fresh_buffer_def TcpConnection_shutdown_def
        shutdown_when_flushed_def Buffer_readableBytes_def)
  have r: "reach no_callbacks bswap_ops fresh_connection c"
    using run_reach [OF c(2,1)] .
  show ?thesis
    by (intro exI conjI) (rule r, rule c(3), rule TcpConnection_shutdown_after_flush [OF new_connection r c(4,3)])
qed

section \<open>The life of a connection\<close>

text \<open>
  The calls of the connection and close callbacks that are possible in each state.
\<close>

fun lifecycle_event :: "conn_event \<Rightarrow> bool" where
  "lifecycle_event (OnConnection up) = True"
| "lifecycle_event OnClose = True"
| "lifecycle_event _ = False"

definition callback_events :: "TcpConnection \<Rightarrow> conn_event list" where
  "callback_events c = filter (\<lambda>e. \<not> flush_event e) (events c)"

definition lifecycle :: "TcpConnection \<Rightarrow> conn_event list" where
  "lifecycle c = filter lifecycle_event (events c)"

fun lifecycle_ok :: "StateE \<Rightarrow> conn_event list \<Rightarrow> bool" where
  "lifecycle_ok kConnecting es \<longleftrightarrow> es = []"
| "lifecycle_ok kConnected es \<longleftrightarrow> es = [OnConnection True]"
| "lifecycle_ok kDisconnecting es \<longleftrightarrow> es = [OnConnection True]"
| "lifecycle_ok kDisconnected es \<longleftrightarrow>
     es = [OnConnection True, OnConnection False] \<or> es = [OnConnection True, OnConnection False, OnClose]"

text \<open>Calls of the public operations make no such callback; the only change of state they make
  is from \<open>kConnected\<close> to \<open>kDisconnecting\<close>; and they leave the reading alone.\<close>

definition calm :: "TcpConnection \<Rightarrow> TcpConnection \<Rightarrow> bool" where
  "calm c c' \<longleftrightarrow> callback_events c' = callback_events c \<and> reading c' = reading c \<and>
     (conn_state c' = conn_state c \<or> (conn_state c = kConnected \<and> conn_state c' = kDisconnecting))"

lemma lifecycle_callback_events: "lifecycle c = filter lifecycle_event (callback_events c)"
proof -
  have "\<not> flush_event e \<and> lifecycle_event e \<longleftrightarrow> lifecycle_event e" for e
    by (cases e) auto
  then show ?thesis
    by (simp add: lifecycle_def callback_events_def)
qed

lemma calm_lifecycle: "calm c c' \<Longrightarrow> lifecycle c' = lifecycle c"
  by (simp add: calm_def lifecycle_callback_events)

lemma calm_refl [simp]: "calm c c"
  by (simp add: calm_def)

lemma calm_trans: "calm c d \<Longrightarrow> calm d e \<Longrightarrow> calm c e"
  by (auto simp: calm_def)

lemma calm_updates [simp]:
  "calm c (d\<lparr>inputBuffer := b\<rparr>) = calm c d" "calm c (d\<lparr>outputBuffer := b\<rparr>) = calm c d"
  "calm c (d\<lparr>writing := w\<rparr>) = calm c d" "calm c (d\<lparr>posted := p\<rparr>) = calm c d"
  "calm c (d\<lparr>sent := x\<rparr>) = calm c d" "calm c (d\<lparr>wire := x\<rparr>) = calm c d" "calm c (d\<lparr>hazard := h\<rparr>) = calm c d"
  by (simp_all add: calm_def callback_events_def)

lemma calm_shutdownInThisThread [simp]: "calm c (shutdown_when_flushed d) = calm c d"
  by (simp add: calm_def callback_events_def shutdown_when_flushed_def log_event_def)

lemma calm_send: "TcpConnection_sendInThisThread True v c = Inr c' \<Longrightarrow> calm c c'"
  by (auto simp: TcpConnection_sendInThisThread_def TcpConnection_write_def rbind_eq_Inr Let_def split: if_splits)

lemma calm_disconnecting: "conn_state c = kConnected \<or> conn_state c = kDisconnecting \<Longrightarrow> calm c (TcpConnection_setState kDisconnecting c)"
  by (auto simp: calm_def TcpConnection_setState_def callback_events_def)

lemma calm_call: "conn_call in_loop a c = Inr c' \<Longrightarrow> calm c c'"
  by (cases a)
     (auto simp: TcpConnection_send_buffer_def TcpConnection_send_string_def rbind_eq_Inr post_task_def
       TcpConnection_shutdown_def TcpConnection_forceClose_def Let_def calm_disconnecting
       intro: calm_send split: if_splits)

lemma calm_calls: "conn_calls as c = Inr c' \<Longrightarrow> calm c c'"
  by (induction as arbitrary: c) (auto simp: rbind_eq_Inr dest!: calm_call intro: calm_trans)

text \<open>A callback adds its own event to the history before it runs.\<close>

lemma invoke_lifecycle:
  assumes "invoke cb e c = Inr c'"
  shows "lifecycle c' = lifecycle c @ filter lifecycle_event [e]" "reading c' = reading c"
    "conn_state c' = conn_state c \<or> (conn_state c = kConnected \<and> conn_state c' = kDisconnecting)"
proof -
  have "calm (log_event e c) c'"
    using assms by (auto simp: invoke_def split: option.splits dest: calm_calls)
  then show "lifecycle c' = lifecycle c @ filter lifecycle_event [e]" "reading c' = reading c"
    "conn_state c' = conn_state c \<or> (conn_state c = kConnected \<and> conn_state c' = kDisconnecting)"
    using calm_lifecycle [of "log_event e c" c'] by (auto simp: calm_def lifecycle_def log_event_def)
qed

lemma lifecycle_ok_disconnecting:
  "lifecycle_ok s es \<Longrightarrow> s' = s \<or> (s = kConnected \<and> s' = kDisconnecting) \<Longrightarrow> lifecycle_ok s' es"
  by auto

lemma calm_lifecycle_ok:
  "calm c c' \<Longrightarrow> lifecycle_ok (conn_state c) (lifecycle c) \<Longrightarrow> lifecycle_ok (conn_state c') (lifecycle c')"
  using calm_lifecycle [of c c'] by (auto simp: calm_def)

lemma handleClose_lifecycle:
  assumes "TcpConnection_handleClose True cb c = Inr c'" "connectionCallback cb \<noteq> None"
    and "lifecycle_ok (conn_state c) (lifecycle c)"
  shows "conn_state c' = kDisconnected \<and> lifecycle_ok kDisconnected (lifecycle c')"
proof -
  let ?d = "TcpConnection_setState kDisconnected c"
  obtain c1 where st: "conn_state c = kConnected \<or> conn_state c = kDisconnecting"
    and c1: "invoke (connectionCallback cb) (OnConnection False) ?d = Inr c1"
    "invoke_if (closeCallback cb) OnClose c1 = Inr c'"
    using assms(1,2) by (auto simp: TcpConnection_handleClose_def rbind_eq_Inr invoke_if_def split: if_splits)
  have up: "lifecycle ?d = [OnConnection True]" "conn_state ?d = kDisconnected"
    using st assms(3) by (auto simp: TcpConnection_setState_def lifecycle_def)
  then have d1: "lifecycle c1 = [OnConnection True, OnConnection False]" "conn_state c1 = kDisconnected"
    using invoke_lifecycle [OF c1(1)] by auto
  show ?thesis
  proof (cases "closeCallback cb")
    case None
    then show ?thesis
      using c1(2) d1 by (simp add: invoke_if_def)
  next
    case (Some f)
    then have "invoke (closeCallback cb) OnClose c1 = Inr c'"
      using c1(2) by (simp add: invoke_if_def)
    from invoke_lifecycle [OF this] show ?thesis
      using d1 by auto
  qed
qed

lemma run_task_lifecycle:
  assumes "run_task cb alive t c = Inr c'" "connectionCallback cb \<noteq> None"
    and "lifecycle_ok (conn_state c) (lifecycle c)"
  shows "lifecycle_ok (conn_state c') (lifecycle c')"
proof (cases t)
  case RunForceClose
  then show ?thesis
    using assms handleClose_lifecycle [of cb c c']
    by (auto simp: TcpConnection_forceCloseInThisThread_def split: if_splits)
next
  case RunShutdown
  then have "calm c c'"
    using assms(1) by auto
  then show ?thesis
    using assms(3) by (rule calm_lifecycle_ok)
next
  case (RunSend s)
  then have "calm c c'"
    using assms(1) by (simp add: calm_send)
  then show ?thesis
    using assms(3) by (rule calm_lifecycle_ok)
next
  case (RunSendView s)
  then have "calm c c'"
    using assms(1) by (auto split: if_splits intro: calm_send)
  then show ?thesis
    using assms(3) by (rule calm_lifecycle_ok)
qed

lemma on_read_lifecycle:
  assumes "on_read cb so err c = Inr c'" "connectionCallback cb \<noteq> None"
    and "lifecycle_ok (conn_state c) (lifecycle c)"
  shows "lifecycle_ok (conn_state c') (lifecycle c')"
proof (cases "reading c = None \<or> err")
  case True
  have "lifecycle_ok (conn_state (c\<lparr>reading := None\<rparr>)) (lifecycle (c\<lparr>reading := None\<rparr>))"
    using assms(3) by (simp add: lifecycle_def)
  then show ?thesis
    using True assms handleClose_lifecycle [OF _ assms(2), of "c\<lparr>reading := None\<rparr>" c']
    by (auto simp: on_read_def on_readHeader_def on_readBody_def split: option.splits read_kind.splits)
next
  case False
  then obtain x where x: "reading c = Some x" "\<not> err"
    by auto
  show ?thesis
  proof (cases "r_kind x")
    case ReadHeader
    then have "conn_state c' = conn_state c \<and> lifecycle c' = lifecycle c"
      using assms(1) x
      by (auto simp: on_read_def on_readHeader_def rbind_eq_Inr TcpConnection_readBody_def lifecycle_def)
    then show ?thesis
      using assms(3) by simp
  next
    case ReadBody
    then obtain d c1 where "invoke (messageCallback cb) (OnMessage (Buffer_content d)) (c\<lparr>reading := None, inputBuffer := d\<rparr>) = Inr c1"
      and "c' = TcpConnection_readHeader c1"
      using assms(1) x by (auto simp: on_read_def on_readBody_def rbind_eq_Inr)
    then have "lifecycle c' = lifecycle c"
      "conn_state c' = conn_state c \<or> (conn_state c = kConnected \<and> conn_state c' = kDisconnecting)"
      using invoke_lifecycle by (fastforce simp: TcpConnection_readHeader_def lifecycle_def)+
    then show ?thesis
      using assms(3) lifecycle_ok_disconnecting by metis
  qed
qed

lemma tcp_step_lifecycle:
  assumes "tcp_step cb so s c = Inr c'" "connectionCallback cb \<noteq> None"
    and "lifecycle_ok (conn_state c) (lifecycle c)"
  shows "lifecycle_ok (conn_state c') (lifecycle c')"
proof (cases s)
  case Established
  then obtain c1 where k: "conn_state c = kConnecting" and c1:
    "invoke (connectionCallback cb) (OnConnection True) (TcpConnection_setState kConnected c) = Inr c1"
    "c' = TcpConnection_readHeader c1"
    using assms(1,2) by (auto simp: TcpConnection_connectEstablished_def rbind_eq_Inr invoke_if_def split: if_splits)
  then have "lifecycle c1 = [OnConnection True]" "conn_state c1 = kConnected \<or> conn_state c1 = kDisconnecting"
    using invoke_lifecycle [OF c1(1)] assms(3) by (auto simp: TcpConnection_setState_def lifecycle_def)
  then show ?thesis
    using c1(2) by (auto simp: TcpConnection_readHeader_def lifecycle_def)
next
  case Destroyed
  show ?thesis
  proof (cases "conn_state c = kConnected")
    case True
    let ?d = "TcpConnection_setState kDisconnected c"
    have d: "invoke (connectionCallback cb) (OnConnection False) ?d = Inr c'"
      using Destroyed True assms(1) by (simp add: TcpConnection_connectDestroyed_def)
    have "lifecycle ?d = [OnConnection True]" "conn_state ?d = kDisconnected"
      using True assms(3) by (auto simp: TcpConnection_setState_def lifecycle_def)
    then show ?thesis
      using invoke_lifecycle [OF d] by auto
  next
    case False
    then show ?thesis
      using Destroyed assms by (simp add: TcpConnection_connectDestroyed_def)
  qed
next
  case (Call in_loop a)
  then have "calm c c'"
    using assms(1) by (auto dest: calm_call)
  then show ?thesis
    using assms(3) by (rule calm_lifecycle_ok)
next
  case (RunTask alive)
  show ?thesis
  proof (cases "posted c")
    case Nil
    then show ?thesis
      using RunTask assms by simp
  next
    case (Cons t ts)
    then have "run_task cb alive t (c\<lparr>posted := ts\<rparr>) = Inr c'"
      using RunTask assms(1) by simp
    then show ?thesis
      by (rule run_task_lifecycle [OF _ assms(2)]) (use assms(3) in \<open>simp add: lifecycle_def\<close>)
  qed
next
  case (ReadSome bs)
  then have "conn_state c' = conn_state c \<and> lifecycle c' = lifecycle c"
    using assms(1) by (auto simp: lifecycle_def rbind_eq_Inr split: option.splits)
  then show ?thesis
    using assms(3) by simp
next
  case (WriteSome i k)
  then have "conn_state c' = conn_state c \<and> lifecycle c' = lifecycle c"
    using assms(1) by (auto simp: lifecycle_def rbind_eq_Inr Let_def split: if_splits)
  then show ?thesis
    using assms(3) by simp
next
  case (WriteDone i)
  then have "calm c c'"
    using assms(1) by (auto simp: on_write_def rbind_eq_Inr Let_def TcpConnection_write_def split: if_splits)
  then show ?thesis
    using assms(3) by (rule calm_lifecycle_ok)
next
  case (WriteFail i)
  then have "calm c c'"
    using assms(1) by (auto simp: on_write_def)
  then show ?thesis
    using assms(3) by (rule calm_lifecycle_ok)
qed (use assms on_read_lifecycle in simp_all)

text \<open>C3. Whatever happens to a connection with a connection callback, the callback is made
  once when it is established and once more when it goes down, never in another order; the
  close callback is made at most once, after that; and \<open>state_\<close> always says how far this
  is.\<close>

theorem TcpConnection_callback_protocol:
  assumes "TcpConnection_new = Inr c0" "reach cb so c0 c" "connectionCallback cb \<noteq> None"
  shows "lifecycle_ok (conn_state c) (filter lifecycle_event (events c))"
proof -
  have "lifecycle_ok (conn_state c) (lifecycle c)"
    using assms(2)
  proof (induction rule: reach.induct)
    case start
    then show ?case
      using TcpConnection_new_result [OF assms(1)] by (simp add: lifecycle_def)
  next
    case (step c s c')
    then show ?case
      using tcp_step_lifecycle [OF _ assms(3)] by blast
  qed
  then show ?thesis
    by (simp add: lifecycle_def)
qed

text \<open>Established, and the first read fails.\<close>

lemma TcpConnection_callback_protocol_witness:
  "\<exists>c. reach no_callbacks bswap_ops fresh_connection c \<and> conn_state c = kDisconnected
    \<and> lifecycle_ok kDisconnected (filter lifecycle_event (events c))"
proof -
  let ?ss = "[Established, ReadFail]"
  obtain c where c: "run no_callbacks bswap_ops ?ss fresh_connection = Inr c"
    "run_enabled no_callbacks bswap_ops ?ss fresh_connection" "conn_state c = kDisconnected"
    by (simp add: established on_read_def on_readHeader_def TcpConnection_handleClose_def)
  then show ?thesis
    using TcpConnection_callback_protocol [OF new_connection run_reach [OF c(2,1)]] run_reach [OF c(2,1)]
    by (intro exI [of _ c]) (simp add: no_callbacks_def)
qed

section \<open>Closing by force\<close>

lemma disconnected_fault:
  "conn_call in_loop a c = Inl e \<Longrightarrow> conn_state c = kDisconnected \<Longrightarrow> a \<notin> range Fail \<Longrightarrow> e = AssertFailed"
  by (cases a)
     (auto simp: TcpConnection_send_buffer_def TcpConnection_send_string_def TcpConnection_shutdown_def rbind_eq_Inl
       Buffer_retrieve_def split: if_splits)

lemma disconnected_calls_fault:
  "conn_calls as c = Inl e \<Longrightarrow> conn_state c = kDisconnected \<Longrightarrow> set as \<inter> range Fail = {} \<Longrightarrow> e = AssertFailed"
proof (induction as arbitrary: c)
  case (Cons a as)
  show ?case
  proof (cases "conn_call True a c")
    case (Inl e')
    then show ?thesis
      using Cons.prems disconnected_fault [OF Inl] by auto
  next
    case (Inr d)
    then have "conn_state d = kDisconnected"
      using Cons.prems(2) calm_call [OF Inr] by (auto simp: calm_def)
    then show ?thesis
      using Cons Inr by auto
  qed
qed simp

text \<open>A callback whose own code does not fault.\<close>

definition plain :: "(TcpConnection \<Rightarrow> conn_action list) option \<Rightarrow> bool" where
  "plain cb \<longleftrightarrow> (\<forall>f c. cb = Some f \<longrightarrow> set (f c) \<inter> range Fail = {})"

lemma disconnected_invoke:
  assumes "conn_state c = kDisconnected" "plain cb"
  shows "invoke_if cb e c = Inl AssertFailed
    \<or> (\<exists>d. invoke_if cb e c = Inr d \<and> conn_state d = kDisconnected \<and> reading d = reading c)"
proof (cases cb)
  case None
  then show ?thesis
    using assms by (simp add: invoke_if_def)
next
  case (Some f)
  let ?c = "log_event e c"
  have c: "conn_state ?c = kDisconnected" "reading ?c = reading c"
    using assms by (simp_all add: log_event_def)
  show ?thesis
  proof (cases "conn_calls (f ?c) ?c")
    case (Inl x)
    then show ?thesis
      using disconnected_calls_fault [OF Inl c(1)] Some assms(2) by (simp add: invoke_if_def invoke_def plain_def)
  next
    case (Inr d)
    then show ?thesis
      using calm_calls [OF Inr] c Some by (auto simp: invoke_if_def invoke_def calm_def)
  qed
qed

text \<open>\<open>forceClose\<close> does not cancel the outstanding read: when that read then fails, as it
  does once the peer closes its end, \<open>handleClose\<close> runs a second time and its assertion on
  the state ends the process.\<close>

lemma TcpConnection_forceClose_aborts:
  assumes "conn_state c = kConnected \<or> conn_state c = kDisconnecting" "posted c = []" "reading c \<noteq> None"
    and "plain (connectionCallback cb)" "plain (closeCallback cb)"
  shows "run cb so [Call True DoForceClose, RunTask True, ReadFail] c = Inl AssertFailed"
proof -
  let ?c = "c\<lparr>conn_state := kDisconnecting, posted := []\<rparr>"
  let ?d = "c\<lparr>posted := [], conn_state := kDisconnected\<rparr>"
  have run: "run cb so [Call True DoForceClose, RunTask True, ReadFail] c
      = rbind (TcpConnection_handleClose True cb ?c) (\<lambda>d. rbind (on_read cb so True d) Inr)"
    using assms(1,2)
    by (auto simp: TcpConnection_forceClose_def TcpConnection_setState_def post_task_def
        TcpConnection_forceCloseInThisThread_def intro!: rbind_cong)
  have close: "TcpConnection_handleClose True cb ?c
      = rbind (invoke_if (connectionCallback cb) (OnConnection False) ?d) (invoke_if (closeCallback cb) OnClose)"
    by (simp add: TcpConnection_handleClose_def TcpConnection_setState_def)
  have "TcpConnection_handleClose True cb ?c = Inl AssertFailed
    \<or> (\<exists>d. TcpConnection_handleClose True cb ?c = Inr d \<and> conn_state d = kDisconnected \<and> reading d = reading c)"
    unfolding close using disconnected_invoke [of ?d "connectionCallback cb" "OnConnection False"]
      disconnected_invoke [of _ "closeCallback cb" OnClose] assms(4,5) by fastforce
  moreover have "on_read cb so True d = Inl AssertFailed" if "conn_state d = kDisconnected" "reading d = reading c" for d
    using that assms(3)
    by (auto simp: on_read_def on_readHeader_def on_readBody_def TcpConnection_handleClose_def split: read_kind.splits)
  ultimately show ?thesis
    unfolding run by auto
qed

lemma TcpConnection_forceClose_aborts_witness:
  "run no_callbacks bswap_ops [Established, Call True DoForceClose, RunTask True, ReadFail] fresh_connection
    = Inl AssertFailed"
proof -
  obtain c where c: "tcp_step no_callbacks bswap_ops Established fresh_connection = Inr c"
    "conn_state c = kConnected" "posted c = []" "reading c \<noteq> None"
    by (simp add: established)
  then show ?thesis
    using TcpConnection_forceClose_aborts [of c no_callbacks bswap_ops] by (simp add: plain_def no_callbacks_def)
qed

section \<open>Sends while a write is outstanding\<close>

text \<open>An append that outgrows the vector leaves it exactly as long as what it then holds.\<close>

lemma Buffer_append_grows:
  assumes wf: "Buffer_wf b" and few: "Buffer_writableBytes b < n"
    and grow: "length (buffer b) - writerIndex b + readerIndex b < n + 8"
    and max: "writerIndex b + n \<le> vec_max_size" and data: "n \<le> length bs"
  obtains b' where "Buffer_append bs n b = Inr b'" "length (buffer b') = writerIndex b + n"
    "length (buffer b) < writerIndex b + n"
proof -
  note D = Buffer_wfD [OF wf]
  have lt: "length (buffer b) < writerIndex b + n"
    using few wf by simp
  let ?b = "b\<lparr>buffer := take (writerIndex b + n) (buffer b) @ replicate (writerIndex b + n - length (buffer b)) 0\<rparr>"
  have len: "length (buffer ?b) = writerIndex b + n"
    using lt by simp
  have wf': "Buffer_wf ?b"
    using wf max len lt D by (simp add: Buffer_wf_def)
  have sum: "writerIndex b + n < 2 ^ 64"
    using max by (simp add: vec_max_size_def)
  have "Buffer_makeSpace n b = Inr ?b"
    using grow max D wf sum by (simp add: Buffer_makeSpace_def Buffer_consts)
  then have "Buffer_ensureWritableBytes n b = Inr ?b"
    using few Buffer_sizes(2) [OF wf'] len by (simp add: Buffer_ensureWritableBytes_def)
  moreover have "Buffer_ensureWritableBytes n ?b = Inr ?b"
    using wf' len by (intro Buffer_ensureWritableBytes_id) simp_all
  ultimately have "Buffer_append bs n b = Buffer_append bs n ?b"
    by (simp add: Buffer_append_def)
  moreover have fit: "writerIndex ?b + n \<le> length (buffer ?b)"
    using len by simp
  ultimately have "Buffer_append bs n b = Inr (?b\<lparr>buffer := overwrite (writerIndex b) (take n bs) (buffer ?b),
      writerIndex := writerIndex b + n\<rparr>)"
    using Buffer_append_in_place(1) [OF wf' fit data] by simp
  then show ?thesis
    using that len lt data by simp
qed

text \<open>A send that outgrows the output buffer while a write is outstanding resizes the
  vector under the write: its next access goes through a dangling pointer.\<close>

lemma TcpConnection_growth_dangles:
  assumes "TcpConnection_new = Inr c0" "reach cb so c0 c" "\<not> hazard c"
    and "conn_state c = kConnected" "writing c \<noteq> []" "length s < 2 ^ 31"
    and "Buffer_writableBytes (outputBuffer c) < length s"
    and "length (buffer (outputBuffer c)) - writerIndex (outputBuffer c) + readerIndex (outputBuffer c) < length s + 8"
    and "writerIndex (outputBuffer c) + length s \<le> vec_max_size"
  shows "\<exists>c'. tcp_step cb so (Call True (SendString s)) c = Inr c' \<and> sent c' = sent c @ s
    \<and> tcp_step cb so (WriteSome 0 k) c' = Inl UseAfterFree"
proof -
  have wf: "Buffer_wf (outputBuffer c)" and ok: "wire_ok (outputBuffer c) (writing c) (sent c) (wire c)"
    using reach_out_inv [OF assms(1,2)] assms(3) by (auto simp: out_inv_def)
  obtain b where b: "Buffer_append s (length s) (outputBuffer c) = Inr b"
    "length (buffer b) = writerIndex (outputBuffer c) + length s"
    "length (buffer (outputBuffer c)) < writerIndex (outputBuffer c) + length s"
    using Buffer_append_grows [OF wf assms(7-9) order_refl] .
  have "Buffer_readableBytes (outputBuffer c) \<noteq> 0"
    using wire_ok_empty [OF ok] readable_content [OF wf] assms(5) by auto
  then show ?thesis
    using assms(4-6) b
    by (auto simp: TcpConnection_send_string_def TcpConnection_sendInThisThread_def StringPiece_of_string_def Let_def)
qed

text \<open>An append that finds room only by moving the content to the front keeps the length of the vector.\<close>

lemma Buffer_append_compacts:
  assumes wf: "Buffer_wf b" and eq: "Buffer_append bs n b = Inr b'" and few: "Buffer_writableBytes b < n"
    and room: "8 + (writerIndex b - readerIndex b) + n \<le> length (buffer b)"
  shows "length (buffer b') = length (buffer b)"
proof -
  note D = Buffer_wfD [OF wf]
  have "n \<le> length (buffer b)"
    using room by arith
  then have n: "n \<le> vec_max_size"
    using wf by (simp add: Buffer_wf_def)
  obtain c where c: "Buffer_ensureWritableBytes n b = Inr c" "n \<le> length bs"
    using eq by (auto simp: Buffer_append_def rbind_eq_Inr mem_read_def split: if_splits)
  obtain d where d: "Buffer_makeSpace n b = Inr d" "c = d"
    using c(1) few by (auto simp: Buffer_ensureWritableBytes_def rbind_eq_Inr split: if_splits)
  have len: "length (buffer c) = length (buffer b)"
    using d room few wf D by (auto simp: Buffer_makeSpace_def Buffer_consts rbind_eq_Inr Let_def vec_store_def split: if_splits)
  have fits: "Buffer_fits n b"
    by (rule Buffer_append_fits [OF wf n eq])
  have ok: "Buffer_wf c" "writerIndex c + n \<le> length (buffer c)"
    using Buffer_ensureWritableBytes_ok [OF wf fits] c(1) by (metis sum.inject(2))+
  have "Buffer_append bs n c = Inr b'"
    using eq c(1) Buffer_ensureWritableBytes_id [OF ok] by (simp add: Buffer_append_def)
  then show ?thesis
    using Buffer_append_in_place(1) [OF ok c(2)] len ok(2) by auto
qed

text \<open>An append resizes the vector exactly when the free bytes at both ends are too few.\<close>

lemma Buffer_append_resizes:
  assumes wf: "Buffer_wf b" and eq: "Buffer_append bs n b = Inr b'" and n: "n \<le> vec_max_size"
  shows "length (buffer b') \<noteq> length (buffer b) \<longleftrightarrow>
    Buffer_writableBytes b < n \<and> length (buffer b) - writerIndex b + readerIndex b < n + 8"
proof -
  note D = Buffer_wfD [OF wf]
  have data: "n \<le> length bs" and fits: "Buffer_fits n b"
    using Buffer_append_InrD [OF wf eq n] Buffer_append_fits [OF wf n eq] by simp_all
  have le: "length (buffer b') \<le> max (length (buffer b)) (writerIndex b + n)"
    using Buffer_append_ok [OF wf fits data] eq by (metis sum.inject(2))
  show ?thesis
  proof (cases "Buffer_writableBytes b < n \<and> length (buffer b) - writerIndex b + readerIndex b < n + 8")
    case True
    then have "writerIndex b + n \<le> vec_max_size"
      using fits D by (auto simp: Buffer_fits_def Buffer_consts)
    then show ?thesis
      using Buffer_append_grows [OF wf _ _ _ data] True eq by (metis less_irrefl sum.inject(2))
  next
    case False
    have "length (buffer b') = length (buffer b)"
    proof (cases "Buffer_writableBytes b < n")
      case True
      then have "8 + (writerIndex b - readerIndex b) + n \<le> length (buffer b)"
        using False D wf by simp
      then show ?thesis
        using Buffer_append_compacts [OF wf eq True] D by simp
    next
      case False
      then have "writerIndex b + n \<le> length (buffer b)"
        using wf D by simp
      then show ?thesis
        using Buffer_append_in_place(1) [OF wf _ data] eq by auto
    qed
    then show ?thesis
      using False by simp
  qed
qed



lemma overwrite_Nil [simp]: "overwrite i [] xs = xs"
  by (simp add: overwrite_def)

text \<open>Two sends in a row on an idle connection, the first one empty, start two writes:
  the second message is transmitted twice, and the completion of the second copy fails the
  assertion in \<open>retrieve\<close>.\<close>

lemma TcpConnection_empty_send_duplicates:
  assumes "conn_state c = kConnected" "writing c = []" "Buffer_wf (outputBuffer c)"
    and "Buffer_content (outputBuffer c) = []" "s \<noteq> []" "length s < 2 ^ 31"
    and "writerIndex (outputBuffer c) + length s \<le> length (buffer (outputBuffer c))"
  defines "n \<equiv> length s"
  defines "steps \<equiv> [Call True (SendString []), Call True (SendString s), WriteDone 0, WriteSome 0 n, WriteSome 1 n]"
  shows "\<exists>c'. run cb so steps c = Inr c' \<and> wire c' = wire c @ s @ s
    \<and> run cb so (steps @ [WriteDone 0, WriteDone 0]) c = Inl AssertFailed"
proof -
  let ?o = "outputBuffer c" and ?w = "\<lambda>n d. \<lparr>w_off = writerIndex (outputBuffer c), w_len = n, w_done = d, w_stale = False\<rparr>"
  have r: "readerIndex ?o = writerIndex ?o"
    using assms(3,4) length_content [OF assms(3)] Buffer_wfD(1) [OF assms(3)] by simp
  have o: "Buffer_append [] 0 ?o = Inr ?o"
    using Buffer_append_in_place(1) [OF assms(3), of 0 "[]"] Buffer_wfD(2) [OF assms(3)] by simp
  define b where "b = ?o\<lparr>buffer := overwrite (writerIndex ?o) s (buffer ?o), writerIndex := writerIndex ?o + n\<rparr>"
  have b: "Buffer_append s n ?o = Inr b" "Buffer_wf b" "Buffer_content b = s"
    using Buffer_append_in_place [OF assms(3,7) order_refl] assms(4) by (simp_all add: b_def n_def)
  have nz: "Buffer_readableBytes ?o = 0" "Buffer_readableBytes b = n" "0 < n"
    using readable_content [OF assms(3)] readable_content [OF b(2)] assms(4,5) b(3) by (simp_all add: n_def)
  have rb: "readerIndex b = writerIndex ?o" "length (buffer b) = length (buffer ?o)"
    using assms(7) r by (simp_all add: b_def)
  have mem: "mem_read n (drop (writerIndex ?o) (buffer b)) = Inr s"
    using assms(7) by (simp add: b_def overwrite_def n_def mem_read_def)
  define c1 where "c1 = c\<lparr>writing := [?w 0 0], hazard := True\<rparr>"
  have 1: "tcp_step cb so (Call True (SendString [])) c = Inr c1"
    using assms(1,2) o nz(1) r
    by (simp add: c1_def TcpConnection_send_string_def TcpConnection_sendInThisThread_def
        StringPiece_of_string_def TcpConnection_write_def Let_def)
  define c2 where "c2 = c\<lparr>outputBuffer := b, writing := [?w 0 0, ?w n 0], sent := sent c @ s, hazard := True\<rparr>"
  have 2: "tcp_step cb so (Call True (SendString s)) c1 = Inr c2"
    using assms(1,6) b(1) nz rb
    by (simp add: c1_def c2_def TcpConnection_send_string_def TcpConnection_sendInThisThread_def
        StringPiece_of_string_def TcpConnection_write_def Let_def n_def)
  define c3 where "c3 = c2\<lparr>writing := [?w n 0, ?w n 0]\<rparr>"
  have "Buffer_retrieve 0 b = Inr b"
    using nz Buffer_wfD [OF b(2)] by (simp add: Buffer_retrieve_def)
  then have 3: "tcp_step cb so (WriteDone 0) c2 = Inr c3"
    using nz rb by (simp add: c2_def c3_def on_write_def remove_nth_def Let_def TcpConnection_write_def)
  define c4 where "c4 = c2\<lparr>writing := [?w n n, ?w n 0], wire := wire c @ s\<rparr>"
  have 4: "tcp_step cb so (WriteSome 0 n) c3 = Inr c4"
    using mem by (simp add: c2_def c3_def c4_def)
  define c5 where "c5 = c2\<lparr>writing := [?w n n, ?w n n], wire := wire c @ s @ s\<rparr>"
  have 5: "tcp_step cb so (WriteSome 1 n) c4 = Inr c5"
    using mem by (simp add: c2_def c4_def c5_def)
  have "Buffer_retrieve n b = Inr (Buffer_retrieveAll b)" "Buffer_readableBytes (Buffer_retrieveAll b) = 0"
    using nz by (simp_all add: Buffer_retrieve_def Buffer_retrieveAll_def Buffer_readableBytes_def kCheapPrepend_def)
  then have 6: "tcp_step cb so (WriteDone 0) c5 = Inr (c5\<lparr>outputBuffer := Buffer_retrieveAll b, writing := [?w n n]\<rparr>)"
    using assms(1) by (simp add: c2_def c5_def on_write_def remove_nth_def Let_def)
  have 7: "tcp_step cb so (WriteDone 0) (c5\<lparr>outputBuffer := Buffer_retrieveAll b, writing := [?w n n]\<rparr>) = Inl AssertFailed"
    using nz(3) by (simp add: on_write_def Buffer_retrieve_def Buffer_retrieveAll_def Buffer_readableBytes_def
        kCheapPrepend_def)
  have "wire c5 = wire c @ s @ s"
    by (simp add: c5_def)
  then show ?thesis
    using 1 2 3 4 5 6 7 by (simp add: steps_def del: tcp_step.simps One_nat_def)
qed

section \<open>After a failed write\<close>

text \<open>The completion handler of a failed write leaves the bytes in the output buffer, and every
  later send finds it not empty.\<close>

definition stuck :: "byte list \<Rightarrow> TcpConnection \<Rightarrow> bool" where
  "stuck out c \<longleftrightarrow> hazard c \<or>
     (Buffer_wf (outputBuffer c) \<and> Buffer_content (outputBuffer c) \<noteq> [] \<and> writing c = [] \<and> wire c = out)"

lemma stuck_send:
  assumes "stuck out c" "TcpConnection_sendInThisThread True (StringPiece_of_string s) c = Inr c'"
  shows "stuck out c'"
proof (cases "hazard c' \<or> conn_state c = kDisconnected")
  case True
  then show ?thesis
    using assms by (auto simp: stuck_def TcpConnection_sendInThisThread_def)
next
  case False
  let ?o = "outputBuffer c" and ?n = "size_of_int (len (StringPiece_of_string s))"
  obtain b where b: "Buffer_append s ?n ?o = Inr b" "outputBuffer c' = b" "wire c' = wire c"
    and h: "hazard c' \<longleftrightarrow> hazard c \<or> len (StringPiece_of_string s) \<le> 0
      \<or> (writing c \<noteq> [] \<and> Buffer_writableBytes ?o < ?n)"
    and w: "writing c' = (if length (buffer b) \<noteq> length (buffer ?o)
        then map (\<lambda>w. w\<lparr>w_stale := True\<rparr>) (writing c) else writing c)
      @ (if Buffer_readableBytes ?o = 0
         then [\<lparr>w_off = readerIndex b, w_len = Buffer_readableBytes b, w_done = 0, w_stale = False\<rparr>] else [])"
    using sendInThisThread_result [OF assms(2)] False by blast
  have inv: "Buffer_wf ?o" "Buffer_content ?o \<noteq> []" "writing c = []" "wire c = out" "\<not> hazard c"
    and pos: "0 < len (StringPiece_of_string s)"
    using assms(1) h False by (auto simp: stuck_def)
  have "Buffer_readableBytes ?o \<noteq> 0"
    using readable_content [OF inv(1)] inv(2) by simp
  then show ?thesis
    using Buffer_append_InrD [OF inv(1) b(1) positive_view(1) [OF pos]] b w inv
    by (simp add: stuck_def)
qed

interpretation stuck: output_invariant "stuck out" for out
proof
  fix c c' e m
  show "stuck out c \<Longrightarrow> TcpConnection_sendInThisThread True (StringPiece_of_string m) c = Inr c' \<Longrightarrow> stuck out c'"
    by (rule stuck_send)
qed (simp_all add: stuck_def log_event_def shutdown_when_flushed_def)

lemma stuck_step:
  assumes "stuck out c" "enabled s c" "tcp_step cb so s c = Inr c'"
  shows "stuck out c'"
proof (cases "hazard c")
  case True
  have "hazard c'" if "s = WriteSome i k \<or> s = WriteDone i \<or> s = WriteFail i" for i k
    using that True assms(3)
    by (auto simp: on_write_def rbind_eq_Inr Let_def TcpConnection_write_def
        shutdown_when_flushed_def log_event_def split: if_splits)
  then show ?thesis
    using stuck.inv_step [OF assms(1,3)] by (meson stuck_def)
next
  case False
  then have "writing c = []"
    using assms(1) by (simp add: stuck_def)
  then have "\<And>i k. s \<noteq> WriteSome i k" "\<And>i. s \<noteq> WriteDone i" "\<And>i. s \<noteq> WriteFail i"
    using assms(2) by auto
  then show ?thesis
    using stuck.inv_step [OF assms(1,3)] by blast
qed

text \<open>Once a write has failed with the connection not closed, nothing is ever
  transmitted again: whatever is sent later, and also after \<open>operation_would_block\<close>, which the
  handler's comment calls no real error, no write is started.\<close>

lemma TcpConnection_stuck_after_write_error:
  assumes "TcpConnection_new = Inr c0" "reach cb so c0 c" "\<not> hazard c" "enabled (WriteFail i) c"
    and "tcp_step cb so (WriteFail i) c = Inr c1" "reach cb so c1 c2" "\<not> hazard c2"
  shows "wire c2 = wire c \<and> writing c2 = []"
proof -
  have wf: "Buffer_wf (outputBuffer c)" and ok: "wire_ok (outputBuffer c) (writing c) (sent c) (wire c)"
    using reach_out_inv [OF assms(1,2)] assms(3) by (auto simp: out_inv_def)
  have "i < length (writing c)"
    using assms(4) by simp
  then obtain w where w: "i = 0" "writing c = [w]" "0 < w_len w" "w_len w \<le> length (Buffer_content (outputBuffer c))"
    using wire_ok_single [OF ok] by metis
  then have "Buffer_content (outputBuffer c) \<noteq> []"
    by auto
  then have "stuck (wire c) c1"
    using assms(3,5) wf w(1,2) by (auto simp: stuck_def on_write_def)
  with assms(6) have "stuck (wire c) c2"
    by (induction rule: reach.induct) (auto intro: stuck_step)
  then show ?thesis
    using assms(7) by (simp add: stuck_def)
qed

section \<open>Runs of the sending side\<close>

lemma established_run:
  obtains c where "tcp_step no_callbacks bswap_ops Established fresh_connection = Inr c"
    "conn_state c = kConnected" "outputBuffer c = fresh_buffer" "writing c = []" "sent c = []" "wire c = []"
    "\<not> hazard c" "posted c = []"
  by (simp add: established)

text \<open>Established, and a first send of up to 1024 bytes.\<close>

lemma first_send_run:
  assumes "s \<noteq> []" "length s \<le> 1024"
  obtains c where "reach no_callbacks bswap_ops fresh_connection c" "\<not> hazard c" "conn_state c = kConnected"
    "outputBuffer c = \<lparr>buffer = overwrite 8 s (replicate 1032 0), readerIndex = 8, writerIndex = 8 + length s\<rparr>"
    "writing c = [\<lparr>w_off = 8, w_len = length s, w_done = 0, w_stale = False\<rparr>]" "sent c = s" "wire c = []"
proof -
  obtain c1 where c1: "tcp_step no_callbacks bswap_ops Established fresh_connection = Inr c1"
    "conn_state c1 = kConnected" "outputBuffer c1 = fresh_buffer" "writing c1 = []" "sent c1 = []" "wire c1 = []"
    "\<not> hazard c1"
    by (rule established_run)
  let ?c = "c1\<lparr>outputBuffer := \<lparr>buffer = overwrite 8 s (replicate 1032 0), readerIndex = 8, writerIndex = 8 + length s\<rparr>,
    writing := [\<lparr>w_off = 8, w_len = length s, w_done = 0, w_stale = False\<rparr>], sent := sent c1 @ s\<rparr>"
  have "tcp_step no_callbacks bswap_ops (Call True (SendString s)) c1 = Inr ?c"
    using send_string_fresh [OF c1(2) c1(3) [unfolded fresh_buffer_def] _ c1(4) assms] by simp
  then have "reach no_callbacks bswap_ops fresh_connection ?c"
    by (intro run_reach [of _ _ "[Established, Call True (SendString s)]"]) (simp_all add: c1(1) del: tcp_step.simps)
  then show ?thesis
    by (rule that) (simp_all add: c1)
qed

lemma TcpConnection_growth_dangles_witness:
  "\<exists>c c'. reach no_callbacks bswap_ops fresh_connection c
    \<and> tcp_step no_callbacks bswap_ops (Call True (SendString (replicate 100 2))) c = Inr c'
    \<and> tcp_step no_callbacks bswap_ops (WriteSome 0 1) c' = Inl UseAfterFree"
proof -
  obtain c where c: "reach no_callbacks bswap_ops fresh_connection c" "\<not> hazard c" "conn_state c = kConnected"
    "outputBuffer c = \<lparr>buffer = overwrite 8 (replicate 1000 1) (replicate 1032 0), readerIndex = 8, writerIndex = 8 + length (replicate 1000 (1 :: byte))\<rparr>"
    "writing c = [\<lparr>w_off = 8, w_len = length (replicate 1000 (1 :: byte)), w_done = 0, w_stale = False\<rparr>]"
    by (rule first_send_run [of "replicate 1000 1"]) simp_all
  have len: "length (buffer (outputBuffer c)) = 1032" "writerIndex (outputBuffer c) = 1008" "readerIndex (outputBuffer c) = 8"
    by (simp_all add: c(4))
  have "Buffer_writableBytes (outputBuffer c) < length (replicate 100 (2 :: byte))"
    by (simp add: Buffer_writableBytes_def len)
  then show ?thesis
    using TcpConnection_growth_dangles [OF new_connection c(1,2,3), of "replicate 100 2" 1] c(1,5) len
    by (auto simp: vec_max_size_def simp del: tcp_step.simps)
qed

lemma TcpConnection_empty_send_duplicates_witness:
  "\<exists>c c'. conn_state c = kConnected \<and>
    run no_callbacks bswap_ops [Call True (SendString []), Call True (SendString [7]), WriteDone 0,
      WriteSome 0 1, WriteSome 1 1] c = Inr c' \<and> wire c' = [7, 7]"
proof -
  obtain c where "tcp_step no_callbacks bswap_ops Established fresh_connection = Inr c"
    and c: "conn_state c = kConnected" "outputBuffer c = fresh_buffer" "writing c = []" "sent c = []" "wire c = []"
      "\<not> hazard c" "posted c = []"
    by (rule established_run)
  have "Buffer_wf fresh_buffer" "Buffer_content fresh_buffer = []" "writerIndex fresh_buffer + 1 \<le> length (buffer fresh_buffer)"
    by (simp_all add: fresh_buffer_def Buffer_wf_def Buffer_consts Buffer_content_def)
  then show ?thesis
    using TcpConnection_empty_send_duplicates [OF c(1,3), of "[7]" no_callbacks bswap_ops] c
    by (auto simp del: run.simps tcp_step.simps)
qed

lemma TcpConnection_stuck_after_write_error_witness:
  "\<exists>c1 c2. reach no_callbacks bswap_ops fresh_connection c1
    \<and> tcp_step no_callbacks bswap_ops (Call False (SendString [9])) c1 = Inr c2 \<and> wire c2 = [] \<and> writing c2 = []"
proof -
  obtain c where c: "reach no_callbacks bswap_ops fresh_connection c" "\<not> hazard c" "conn_state c = kConnected"
    "writing c = [\<lparr>w_off = 8, w_len = 1, w_done = 0, w_stale = False\<rparr>]" "wire c = []"
    using first_send_run [of "[5]"] by (metis list.distinct(1) list.size(3,4) add_0 One_nat_def one_le_numeral)
  have en: "enabled (WriteFail 0) c"
    using c(4) by simp
  obtain c1 where c1: "tcp_step no_callbacks bswap_ops (WriteFail 0) c = Inr c1" "\<not> hazard c1"
    using c(2) by (simp add: on_write_def)
  obtain c2 where c2: "tcp_step no_callbacks bswap_ops (Call False (SendString [9])) c1 = Inr c2" "\<not> hazard c2"
    using c1(2) by (cases "conn_state c1 = kConnected") (simp_all add: TcpConnection_send_string_def post_task_def)
  have r1: "reach no_callbacks bswap_ops fresh_connection c1"
    using reach.step [OF c(1) en c1(1)] .
  have r2: "reach no_callbacks bswap_ops c1 c2"
    using reach.step [OF reach.start _ c2(1)] by simp
  show ?thesis
    using TcpConnection_stuck_after_write_error [OF new_connection c(1,2) en c1(1) r2 c2(2)] r1 c2(1) c(5) by auto
qed

section \<open>What the message callback sees\<close>

text \<open>The transfers of a read store its bytes one after the other, however they are cut.\<close>

lemma overwrite_overwrite:
  "i + length xs \<le> length v \<Longrightarrow> overwrite (i + length xs) ys (overwrite i xs v) = overwrite i (xs @ ys) v"
  by (simp add: overwrite_def add.assoc add.commute [of "length ys"])

lemma run_append: "run cb so (xs @ ys) c = rbind (run cb so xs c) (run cb so ys)"
proof (induction xs arbitrary: c)
  case (Cons s ss)
  then show ?case
    by (cases "tcp_step cb so s c") (simp_all del: tcp_step.simps)
qed simp

lemma read_chunks:
  assumes "reading c = Some r" "r_off r + r_done r + length (concat bss) \<le> length (buffer (inputBuffer c))"
  shows "run cb so (map ReadSome bss) c = Inr (c
    \<lparr>inputBuffer := inputBuffer c\<lparr>buffer := overwrite (r_off r + r_done r) (concat bss) (buffer (inputBuffer c))\<rparr>,
     reading := Some (r\<lparr>r_done := r_done r + length (concat bss)\<rparr>)\<rparr>)"
  using assms
proof (induction bss arbitrary: c r)
  case (Cons bs bss)
  let ?r = "r\<lparr>r_done := r_done r + length bs\<rparr>"
  let ?c = "c\<lparr>inputBuffer := inputBuffer c\<lparr>buffer := overwrite (r_off r + r_done r) bs (buffer (inputBuffer c))\<rparr>,
    reading := Some ?r\<rparr>"
  have one: "tcp_step cb so (ReadSome bs) c = Inr ?c"
    using Cons.prems by simp
  have fit: "r_off ?r + r_done ?r + length (concat bss) \<le> length (buffer (inputBuffer ?c))"
    using Cons.prems(2) by simp
  have "run cb so (map ReadSome bss) ?c = Inr (?c
    \<lparr>inputBuffer := inputBuffer ?c\<lparr>buffer := overwrite (r_off ?r + r_done ?r) (concat bss) (buffer (inputBuffer ?c))\<rparr>,
     reading := Some (?r\<lparr>r_done := r_done ?r + length (concat bss)\<rparr>)\<rparr>)"
    by (rule Cons.IH [OF _ fit]) simp
  moreover have "overwrite (r_off r + (r_done r + length bs)) (concat bss) (overwrite (r_off r + r_done r) bs (buffer (inputBuffer c)))
      = overwrite (r_off r + r_done r) (bs @ concat bss) (buffer (inputBuffer c))"
    using overwrite_overwrite [of "r_off r + r_done r" bs] Cons.prems(2) by (simp add: add.assoc)
  ultimately show ?case
    using one by (simp add: add.assoc del: tcp_step.simps)
qed simp

text \<open>A connection that waits for a header with an empty input buffer.\<close>

definition in_ready :: "TcpConnection \<Rightarrow> bool" where
  "in_ready c \<longleftrightarrow>
     reading c = Some \<lparr>r_kind = ReadHeader, r_off = 8, r_len = 4, r_done = 0\<rparr> \<and>
     Buffer_wf (inputBuffer c) \<and> readerIndex (inputBuffer c) = 8 \<and> writerIndex (inputBuffer c) = 8 \<and>
     12 \<le> length (buffer (inputBuffer c))"

text \<open>A message callback that empties the input buffer, whatever else it does.\<close>

definition drains :: "(TcpConnection \<Rightarrow> conn_action list) \<Rightarrow> bool" where
  "drains f \<longleftrightarrow> (\<forall>c. Buffer_wf (inputBuffer c) \<longrightarrow>
     (\<exists>c'. conn_calls (f c) c = Inr c' \<and> inputBuffer c' = Buffer_retrieveAll (inputBuffer c)))"

fun message_event :: "conn_event \<Rightarrow> bool" where
  "message_event (OnMessage bs) = True"
| "message_event _ = False"

definition messages :: "TcpConnection \<Rightarrow> conn_event list" where
  "messages c = filter message_event (events c)"

lemma messages_callback_events: "messages c = filter message_event (callback_events c)"
proof -
  have "\<not> flush_event e \<and> message_event e \<longleftrightarrow> message_event e" for e
    by (cases e) auto
  then show ?thesis
    by (simp add: messages_def callback_events_def)
qed

lemma calm_messages: "calm c c' \<Longrightarrow> messages c' = messages c"
  by (simp add: calm_def messages_callback_events)

text \<open>A four-byte header of a body of \<open>n\<close> bytes makes room for it and starts reading it.\<close>

lemma on_readHeader_ok:
  assumes so: "socket_ops_ok so" and n: "n < 2 ^ 31"
    and i: "Buffer_wf (inputBuffer c)" "readerIndex (inputBuffer c) = 8" "writerIndex (inputBuffer c) = 8"
      "12 \<le> length (buffer (inputBuffer c))"
    and h: "segment 8 12 (buffer (inputBuffer c)) = rev (obj32 (of_nat n))"
  obtains b where "on_readHeader cb so False 4 c = Inr (TcpConnection_readBody n (c\<lparr>inputBuffer := b\<rparr>))"
    "Buffer_wf b" "readerIndex b = 8" "writerIndex b = 12" "12 + n \<le> length (buffer b)"
    "Buffer_content b = rev (obj32 (of_nat n))" "length (buffer b) \<le> max (length (buffer (inputBuffer c))) (12 + n)"
proof -
  let ?i = "inputBuffer c"
  define b1 where "b1 = ?i\<lparr>writerIndex := 12\<rparr>"
  have b1: "Buffer_hasWritten 4 ?i = Inr b1" "Buffer_wf b1"
    using Buffer_hasWritten_ok [OF i(1), of 4] i(3,4) by (simp_all add: b1_def)
  have content: "Buffer_content b1 = rev (obj32 (of_nat n))"
    using h i(2) by (simp add: b1_def Buffer_content_def)
  have peek: "Buffer_peekInt32 so b1 = Inr (of_nat n)"
    using Buffer_peekInt32_ok [OF b1(2), of so] socket_ops_okD(3) [OF so, of "of_nat n"]
      mem32_obj32 [of "host_to_network_long so (of_nat n)"] so
    by (simp add: content del: length_content)
  have fits: "Buffer_fits n b1"
    using n by (simp add: b1_def Buffer_fits_def vec_max_size_def)
  obtain b where b: "Buffer_ensureWritableBytes n b1 = Inr b" "Buffer_wf b" "Buffer_content b = rev (obj32 (of_nat n))"
    "writerIndex b + n \<le> length (buffer b)" "writerIndex b \<le> 12" "8 \<le> readerIndex b"
    "length (buffer b) \<le> max (length (buffer ?i)) (12 + n)"
    using Buffer_ensureWritableBytes_ok [OF b1(2) fits] content i(2) by (auto simp: b1_def kCheapPrepend_def)
  have "length (Buffer_content b) = 4"
    by (simp only: b(3) length_rev length_obj)
  then have idx: "readerIndex b = 8" "writerIndex b = 12"
    using length_content [OF b(2)] b(5,6) by auto
  have size: "size_of_int (sint (of_nat n :: int32)) = n"
    using sint_of_nat32 [OF n] n by simp
  have "on_readHeader cb so False 4 c = Inr (TcpConnection_readBody n (c\<lparr>inputBuffer := b\<rparr>))"
    using b1(1) peek b(1) size by (simp add: on_readHeader_def)
  then show ?thesis
    by (rule that) (use b idx in simp_all)
qed

lemma on_readBody_ok:
  assumes i: "Buffer_wf (inputBuffer c)" "readerIndex (inputBuffer c) = 8" "writerIndex (inputBuffer c) = 12"
    "12 + n \<le> length (buffer (inputBuffer c))"
  obtains b where "Buffer_wf b" "readerIndex b = 8" "writerIndex b = 12 + n" "buffer b = buffer (inputBuffer c)"
    "Buffer_content b = Buffer_content (inputBuffer c) @ segment 12 (12 + n) (buffer (inputBuffer c))"
    "on_readBody cb False n c =
       rbind (invoke (messageCallback cb) (OnMessage (Buffer_content b)) (c\<lparr>inputBuffer := b\<rparr>)) (\<lambda>c1.
       Inr (TcpConnection_readHeader c1))"
proof -
  let ?i = "inputBuffer c"
  define b where "b = ?i\<lparr>writerIndex := 12 + n\<rparr>"
  have b: "Buffer_hasWritten n ?i = Inr b" "Buffer_wf b"
    using Buffer_hasWritten_ok [OF i(1), of n] i(3,4) by (simp_all add: b_def)
  have content: "Buffer_content b = Buffer_content ?i @ segment 12 (12 + n) (buffer ?i)"
    using i by (simp add: b_def Buffer_content_def segment_def drop_take take_add)
  show ?thesis
    by (rule that [OF b(2) _ _ _ content]) (use i b(1) in \<open>simp_all add: b_def on_readBody_def\<close>)
qed

text \<open>The same after the transfers, however they are cut.\<close>

lemma header_read:
  assumes so: "socket_ops_ok so" and ready: "in_ready c" and n: "n < 2 ^ 31"
    and hs: "concat hs = rev (obj32 (of_nat n))"
  obtains c' where "run cb so (map ReadSome hs @ [ReadDone]) c = Inr c'" "callback_events c' = callback_events c"
    "reading c' = Some \<lparr>r_kind = ReadBody, r_off = 12, r_len = n, r_done = 0\<rparr>"
    "Buffer_wf (inputBuffer c')" "readerIndex (inputBuffer c') = 8" "writerIndex (inputBuffer c') = 12"
    "12 + n \<le> length (buffer (inputBuffer c'))" "Buffer_content (inputBuffer c') = concat hs"
    "length (buffer (inputBuffer c')) \<le> max (length (buffer (inputBuffer c))) (12 + n)"
proof -
  let ?i = "inputBuffer c"
  have i: "reading c = Some \<lparr>r_kind = ReadHeader, r_off = 8, r_len = 4, r_done = 0\<rparr>" "Buffer_wf ?i"
    "readerIndex ?i = 8" "writerIndex ?i = 8" "12 \<le> length (buffer ?i)"
    using ready by (auto simp: in_ready_def)
  have four: "length (concat hs) = 4"
    by (simp only: hs length_rev length_obj)
  let ?b0 = "?i\<lparr>buffer := overwrite 8 (concat hs) (buffer ?i)\<rparr>"
  let ?c0 = "c\<lparr>inputBuffer := ?b0, reading := None\<rparr>"
  have b0: "Buffer_wf ?b0" "length (buffer ?b0) = length (buffer ?i)" "segment 8 12 (buffer ?b0) = rev (obj32 (of_nat n))"
    using i four hs segment_overwrite_exact [of 8 "concat hs" "buffer ?i"] by (simp_all add: Buffer_wf_def)
  obtain b where b: "on_readHeader cb so False 4 ?c0 = Inr (TcpConnection_readBody n (?c0\<lparr>inputBuffer := b\<rparr>))"
    "Buffer_wf b" "readerIndex b = 8" "writerIndex b = 12" "12 + n \<le> length (buffer b)"
    "Buffer_content b = rev (obj32 (of_nat n))" "length (buffer b) \<le> max (length (buffer ?i)) (12 + n)"
    by (rule on_readHeader_ok [OF so n, of ?c0 cb]) (use b0 i in simp_all)
  have "run cb so (map ReadSome hs) c = Inr (c\<lparr>inputBuffer := ?b0,
      reading := Some \<lparr>r_kind = ReadHeader, r_off = 8, r_len = 4, r_done = 4\<rparr>\<rparr>)"
    using read_chunks [OF i(1), of hs cb so] i(5) four by simp
  then have "run cb so (map ReadSome hs @ [ReadDone]) c = Inr (TcpConnection_readBody n (?c0\<lparr>inputBuffer := b\<rparr>))"
    using b(1) by (simp add: run_append on_read_def)
  then show ?thesis
    by (rule that) (use b hs in \<open>simp_all add: TcpConnection_readBody_def callback_events_def\<close>)
qed

lemma body_read:
  assumes rd: "reading c = Some \<lparr>r_kind = ReadBody, r_off = 12, r_len = n, r_done = 0\<rparr>"
    and inp: "Buffer_wf (inputBuffer c)" "readerIndex (inputBuffer c) = 8" "writerIndex (inputBuffer c) = 12"
    and room: "12 + n \<le> length (buffer (inputBuffer c))" and bs: "length (concat bss) = n"
  obtains b where "Buffer_wf b" "Buffer_content b = Buffer_content (inputBuffer c) @ concat bss"
    "readerIndex b = 8" "writerIndex b = 12 + n" "length (buffer b) = length (buffer (inputBuffer c))"
    "run cb so (map ReadSome bss @ [ReadDone]) c =
       rbind (invoke (messageCallback cb) (OnMessage (Buffer_content b)) (c\<lparr>reading := None, inputBuffer := b\<rparr>)) (\<lambda>c1.
       Inr (TcpConnection_readHeader c1))"
proof -
  let ?i = "inputBuffer c"
  let ?b0 = "?i\<lparr>buffer := overwrite 12 (concat bss) (buffer ?i)\<rparr>"
  let ?c0 = "c\<lparr>inputBuffer := ?b0, reading := None\<rparr>"
  have b0: "Buffer_wf ?b0" "length (buffer ?b0) = length (buffer ?i)" "segment 12 (12 + n) (buffer ?b0) = concat bss"
    "Buffer_content ?b0 = Buffer_content ?i"
    using room bs inp segment_overwrite_exact [of 12 "concat bss" "buffer ?i"] segment_overwrite_disjoint [of 12 12 "concat bss" "buffer ?i" 8]
    by (simp_all add: Buffer_wf_def Buffer_content_def)
  obtain b where b: "Buffer_wf b" "readerIndex b = 8" "writerIndex b = 12 + n" "buffer b = buffer ?b0"
    "Buffer_content b = Buffer_content ?i @ concat bss"
    "on_readBody cb False n ?c0 =
       rbind (invoke (messageCallback cb) (OnMessage (Buffer_content b)) (?c0\<lparr>inputBuffer := b\<rparr>)) (\<lambda>c1.
       Inr (TcpConnection_readHeader c1))"
    by (rule on_readBody_ok [of ?c0 n cb]) (use b0 inp room in simp_all)
  have "run cb so (map ReadSome bss) c = Inr (c\<lparr>inputBuffer := ?b0,
      reading := Some \<lparr>r_kind = ReadBody, r_off = 12, r_len = n, r_done = n\<rparr>\<rparr>)"
    using read_chunks [OF rd, of bss cb so] room bs by simp
  then have "run cb so (map ReadSome bss @ [ReadDone]) c =
       rbind (invoke (messageCallback cb) (OnMessage (Buffer_content b)) (c\<lparr>reading := None, inputBuffer := b\<rparr>)) (\<lambda>c1.
       Inr (TcpConnection_readHeader c1))"
    using b(6) by (simp add: run_append on_read_def rbind_def split: sum.split)
  then show ?thesis
    by (rule that [OF b(1) b(5) b(2) b(3), rotated 1]) (use b(4) b0(2) in simp)
qed

text \<open>A frame as it arrives: the transfers of its header and of its body.\<close>

type_synonym cut_frame = "byte list list \<times> byte list list"

definition frame_steps :: "cut_frame \<Rightarrow> conn_step list" where
  "frame_steps f = map ReadSome (fst f) @ [ReadDone] @ map ReadSome (snd f) @ [ReadDone]"

definition frame_bytes :: "cut_frame \<Rightarrow> byte list" where
  "frame_bytes f = concat (fst f) @ concat (snd f)"

definition frame_ok :: "cut_frame \<Rightarrow> bool" where
  "frame_ok f \<longleftrightarrow> length (concat (snd f)) < 2 ^ 31
     \<and> concat (fst f) = rev (obj32 (of_nat (length (concat (snd f)))))"

lemma frame_read:
  assumes so: "socket_ops_ok so" and cb: "messageCallback cb = Some f" "drains f"
    and ready: "in_ready c" and ok: "frame_ok x"
  obtains c' where "run cb so (frame_steps x) c = Inr c'" "in_ready c'"
    "messages c' = messages c @ [OnMessage (frame_bytes x)]"
proof -
  let ?n = "length (concat (snd x))"
  obtain c1 where c1: "run cb so (map ReadSome (fst x) @ [ReadDone]) c = Inr c1"
    "callback_events c1 = callback_events c"
    "reading c1 = Some \<lparr>r_kind = ReadBody, r_off = 12, r_len = ?n, r_done = 0\<rparr>"
    "Buffer_wf (inputBuffer c1)" "readerIndex (inputBuffer c1) = 8" "writerIndex (inputBuffer c1) = 12"
    "12 + ?n \<le> length (buffer (inputBuffer c1))" "Buffer_content (inputBuffer c1) = concat (fst x)"
    using header_read [OF so ready, of ?n "fst x" cb] ok unfolding frame_ok_def by blast
  obtain b where b: "Buffer_wf b" "Buffer_content b = concat (fst x) @ concat (snd x)"
    "readerIndex b = 8" "writerIndex b = 12 + ?n" "length (buffer b) = length (buffer (inputBuffer c1))"
    "run cb so (map ReadSome (snd x) @ [ReadDone]) c1 =
       rbind (invoke (messageCallback cb) (OnMessage (Buffer_content b)) (c1\<lparr>reading := None, inputBuffer := b\<rparr>)) (\<lambda>c2.
       Inr (TcpConnection_readHeader c2))"
    using body_read [OF c1(3-7) refl, of cb so] c1(8) by metis
  let ?d = "log_event (OnMessage (Buffer_content b)) (c1\<lparr>reading := None, inputBuffer := b\<rparr>)"
  have d: "inputBuffer ?d = b" "messages ?d = messages c @ [OnMessage (frame_bytes x)]"
    using c1(2) b(2) by (simp_all add: log_event_def messages_callback_events callback_events_def frame_bytes_def)
  obtain c2 where c2: "conn_calls (f ?d) ?d = Inr c2" "inputBuffer c2 = Buffer_retrieveAll b"
    using cb(2) b(1) d(1) unfolding drains_def by metis
  have m: "messages c2 = messages c @ [OnMessage (frame_bytes x)]"
    using calm_messages [OF calm_calls [OF c2(1)]] d(2) by simp
  have "run cb so (frame_steps x) c = Inr (TcpConnection_readHeader c2)"
    using c1(1) b(6) c2(1) cb(1) run_append [of cb so "map ReadSome (fst x) @ [ReadDone]" _ c]
    by (simp add: frame_steps_def invoke_def del: run.simps)
  moreover have "in_ready (TcpConnection_readHeader c2)"
    using c2(2) b(1,3,4,5) c1(7) Buffer_retrieveAll_ok [OF b(1)]
    by (simp add: in_ready_def TcpConnection_readHeader_def Buffer_retrieveAll_def kCheapPrepend_def)
  moreover have "messages (TcpConnection_readHeader c2) = messages c2"
    by (simp add: TcpConnection_readHeader_def messages_def)
  ultimately show ?thesis
    using that m by simp
qed

text \<open>C6. With a message callback that empties the input buffer at each call and never faults, and as long
  as nothing but the reads happens, the reads of a connection never store outside the buffer, and the
  callback is made once for every frame of the peer's stream, in order, with exactly the header and the
  body of that frame in the buffer, however the stream is cut into transfers.\<close>

theorem TcpConnection_delivers_frames:
  assumes "socket_ops_ok so" "messageCallback cb = Some f" "drains f" "in_ready c" "list_all frame_ok fs"
  shows "\<exists>c'. run cb so (concat (map frame_steps fs)) c = Inr c' \<and> in_ready c'
    \<and> filter message_event (events c') = filter message_event (events c) @ map (OnMessage \<circ> frame_bytes) fs"
  using assms(4,5)
proof (induction fs arbitrary: c)
  case Nil
  then show ?case
    by simp
next
  case (Cons x fs)
  obtain c1 where c1: "run cb so (frame_steps x) c = Inr c1" "in_ready c1"
    "messages c1 = messages c @ [OnMessage (frame_bytes x)]"
    by (rule frame_read [OF assms(1-3) Cons.prems(1), of x]) (use Cons.prems(2) in simp)
  obtain c' where "run cb so (concat (map frame_steps fs)) c1 = Inr c'" "in_ready c'"
    "messages c' = messages c1 @ map (OnMessage \<circ> frame_bytes) fs"
    using Cons.IH [OF c1(2)] Cons.prems(2) unfolding messages_def by auto
  then show ?case
    using c1 by (simp add: run_append messages_def)
qed

text \<open>A message callback that leaves the bytes of a message of 1020 bytes or more in the
  buffer lets the peer write past the end of the input buffer: \<open>readHeader\<close> does not make
  room, so the first byte of the next header is stored outside the vector.\<close>

lemma TcpConnection_unread_input_overflows:
  assumes "socket_ops_ok so" "messageCallback cb = Some (\<lambda>_. [])" "in_ready c"
    and "length (buffer (inputBuffer c)) \<le> 1032" "frame_ok f" "1020 \<le> length (concat (snd f))"
  shows "run cb so (frame_steps f @ [ReadSome [x]]) c = Inl OutOfBounds"
proof -
  let ?n = "length (concat (snd f))"
  obtain c1 where c1: "run cb so (map ReadSome (fst f) @ [ReadDone]) c = Inr c1"
    "reading c1 = Some \<lparr>r_kind = ReadBody, r_off = 12, r_len = ?n, r_done = 0\<rparr>"
    "Buffer_wf (inputBuffer c1)" "readerIndex (inputBuffer c1) = 8" "writerIndex (inputBuffer c1) = 12"
    "12 + ?n \<le> length (buffer (inputBuffer c1))" "length (buffer (inputBuffer c1)) \<le> 12 + ?n"
  proof (rule header_read [OF assms(1,3), of ?n "fst f" cb])
    fix d assume d: "run cb so (map ReadSome (fst f) @ [ReadDone]) c = Inr d"
      "reading d = Some \<lparr>r_kind = ReadBody, r_off = 12, r_len = ?n, r_done = 0\<rparr>"
      "Buffer_wf (inputBuffer d)" "readerIndex (inputBuffer d) = 8" "writerIndex (inputBuffer d) = 12"
      "12 + ?n \<le> length (buffer (inputBuffer d))"
      "length (buffer (inputBuffer d)) \<le> max (length (buffer (inputBuffer c))) (12 + ?n)"
    have "length (buffer (inputBuffer d)) \<le> 12 + ?n"
      using d(7) assms(4,6) by linarith
    then show thesis
      by (rule that [OF d(1-6)])
  qed (use assms(5) in \<open>simp_all add: frame_ok_def\<close>)
  obtain b where b: "writerIndex b = 12 + ?n" "length (buffer b) = length (buffer (inputBuffer c1))"
    "run cb so (map ReadSome (snd f) @ [ReadDone]) c1 =
       rbind (invoke (messageCallback cb) (OnMessage (Buffer_content b)) (c1\<lparr>reading := None, inputBuffer := b\<rparr>)) (\<lambda>c2.
       Inr (TcpConnection_readHeader c2))"
    using body_read [OF c1(2-6) refl, of cb so] by metis
  let ?d = "TcpConnection_readHeader (log_event (OnMessage (Buffer_content b)) (c1\<lparr>reading := None, inputBuffer := b\<rparr>))"
  have "run cb so (frame_steps f) c = Inr ?d"
    using c1(1) b(3) assms(2) run_append [of cb so "map ReadSome (fst f) @ [ReadDone]" _ c]
    by (simp add: frame_steps_def invoke_def del: run.simps)
  moreover have "tcp_step cb so (ReadSome [x]) ?d = Inl OutOfBounds"
    using b(1,2) c1(7) by (simp add: TcpConnection_readHeader_def log_event_def vec_store_def)
  ultimately show ?thesis
    by (simp add: run_append del: tcp_step.simps)
qed

text \<open>A peer that sends a length of $-9$ to $-12$ as its first header corrupts the input
  buffer: \<open>ensureWritableBytes\<close> cuts the vector behind the indices and returns normally, and
  the first byte of the body is stored outside it.\<close>

lemma TcpConnection_negative_length_corrupts:
  assumes "socket_ops_ok so" "in_ready c" "8 < k" "k \<le> 12"
    and "concat hs = rev (obj32 (- of_nat k))"
  shows "\<exists>c'. run cb so (map ReadSome hs @ [ReadDone]) c = Inr c' \<and> \<not> Buffer_wf (inputBuffer c')
    \<and> length (buffer (inputBuffer c')) = 12 - k
    \<and> run cb so (map ReadSome hs @ [ReadDone, ReadSome [x]]) c = Inl OutOfBounds"
proof -
  let ?i = "inputBuffer c"
  have i: "reading c = Some \<lparr>r_kind = ReadHeader, r_off = 8, r_len = 4, r_done = 0\<rparr>" "Buffer_wf ?i"
    "readerIndex ?i = 8" "writerIndex ?i = 8" "12 \<le> length (buffer ?i)"
    using assms(2) by (auto simp: in_ready_def)
  have four: "length (concat hs) = 4"
    by (simp only: assms(5) length_rev length_obj)
  define b0 where "b0 = ?i\<lparr>buffer := overwrite 8 (concat hs) (buffer ?i)\<rparr>"
  define b1 where "b1 = b0\<lparr>writerIndex := 12\<rparr>"
  have wf0: "Buffer_wf b0" and len0: "length (buffer b0) = length (buffer ?i)"
    using i four by (auto simp: b0_def Buffer_wf_def)
  have b1: "Buffer_hasWritten 4 b0 = Inr b1" "Buffer_wf b1"
    using Buffer_hasWritten_ok [OF wf0, of 4] i(4,5) len0 by (simp_all add: b0_def b1_def)
  have content: "Buffer_content b1 = concat hs"
    using segment_overwrite_exact [of 8 "concat hs" "buffer ?i"] four i
    by (simp add: b1_def b0_def Buffer_content_def)
  have peek: "Buffer_peekInt32 so b1 = Inr (- of_nat k)"
    using Buffer_peekInt32_ok [OF b1(2), of so] four socket_ops_okD(3) [OF assms(1), of "- of_nat k"]
      mem32_obj32 [of "host_to_network_long so (- of_nat k)"] assms(1)
    by (simp add: content assms(5) del: length_content)
  have "sint (- of_nat k :: int32) = - int k"
  proof -
    have "k = 9 \<or> k = 10 \<or> k = 11 \<or> k = 12"
      using assms(3,4) by linarith
    then show ?thesis
      by auto
  qed
  moreover obtain b2 where b2: "Buffer_ensureWritableBytes (size_of_int (- int k)) b1 = Inr b2"
    "length (buffer b2) = writerIndex b2 - k" "writerIndex b2 = 12" "\<not> Buffer_wf b2"
    using ensureWritableBytes_negative [OF b1(2) assms(3)] assms(4) by (auto simp: b1_def)
  moreover have "run cb so (map ReadSome hs) c = Inr (c\<lparr>inputBuffer := b0,
      reading := Some \<lparr>r_kind = ReadHeader, r_off = 8, r_len = 4, r_done = 4\<rparr>\<rparr>)"
    using read_chunks [OF i(1), of hs cb so] i(5) four by (simp add: b0_def)
  ultimately have hdr: "run cb so (map ReadSome hs @ [ReadDone]) c
      = Inr (TcpConnection_readBody (size_of_int (- int k)) (c\<lparr>reading := None, inputBuffer := b2\<rparr>))" (is "_ = Inr ?c")
    using b1(1) peek by (simp add: run_append on_read_def on_readHeader_def)
  have "tcp_step cb so (ReadSome [x]) ?c = Inl OutOfBounds"
    using b2(2,3) by (simp add: TcpConnection_readBody_def vec_store_def)
  then have "run cb so ((map ReadSome hs @ [ReadDone]) @ [ReadSome [x]]) c = Inl OutOfBounds"
    unfolding run_append [of cb so "map ReadSome hs @ [ReadDone]"] hdr by simp
  then show ?thesis
    using hdr b2 by (simp add: TcpConnection_readBody_def)
qed

section \<open>Runs of the reading side\<close>

definition drain_callbacks :: callbacks where
  "drain_callbacks = no_callbacks\<lparr>messageCallback := Some (\<lambda>c. [Consume (Buffer_readableBytes (inputBuffer c))])\<rparr>"

lemma drains_all: "drains (\<lambda>c. [Consume (Buffer_readableBytes (inputBuffer c))])"
  by (simp add: drains_def Buffer_retrieve_def)

lemma established_ready:
  obtains c where "tcp_step cb so Established fresh_connection = Inr c \<or> connectionCallback cb \<noteq> Some (\<lambda>_. [])"
    "in_ready c" "length (buffer (inputBuffer c)) = 1032" "events c = [OnConnection True]"
proof
  let ?c = "fresh_connection\<lparr>conn_state := kConnected, events := [OnConnection True],
    reading := Some \<lparr>r_kind = ReadHeader, r_off = 8, r_len = 4, r_done = 0\<rparr>\<rparr>"
  show "tcp_step cb so Established fresh_connection = Inr ?c \<or> connectionCallback cb \<noteq> Some (\<lambda>_. [])"
    by (auto simp: established fresh_buffer_def)
  show "in_ready ?c" "length (buffer (inputBuffer ?c)) = 1032" "events ?c = [OnConnection True]"
    by (simp_all add: in_ready_def fresh_connection_def fresh_buffer_def Buffer_wf_def Buffer_consts)
qed

lemma obj32_small: "rev (obj32 2) = [0, 0, 0, 2]" "rev (obj32 1) = [0, 0, 0, 1]" "rev (obj32 (- 10)) = [255, 255, 255, 246]"
  by (simp_all add: obj32_def)

lemma TcpConnection_delivers_frames_witness:
  "\<exists>c. run drain_callbacks bswap_ops
      (Established # concat (map frame_steps [([[0, 0], [0, 2]], [[65], [66]]), ([[0, 0, 0, 1]], [[67]])]))
      fresh_connection = Inr c
    \<and> filter message_event (events c) = [OnMessage [0, 0, 0, 2, 65, 66], OnMessage [0, 0, 0, 1, 67]]"
proof -
  let ?fs = "[([[0, 0], [0, 2]], [[65], [66]]), ([[0, 0, 0, 1]], [[67]])] :: cut_frame list"
  obtain c where c: "tcp_step drain_callbacks bswap_ops Established fresh_connection = Inr c"
    "in_ready c" "events c = [OnConnection True]"
    by (rule established_ready [of drain_callbacks bswap_ops]) (simp add: drain_callbacks_def no_callbacks_def)
  have "list_all frame_ok ?fs"
    using obj32_small by (simp add: frame_ok_def)
  then show ?thesis
    using TcpConnection_delivers_frames [OF bswap_ops_ok _ drains_all c(2), of drain_callbacks ?fs] c(1,3)
    by (auto simp: drain_callbacks_def frame_bytes_def simp del: tcp_step.simps)
qed

lemma TcpConnection_unread_input_overflows_witness:
  "run no_callbacks bswap_ops (Established # frame_steps ([[0, 0, 4, 0]], [replicate 1024 7]) @ [ReadSome [0]])
    fresh_connection = Inl OutOfBounds"
proof -
  obtain c where c: "tcp_step no_callbacks bswap_ops Established fresh_connection = Inr c"
    "in_ready c" "length (buffer (inputBuffer c)) = 1032"
    by (rule established_ready [of no_callbacks bswap_ops]) (simp add: no_callbacks_def)
  have "frame_ok ([[0, 0, 4, 0]], [replicate 1024 7])"
    by (simp add: frame_ok_def obj32_def)
  then show ?thesis
    using TcpConnection_unread_input_overflows [OF bswap_ops_ok _ c(2), of no_callbacks "([[0, 0, 4, 0]], [replicate 1024 7])" 0] c
    by (simp add: no_callbacks_def del: tcp_step.simps)
qed

lemma TcpConnection_negative_length_corrupts_witness:
  "run no_callbacks bswap_ops [Established, ReadSome [255, 255, 255, 246], ReadDone, ReadSome [0]] fresh_connection
    = Inl OutOfBounds"
proof -
  obtain c where c: "tcp_step no_callbacks bswap_ops Established fresh_connection = Inr c" "in_ready c"
    by (rule established_ready [of no_callbacks bswap_ops]) (simp add: no_callbacks_def)
  show ?thesis
    using TcpConnection_negative_length_corrupts [OF bswap_ops_ok c(2), of 10 "[[255, 255, 255, 246]]" no_callbacks 0]
      c(1) obj32_small(3) by (auto simp del: tcp_step.simps)
qed

section \<open>Before and after the life of a connection\<close>

text \<open>Nothing that happens to a connection before it is established changes that.\<close>

definition not_begun :: "TcpConnection \<Rightarrow> bool" where
  "not_begun c \<longleftrightarrow> conn_state c = kConnecting \<and> reading c = None \<and> posted c = [] \<and> writing c = []"

lemma not_begun_step:
  assumes "not_begun c" "enabled s c" "s \<noteq> Established" "s \<noteq> Destroyed" "tcp_step cb so s c = Inr c'"
  shows "not_begun c'"
proof (cases s)
  case (Call in_loop a)
  then show ?thesis
    using assms(1,5)
    by (cases a) (auto simp: not_begun_def TcpConnection_send_buffer_def TcpConnection_send_string_def
        TcpConnection_shutdown_def TcpConnection_forceClose_def rbind_eq_Inr)
qed (use assms in \<open>auto simp: not_begun_def\<close>)

lemma run_task_disconnected:
  assumes "conn_state c = kDisconnected" "run_task cb alive t c = Inr c'"
  shows "calm c c'"
  using assms
  by (cases t) (auto simp: TcpConnection_sendInThisThread_def TcpConnection_forceCloseInThisThread_def split: if_splits)

text \<open>The connection and close callbacks end with \<open>kDisconnected\<close>.\<close>

lemma disconnected_step:
  assumes "conn_state c = kDisconnected" "tcp_step cb so s c = Inr c'"
  shows "conn_state c' = kDisconnected \<and> lifecycle c' = lifecycle c"
proof -
  have calm: "conn_state d = kDisconnected \<and> lifecycle d = lifecycle c" if "calm c d" for d
    using that assms(1) calm_lifecycle [OF that] by (auto simp: calm_def)
  show ?thesis
  proof (cases s)
    case (Call in_loop a)
    then have "calm c c'"
      using assms(2) by (auto dest: calm_call)
    then show ?thesis
      by (rule calm)
  next
    case (RunTask alive)
    show ?thesis
    proof (cases "posted c")
      case (Cons t ts)
      then have "calm (c\<lparr>posted := ts\<rparr>) c'"
        using run_task_disconnected [of "c\<lparr>posted := ts\<rparr>"] RunTask assms by simp
      then have "calm c c'"
        by (simp add: calm_def callback_events_def)
      then show ?thesis
        by (rule calm)
    qed (use RunTask assms in simp)
  next
    case (ReadSome bs)
    then show ?thesis
      using assms by (auto simp: lifecycle_def rbind_eq_Inr split: option.splits)
  next
    case ReadDone
    have "conn_state c' = kDisconnected \<and> lifecycle c' = lifecycle c"
      if r: "reading c = Some r" for r
    proof (cases "r_kind r")
      case ReadHeader
      then show ?thesis
        using r ReadDone assms
        by (auto simp: on_read_def on_readHeader_def TcpConnection_readBody_def rbind_eq_Inr lifecycle_def)
    next
      case ReadBody
      then obtain b c1 where b: "invoke (messageCallback cb) (OnMessage (Buffer_content b)) (c\<lparr>reading := None, inputBuffer := b\<rparr>) = Inr c1"
        "c' = TcpConnection_readHeader c1"
        using r ReadDone assms by (auto simp: on_read_def on_readBody_def rbind_eq_Inr)
      then show ?thesis
        using invoke_lifecycle [OF b(1)] assms(1) by (auto simp: TcpConnection_readHeader_def lifecycle_def)
    qed
    then show ?thesis
      using ReadDone assms by (cases "reading c") (auto simp: on_read_def)
  next
    case ReadFail
    then show ?thesis
      using assms by (auto simp: on_read_def on_readHeader_def on_readBody_def TcpConnection_handleClose_def
          split: option.splits read_kind.splits)
  next
    case (WriteSome i k)
    then show ?thesis
      using assms by (auto simp: lifecycle_def rbind_eq_Inr Let_def split: if_splits)
  next
    case (WriteDone i)
    then have "calm c c'"
      using assms by (auto simp: on_write_def rbind_eq_Inr Let_def TcpConnection_write_def split: if_splits)
    then show ?thesis
      by (rule calm)
  next
    case (WriteFail i)
    then have "calm c c'"
      using assms by (auto simp: on_write_def)
    then show ?thesis
      by (rule calm)
  qed (use assms in \<open>auto simp: TcpConnection_connectEstablished_def TcpConnection_connectDestroyed_def split: if_splits\<close>)
qed

definition closed :: "TcpConnection \<Rightarrow> bool" where
  "closed c \<longleftrightarrow> OnClose \<in> set (events c)"

lemma closed_lifecycle: "closed c \<longleftrightarrow> OnClose \<in> set (lifecycle c)"
  by (simp add: closed_def lifecycle_def)

lemma closed_disconnected:
  assumes "lifecycle_ok (conn_state c) (lifecycle c)" "closed c"
  shows "conn_state c = kDisconnected"
  using assms unfolding closed_lifecycle by (cases "conn_state c") auto

lemma closed_step:
  assumes "tcp_step cb so s c = Inr c'" "lifecycle_ok (conn_state c) (lifecycle c)" "closed c"
  shows "closed c'"
  using disconnected_step [OF closed_disconnected [OF assms(2,3)] assms(1)] assms(3) by (simp add: closed_lifecycle)

lemma fresh_connection_facts: "not_begun fresh_connection" "\<not> closed fresh_connection" "lifecycle fresh_connection = []"
  "conn_state fresh_connection = kConnecting"
  by (simp_all add: not_begun_def closed_def lifecycle_def fresh_connection_def)

text \<open>A server or a client gives its connections the user's callbacks and a close callback of its own.\<close>

definition owner_callbacks :: "callbacks \<Rightarrow> callbacks" where
  "owner_callbacks user = user\<lparr>closeCallback := Some (\<lambda>_. [])\<rparr>"

definition closes :: "TcpConnection \<Rightarrow> nat" where
  "closes c = count_list (events c) OnClose"

lemma not_begun_closed: "not_begun c \<Longrightarrow> lifecycle_ok (conn_state c) (lifecycle c) \<Longrightarrow> \<not> closed c"
  using closed_disconnected [of c] by (auto simp: not_begun_def)

lemma closes_closed: "0 < closes c \<longleftrightarrow> closed c"
  by (simp add: closes_def closed_def count_list_0_iff zero_less_iff_neq_zero)

lemma closes_le:
  assumes "lifecycle_ok (conn_state c) (lifecycle c)"
  shows "closes c \<le> 1"
proof -
  have "count_list es OnClose = count_list (filter lifecycle_event es) OnClose" for es
    by (induction es) auto
  then have "closes c = count_list (lifecycle c) OnClose"
    by (simp add: closes_def lifecycle_def)
  then show ?thesis
    using assms by (cases "conn_state c") auto
qed

end
