(* ===== verification/Heap.thy ===== *)
theory Heap
  imports Prelude "HOL-Library.Product_Lexorder"
begin

text \<open>
  Objects that the code creates with \<open>new\<close> and destroys with \<open>delete\<close>, for the components
  that keep raw pointers, and \<open>std::set\<close> as a strictly sorted list.
\<close>

section \<open>Heaps\<close>

text \<open>
  A heap maps the addresses of the live objects of one class to the objects; address 0 is
  \<open>nullptr\<close>. Using a pointer whose object is not live is a fault. The allocator is a
  parameter: what the code relies on is that a \<open>new\<close> that does not throw returns an address
  not in use, neither 0 nor \<open>UINTPTR_MAX\<close>.
\<close>

type_synonym 'a heap = "nat \<Rightarrow> 'a option"
type_synonym 'a allocator = "'a heap \<Rightarrow> nat option"

definition uintptr_max :: nat where "uintptr_max = 2 ^ 64 - 1"

definition alloc_ok :: "'a allocator \<Rightarrow> bool" where
  "alloc_ok alloc \<longleftrightarrow> (\<forall>h p. alloc h = Some p \<longrightarrow> h p = None \<and> 0 < p \<and> p < uintptr_max)"

definition heap_new :: "'a allocator \<Rightarrow> 'a \<Rightarrow> 'a heap \<Rightarrow> (nat \<times> 'a heap) result" where
  "heap_new alloc x h = (case alloc h of None \<Rightarrow> Inl BadAlloc | Some p \<Rightarrow> Inr (p, h(p \<mapsto> x)))"

definition deref :: "nat \<Rightarrow> 'a heap \<Rightarrow> 'a result" where
  "deref p h =
     (case h p of None \<Rightarrow> Inl (if p = 0 then NullDeref else UseAfterFree) | Some x \<Rightarrow> Inr x)"

definition heap_write :: "nat \<Rightarrow> ('a \<Rightarrow> 'a) \<Rightarrow> 'a heap \<Rightarrow> 'a heap result" where
  "heap_write p f h = rbind (deref p h) (\<lambda>x. Inr (h(p \<mapsto> f x)))"

text \<open>\<open>delete\<close> of \<open>nullptr\<close> does nothing.\<close>

definition heap_delete :: "nat \<Rightarrow> 'a heap \<Rightarrow> 'a heap result" where
  "heap_delete p h = (if p = 0 then Inr h else rbind (deref p h) (\<lambda>_. Inr (h(p := None))))"

lemma alloc_okD: "alloc_ok alloc \<Longrightarrow> alloc h = Some p \<Longrightarrow> h p = None \<and> 0 < p \<and> p < uintptr_max"
  unfolding alloc_ok_def by blast

lemma deref_Some [simp]: "h p = Some x \<Longrightarrow> deref p h = Inr x"
  by (simp add: deref_def)

lemma heap_write_Some [simp]: "h p = Some x \<Longrightarrow> heap_write p f h = Inr (h(p \<mapsto> f x))"
  by (simp add: heap_write_def)

lemma heap_delete_Some [simp]: "h p = Some x \<Longrightarrow> 0 < p \<Longrightarrow> heap_delete p h = Inr (h(p := None))"
  by (simp add: heap_delete_def)

text \<open>An allocator for concrete runs: the least free of eight addresses.\<close>

definition first_free :: "'a allocator" where
  "first_free h = find (\<lambda>p. h p = None) [1, 2, 3, 4, 5, 6, 7, 8]"

lemma first_free_ok: "alloc_ok first_free"
  by (auto simp: alloc_ok_def first_free_def uintptr_max_def split: if_splits)

section \<open>Ordered sets\<close>

definition set_emplace :: "'a::linorder \<Rightarrow> 'a list \<Rightarrow> bool \<times> 'a list" where
  "set_emplace x xs = (x \<notin> set xs, insort_insert x xs)"

definition set_erase :: "'a \<Rightarrow> 'a list \<Rightarrow> nat \<times> 'a list" where
  "set_erase x xs = (if x \<in> set xs then 1 else 0, removeAll x xs)"

text \<open>The elements before and from \<open>lower_bound k\<close> on.\<close>

definition before_lower_bound :: "'a::linorder \<Rightarrow> 'a list \<Rightarrow> 'a list" where
  "before_lower_bound k xs = takeWhile (\<lambda>x. x < k) xs"

definition from_lower_bound :: "'a::linorder \<Rightarrow> 'a list \<Rightarrow> 'a list" where
  "from_lower_bound k xs = dropWhile (\<lambda>x. x < k) xs"

abbreviation ordered_set :: "'a::linorder list \<Rightarrow> bool" where
  "ordered_set xs \<equiv> sorted xs \<and> distinct xs"

lemma set_emplace_simps [simp]:
  "fst (set_emplace x xs) \<longleftrightarrow> x \<notin> set xs"
  "set (snd (set_emplace x xs)) = insert x (set xs)"
  by (simp_all add: set_emplace_def set_insort_insert)

lemma set_emplace_ordered: "ordered_set xs \<Longrightarrow> ordered_set (snd (set_emplace x xs))"
  by (simp add: set_emplace_def sorted_insort_insert distinct_insort_insert)

lemma set_erase_simps [simp]:
  "fst (set_erase x xs) = 1 \<longleftrightarrow> x \<in> set xs"
  "set (snd (set_erase x xs)) = set xs - {x}"
  by (auto simp: set_erase_def)

lemma set_erase_ordered:
  assumes "ordered_set xs"
  shows "ordered_set (snd (set_erase x xs))"
proof -
  have eq: "snd (set_erase x xs) = filter (\<lambda>y. y \<noteq> x) xs"
    unfolding set_erase_def removeAll_filter_not_eq by (auto intro: filter_cong)
  show ?thesis
    unfolding eq using assms sorted_filter [of "\<lambda>y. y" xs] by simp
qed

lemma before_lower_bound_sorted:
  assumes "sorted xs"
  shows "before_lower_bound k xs = filter (\<lambda>x. x < k) xs" "from_lower_bound k xs = filter (\<lambda>x. \<not> x < k) xs"
  using assms
  by (induction xs) (auto simp: before_lower_bound_def from_lower_bound_def dest: order_le_less_trans
      intro!: filter_False [symmetric] filter_True [symmetric])

text \<open>Two ordered sets with the same elements have the same size.\<close>

lemma ordered_set_size: "distinct xs \<Longrightarrow> distinct ys \<Longrightarrow> bij_betw f (set xs) (set ys) \<Longrightarrow> length xs = length ys"
  using bij_betw_same_card [of f "set xs" "set ys"] by (simp add: distinct_card)

end
