(* ===== verification/TimerQueue.thy ===== *)
theory TimerQueue
  imports Heap
begin

text \<open>
  \<open>Timestamp.h\<close>, \<open>Timer.h\<close>, \<open>TimerId.h\<close>, \<open>TimerQueue.h\<close> and their \<open>.cpp\<close> files: the
  timers of a loop, kept in a set ordered by expiration and address, with a second set of the
  active timers and one asio timer that is armed for the earliest. The state has the heap of
  \<open>Timer\<close> objects, the functions posted to the loop and the clock; the history \<open>ran\<close> has the
  callbacks that were made. The lemmas show that no sequence of operations, callbacks included,
  touches a deleted timer or fails an assertion, that exactly the due timers run, in order,
  that the asio timer is never armed too late, and that a cancelled timer does not run again.
\<close>

section \<open>Timestamps and timers\<close>

text \<open>
  A \<open>Timestamp\<close> is its number of microseconds. Of an interval, a \<open>double\<close> number of seconds,
  the code uses whether it is positive and the conversion of its product with
  \<open>kMicroSecondsPerSecond\<close> to \<open>int64_t\<close>.
\<close>

type_synonym Timestamp = int

record seconds =
  positive :: bool
  micros :: int

definition seconds_ok :: "seconds \<Rightarrow> bool" where
  "seconds_ok s \<longleftrightarrow> (positive s \<longrightarrow> 0 \<le> micros s)"

definition kMicroSecondsPerSecond :: int where "kMicroSecondsPerSecond = 1000 * 1000"

definition Timestamp_invalid :: Timestamp where "Timestamp_invalid = 0"
definition Timestamp_swap :: "Timestamp \<Rightarrow> Timestamp \<Rightarrow> Timestamp \<times> Timestamp" where "Timestamp_swap t rhs = (rhs, t)"
definition Timestamp_vaild :: "Timestamp \<Rightarrow> bool" where "Timestamp_vaild t \<longleftrightarrow> t > 0"
definition addTime :: "Timestamp \<Rightarrow> seconds \<Rightarrow> Timestamp" where "addTime t s = t + micros s"

text \<open>A callback is a name, which the runs below give a meaning; \<open>None\<close> is an empty function.\<close>

record Timer =
  expiration :: Timestamp
  interval :: seconds
  repeat :: bool
  callback :: "nat option"
  sequence :: int

definition Timer_new :: "nat option \<Rightarrow> Timestamp \<Rightarrow> seconds \<Rightarrow> int \<Rightarrow> Timer" where
  "Timer_new cb when iv numCreated =
     \<lparr>expiration = when, interval = iv, repeat = positive iv, callback = cb, sequence = numCreated + 1\<rparr>"

definition Timer_restart :: "Timestamp \<Rightarrow> Timer \<Rightarrow> Timer" where
  "Timer_restart now t =
     (if repeat t then t\<lparr>expiration := addTime now (interval t)\<rparr> else t\<lparr>expiration := Timestamp_invalid\<rparr>)"

record TimerId =
  id_timer :: nat
  id_sequence :: int

section \<open>The queue\<close>

type_synonym Entry = "Timestamp \<times> nat"
type_synonym ActiveTimer = "nat \<times> int"

datatype timer_task = PostedAdd nat | PostedCancel TimerId

record TimerQueue =
  timers :: "Entry list"
  activeTimers :: "ActiveTimer list"
  callingExpiredTimers :: bool
  cancelingTimers :: "ActiveTimer list"
  steadyTimer :: "Timestamp option"
  timer_heap :: "Timer heap"
  numCreated :: int
  timer_tasks :: "timer_task list"
  clock :: Timestamp
  ran :: "(Timestamp \<times> Timestamp \<times> int) list"

definition TimerQueue_new :: "Timestamp \<Rightarrow> TimerQueue" where
  "TimerQueue_new now =
     \<lparr>timers = [], activeTimers = [], callingExpiredTimers = False, cancelingTimers = [],
      steadyTimer = None, timer_heap = (\<lambda>_. None), numCreated = 0, timer_tasks = [], clock = now, ran = []\<rparr>"

fun delete_all :: "Entry list \<Rightarrow> Timer heap \<Rightarrow> Timer heap result" where
  "delete_all [] h = Inr h"
| "delete_all (x # xs) h = rbind (heap_delete (snd x) h) (delete_all xs)"

definition TimerQueue_destructor :: "TimerQueue \<Rightarrow> Timer heap result" where
  "TimerQueue_destructor q = delete_all (timers q) (timer_heap q)"

definition sizes_agree :: "TimerQueue \<Rightarrow> bool" where
  "sizes_agree q \<longleftrightarrow> length (timers q) = length (activeTimers q)"

definition TimerQueue_insert :: "nat \<Rightarrow> TimerQueue \<Rightarrow> (bool \<times> TimerQueue) result" where
  "TimerQueue_insert timer q =
     (if \<not> sizes_agree q then Inl AssertFailed
      else
        rbind (deref timer (timer_heap q)) (\<lambda>t.
        let when = expiration t;
            earliestChanged = (timers q = [] \<or> when < fst (hd (timers q)));
            (inserted, ts) = set_emplace (when, timer) (timers q) in
        if \<not> inserted then Inl AssertFailed
        else
          (let (inserted', acts) = set_emplace (timer, sequence t) (activeTimers q);
               q' = q\<lparr>timers := ts, activeTimers := acts\<rparr> in
           if \<not> inserted' \<or> \<not> sizes_agree q' then Inl AssertFailed
           else Inr (earliestChanged, q'))))"

text \<open>\<open>expires_from_now\<close> cancels the outstanding wait, whose handler then does nothing.\<close>

definition TimerQueue_update :: "int \<Rightarrow> TimerQueue \<Rightarrow> TimerQueue" where
  "TimerQueue_update sec q = q\<lparr>steadyTimer := Some (clock q + sec * kMicroSecondsPerSecond)\<rparr>"

definition TimerQueue_resetTimer :: "Timestamp \<Rightarrow> TimerQueue \<Rightarrow> TimerQueue" where
  "TimerQueue_resetTimer when q =
     (let microSeconds = when - clock q;
          microSeconds' = (if microSeconds < 100 then 100 else microSeconds) in
      TimerQueue_update (microSeconds' div kMicroSecondsPerSecond) q)"

definition TimerQueue_addTimerInThisThread :: "nat \<Rightarrow> TimerQueue \<Rightarrow> TimerQueue result" where
  "TimerQueue_addTimerInThisThread timer q =
     rbind (TimerQueue_insert timer q) (\<lambda>(earliestChanged, q1).
     if earliestChanged then
       rbind (deref timer (timer_heap q1)) (\<lambda>t. Inr (TimerQueue_resetTimer (expiration t) q1))
     else Inr q1)"

definition TimerQueue_addTimer ::
    "Timer allocator \<Rightarrow> bool \<Rightarrow> nat option \<Rightarrow> Timestamp \<Rightarrow> seconds \<Rightarrow> TimerQueue \<Rightarrow> (TimerId \<times> TimerQueue) result" where
  "TimerQueue_addTimer alloc in_loop cb when iv q =
     (let t = Timer_new cb when iv (numCreated q) in
      rbind (heap_new alloc t (timer_heap q)) (\<lambda>(timer, h).
      let q1 = q\<lparr>timer_heap := h, numCreated := numCreated q + 1\<rparr>;
          timerId = \<lparr>id_timer = timer, id_sequence = sequence t\<rparr> in
      if in_loop then
        rbind (TimerQueue_addTimerInThisThread timer q1) (\<lambda>q2. Inr (timerId, q2))
      else Inr (timerId, q1\<lparr>timer_tasks := timer_tasks q1 @ [PostedAdd timer]\<rparr>)))"

definition TimerQueue_cancelInThisThread :: "TimerId \<Rightarrow> TimerQueue \<Rightarrow> TimerQueue result" where
  "TimerQueue_cancelInThisThread timerId q =
     (if \<not> sizes_agree q then Inl AssertFailed
      else
        let timer = (id_timer timerId, id_sequence timerId) in
        rbind
          (if timer \<in> set (activeTimers q) then
             rbind (deref (fst timer) (timer_heap q)) (\<lambda>t.
             let (n, ts) = set_erase (expiration t, fst timer) (timers q) in
             if n \<noteq> 1 then Inl AssertFailed
             else
               rbind (heap_delete (fst timer) (timer_heap q)) (\<lambda>h.
               Inr (q\<lparr>timers := ts, timer_heap := h, activeTimers := snd (set_erase timer (activeTimers q))\<rparr>)))
           else if callingExpiredTimers q
             then Inr (q\<lparr>cancelingTimers := snd (set_emplace timer (cancelingTimers q))\<rparr>)
           else Inr q)
          (\<lambda>q'. if sizes_agree q' then Inr q' else Inl AssertFailed))"

definition TimerQueue_cancel :: "bool \<Rightarrow> TimerId \<Rightarrow> TimerQueue \<Rightarrow> TimerQueue result" where
  "TimerQueue_cancel in_loop timerId q =
     (if in_loop then TimerQueue_cancelInThisThread timerId q
      else Inr (q\<lparr>timer_tasks := timer_tasks q @ [PostedCancel timerId]\<rparr>))"

fun erase_active :: "Entry list \<Rightarrow> TimerQueue \<Rightarrow> TimerQueue result" where
  "erase_active [] q = Inr q"
| "erase_active (x # xs) q =
     rbind (deref (snd x) (timer_heap q)) (\<lambda>t.
     let (n, acts) = set_erase (snd x, sequence t) (activeTimers q) in
     if n \<noteq> 1 then Inl AssertFailed
     else erase_active xs (q\<lparr>activeTimers := acts\<rparr>))"

definition TimerQueue_getExpired :: "Timestamp \<Rightarrow> TimerQueue \<Rightarrow> (Entry list \<times> TimerQueue) result" where
  "TimerQueue_getExpired now q =
     (if \<not> sizes_agree q then Inl AssertFailed
      else
        let sentry = (now, uintptr_max);
            expired = before_lower_bound sentry (timers q);
            rest = from_lower_bound sentry (timers q) in
        if rest \<noteq> [] \<and> \<not> now < fst (hd rest) then Inl AssertFailed
        else
          rbind (erase_active expired (q\<lparr>timers := rest\<rparr>)) (\<lambda>q1.
          if sizes_agree q1 then Inr (expired, q1) else Inl AssertFailed))"

fun reset_expired :: "Entry list \<Rightarrow> Timestamp \<Rightarrow> TimerQueue \<Rightarrow> TimerQueue result" where
  "reset_expired [] now q = Inr q"
| "reset_expired (x # xs) now q =
     rbind (deref (snd x) (timer_heap q)) (\<lambda>t.
     let timer = (snd x, sequence t) in
     rbind
       (if repeat t \<and> timer \<notin> set (cancelingTimers q) then
          rbind (heap_write (snd x) (Timer_restart now) (timer_heap q)) (\<lambda>h.
          rbind (TimerQueue_insert (snd x) (q\<lparr>timer_heap := h\<rparr>)) (\<lambda>(_, q1). Inr q1))
        else
          rbind (heap_delete (snd x) (timer_heap q)) (\<lambda>h. Inr (q\<lparr>timer_heap := h\<rparr>)))
       (reset_expired xs now))"

definition TimerQueue_reset :: "Entry list \<Rightarrow> Timestamp \<Rightarrow> TimerQueue \<Rightarrow> TimerQueue result" where
  "TimerQueue_reset expired now q =
     rbind (reset_expired expired now q) (\<lambda>q1.
     rbind (if timers q1 \<noteq> [] then
              rbind (deref (snd (hd (timers q1))) (timer_heap q1)) (\<lambda>t. Inr (expiration t))
            else Inr Timestamp_invalid) (\<lambda>nextExpire.
     Inr (if Timestamp_vaild nextExpire then TimerQueue_resetTimer nextExpire q1 else q1)))"

section \<open>Callbacks and the handler of the asio timer\<close>

text \<open>
  What a callback does is a parameter: the operations it calls on the queue of its loop, given
  the state of the queue (it may cancel itself, or any timer whose \<open>TimerId\<close> it has), and the
  time that passes while it runs.
\<close>

datatype timer_action =
    DoAdd "nat option" Timestamp seconds
  | DoCancel TimerId
  | Pass nat

fun timer_call :: "Timer allocator \<Rightarrow> bool \<Rightarrow> timer_action \<Rightarrow> TimerQueue \<Rightarrow> TimerQueue result" where
  "timer_call alloc in_loop (DoAdd cb when iv) q =
     rbind (TimerQueue_addTimer alloc in_loop cb when iv q) (\<lambda>(_, q'). Inr q')"
| "timer_call alloc in_loop (DoCancel timerId) q = TimerQueue_cancel in_loop timerId q"
| "timer_call alloc in_loop (Pass n) q = Inr (q\<lparr>clock := clock q + int n\<rparr>)"

fun timer_calls :: "Timer allocator \<Rightarrow> timer_action list \<Rightarrow> TimerQueue \<Rightarrow> TimerQueue result" where
  "timer_calls alloc [] q = Inr q"
| "timer_calls alloc (a # as) q = rbind (timer_call alloc True a q) (timer_calls alloc as)"

definition Timer_run ::
    "Timer allocator \<Rightarrow> (nat \<Rightarrow> TimerQueue \<Rightarrow> timer_action list) \<Rightarrow> Timestamp \<Rightarrow> nat \<Rightarrow> TimerQueue \<Rightarrow> TimerQueue result" where
  "Timer_run alloc behave now timer q =
     rbind (deref timer (timer_heap q)) (\<lambda>t.
     case callback t of
       None \<Rightarrow> Inl BadFunctionCall
     | Some cb \<Rightarrow>
         (let q1 = q\<lparr>ran := ran q @ [(now, expiration t, sequence t)]\<rparr> in timer_calls alloc (behave cb q1) q1))"

fun run_expired ::
    "Timer allocator \<Rightarrow> (nat \<Rightarrow> TimerQueue \<Rightarrow> timer_action list) \<Rightarrow> Timestamp \<Rightarrow> Entry list \<Rightarrow> TimerQueue \<Rightarrow> TimerQueue result" where
  "run_expired alloc behave now [] q = Inr q"
| "run_expired alloc behave now (x # xs) q =
     rbind (Timer_run alloc behave now (snd x) q) (run_expired alloc behave now xs)"

definition on_wait ::
    "Timer allocator \<Rightarrow> (nat \<Rightarrow> TimerQueue \<Rightarrow> timer_action list) \<Rightarrow> TimerQueue \<Rightarrow> TimerQueue result" where
  "on_wait alloc behave q =
     (let now = clock q in
      rbind (TimerQueue_getExpired now q) (\<lambda>(expired, q1).
      rbind (run_expired alloc behave now expired (q1\<lparr>cancelingTimers := [], callingExpiredTimers := True\<rparr>)) (\<lambda>q2.
      TimerQueue_reset expired now (q2\<lparr>callingExpiredTimers := False\<rparr>))))"

section \<open>Runs\<close>

text \<open>Calls from the loop's thread or another one, posted functions, and the asio timer going off
  at its time or later.\<close>

datatype timer_input = TimerCall bool timer_action | RunPosted | Wake

fun timer_step :: "Timer allocator \<Rightarrow> (nat \<Rightarrow> TimerQueue \<Rightarrow> timer_action list) \<Rightarrow> timer_input \<Rightarrow> TimerQueue \<Rightarrow> TimerQueue result" where
  "timer_step alloc behave (TimerCall in_loop a) q = timer_call alloc in_loop a q"
| "timer_step alloc behave RunPosted q =
     (case timer_tasks q of
        [] \<Rightarrow> Inr q
      | PostedAdd p # ts \<Rightarrow> TimerQueue_addTimerInThisThread p (q\<lparr>timer_tasks := ts\<rparr>)
      | PostedCancel timerId # ts \<Rightarrow> TimerQueue_cancelInThisThread timerId (q\<lparr>timer_tasks := ts\<rparr>))"
| "timer_step alloc behave Wake q =
     (case steadyTimer q of
        None \<Rightarrow> Inr q
      | Some d \<Rightarrow> if clock q < d then Inr q else on_wait alloc behave (q\<lparr>steadyTimer := None\<rparr>))"

fun timer_steps :: "Timer allocator \<Rightarrow> (nat \<Rightarrow> TimerQueue \<Rightarrow> timer_action list) \<Rightarrow> timer_input list \<Rightarrow> TimerQueue \<Rightarrow> TimerQueue result" where
  "timer_steps alloc behave [] q = Inr q"
| "timer_steps alloc behave (s # ss) q = rbind (timer_step alloc behave s q) (timer_steps alloc behave ss)"

section \<open>Invariant\<close>

text \<open>The timers whose insertion is posted.\<close>

fun posted_add :: "timer_task \<Rightarrow> nat list" where
  "posted_add (PostedAdd p) = [p]"
| "posted_add (PostedCancel timerId) = []"

definition posted_adds :: "TimerQueue \<Rightarrow> nat list" where
  "posted_adds q = concat (map posted_add (timer_tasks q))"

lemma posted_adds_set: "set (posted_adds q) = {p. PostedAdd p \<in> set (timer_tasks q)}"
proof -
  have "p \<in> set (posted_add t) \<longleftrightarrow> t = PostedAdd p" for p t
    by (cases t) auto
  then show ?thesis
    by (auto simp: posted_adds_def)
qed

definition timer_ok :: "TimerQueue \<Rightarrow> nat \<Rightarrow> Timer \<Rightarrow> bool" where
  "timer_ok q p t \<longleftrightarrow> 0 < p \<and> p < uintptr_max \<and> sequence t \<le> numCreated q \<and> callback t \<noteq> None
     \<and> repeat t = positive (interval t) \<and> seconds_ok (interval t)"

text \<open>
  \<open>hs\<close> are timers that a running operation holds outside the two sets: the one about to be
  inserted, or the expired ones. Every timer in the sets, held or posted is live, none is in two
  of these places, and the second set has exactly the timers of the first.
\<close>

definition active_of :: "TimerQueue \<Rightarrow> Entry \<Rightarrow> ActiveTimer" where
  "active_of q x = (snd x, sequence (the (timer_heap q (snd x))))"

definition tq_inv :: "nat list \<Rightarrow> TimerQueue \<Rightarrow> bool" where
  "tq_inv hs q \<longleftrightarrow>
     ordered_set (timers q) \<and> ordered_set (activeTimers q) \<and>
     set (activeTimers q) = active_of q ` set (timers q) \<and>
     (\<forall>x \<in> set (timers q). \<exists>t. timer_heap q (snd x) = Some t \<and> expiration t = fst x) \<and>
     inj_on snd (set (timers q)) \<and> distinct (hs @ posted_adds q) \<and>
     snd ` set (timers q) \<inter> set (hs @ posted_adds q) = {} \<and>
     (\<forall>p \<in> set (hs @ posted_adds q). timer_heap q p \<noteq> None) \<and>
     (\<forall>p t. timer_heap q p = Some t \<longrightarrow> timer_ok q p t) \<and>
     dom (timer_heap q) \<subseteq> snd ` set (timers q) \<union> set (hs @ posted_adds q)"

lemma tq_invD:
  assumes "tq_inv hs q"
  shows "ordered_set (timers q)" "ordered_set (activeTimers q)"
    "set (activeTimers q) = active_of q ` set (timers q)"
    "x \<in> set (timers q) \<Longrightarrow> \<exists>t. timer_heap q (snd x) = Some t \<and> expiration t = fst x"
    "inj_on snd (set (timers q))" "distinct (hs @ posted_adds q)"
    "snd ` set (timers q) \<inter> set (hs @ posted_adds q) = {}"
    "p \<in> set hs \<union> set (posted_adds q) \<Longrightarrow> \<exists>t. timer_heap q p = Some t"
    "timer_heap q p = Some t \<Longrightarrow> timer_ok q p t"
    "dom (timer_heap q) \<subseteq> snd ` set (timers q) \<union> set (hs @ posted_adds q)"
proof -
  note D = assms [unfolded tq_inv_def]
  show "p \<in> set hs \<union> set (posted_adds q) \<Longrightarrow> \<exists>t. timer_heap q p = Some t"
    using D by (simp add: not_None_eq [symmetric] del: not_None_eq)
qed (use assms in \<open>simp_all add: tq_inv_def\<close>)

lemma tq_inv_updates [simp]:
  "tq_inv hs (q\<lparr>steadyTimer := s\<rparr>) = tq_inv hs q" "tq_inv hs (q\<lparr>clock := n\<rparr>) = tq_inv hs q"
  "tq_inv hs (q\<lparr>callingExpiredTimers := b\<rparr>) = tq_inv hs q" "tq_inv hs (q\<lparr>cancelingTimers := c\<rparr>) = tq_inv hs q"
  "tq_inv hs (q\<lparr>ran := r\<rparr>) = tq_inv hs q"
  by (simp_all add: tq_inv_def posted_adds_def active_of_def timer_ok_def)

lemma tq_inv_sizes [simp]:
  assumes "tq_inv hs q"
  shows "sizes_agree q"
proof -
  have "inj_on (active_of q) (set (timers q))"
    using tq_invD(5) [OF assms] by (auto simp: inj_on_def active_of_def)
  then have "bij_betw (active_of q) (set (timers q)) (set (activeTimers q))"
    using tq_invD(3) [OF assms] by (simp add: bij_betw_def)
  then show ?thesis
    using tq_invD(1,2) [OF assms] ordered_set_size unfolding sizes_agree_def by blast
qed

text \<open>Inserting a held timer.\<close>

lemma TimerQueue_insert_ok:
  assumes inv: "tq_inv (p # hs) q" and t: "timer_heap q p = Some t"
  obtains q' where
    "TimerQueue_insert p q = Inr (timers q = [] \<or> expiration t < fst (hd (timers q)), q')"
    "q' = q\<lparr>timers := insort_insert (expiration t, p) (timers q),
       activeTimers := insort_insert (p, sequence t) (activeTimers q)\<rparr>"
    "tq_inv hs q'"
proof -
  note D = tq_invD [OF inv]
  let ?q = "q\<lparr>timers := insort_insert (expiration t, p) (timers q),
       activeTimers := insort_insert (p, sequence t) (activeTimers q)\<rparr>"
  have p: "p \<notin> snd ` set (timers q)" "p \<notin> set (hs @ posted_adds q)"
    using D(6,7) by auto
  have new: "(expiration t, p) \<notin> set (timers q)" "(p, sequence t) \<notin> set (activeTimers q)"
    using p(1) D(3) by (force simp: active_of_def)+
  have inj: "inj_on snd (set (timers ?q))"
    using D(5) p(1) by (auto simp: set_insort_insert)
  have act: "set (activeTimers ?q) = active_of ?q ` set (timers ?q)"
    using D(3) t by (auto simp: set_insort_insert active_of_def)
  have live: "dom (timer_heap ?q) \<subseteq> snd ` set (timers ?q) \<union> set (hs @ posted_adds ?q)"
    using D(10) by (simp add: set_insort_insert posted_adds_def)
  have "tq_inv hs ?q"
    unfolding tq_inv_def
  proof (intro conjI)
    show "dom (timer_heap ?q) \<subseteq> snd ` set (timers ?q) \<union> set (hs @ posted_adds ?q)"
      by (rule live)
  qed (use D(1,2,4,6-9) inj act p t in
      \<open>auto simp: set_insort_insert sorted_insort_insert distinct_insort_insert posted_adds_def timer_ok_def\<close>)
  moreover from this have "sizes_agree ?q"
    by simp
  moreover have "TimerQueue_insert p q = Inr (timers q = [] \<or> expiration t < fst (hd (timers q)), ?q)"
    using inv t new \<open>sizes_agree ?q\<close> by (simp add: TimerQueue_insert_def set_emplace_def Let_def)
  ultimately show ?thesis
    using that by blast
qed

lemma resetTimer_inv [simp]: "tq_inv hs (TimerQueue_resetTimer when q) = tq_inv hs q"
  by (simp add: TimerQueue_resetTimer_def TimerQueue_update_def Let_def)

lemma addTimerInThisThread_ok:
  assumes inv: "tq_inv (p # hs) q" and t: "timer_heap q p = Some t"
  obtains q' where "TimerQueue_addTimerInThisThread p q = Inr q'" "tq_inv hs q'"
    "timers q' = insort_insert (expiration t, p) (timers q)" "timer_heap q' = timer_heap q"
    "steadyTimer q' = (if timers q = [] \<or> expiration t < fst (hd (timers q))
       then steadyTimer (TimerQueue_resetTimer (expiration t) q) else steadyTimer q)"
    "ran q' = ran q" "clock q' = clock q" "numCreated q' = numCreated q" "timer_tasks q' = timer_tasks q"
    "cancelingTimers q' = cancelingTimers q" "callingExpiredTimers q' = callingExpiredTimers q"
proof -
  obtain q1 where q1: "TimerQueue_insert p q = Inr (timers q = [] \<or> expiration t < fst (hd (timers q)), q1)"
    "q1 = q\<lparr>timers := insort_insert (expiration t, p) (timers q),
       activeTimers := insort_insert (p, sequence t) (activeTimers q)\<rparr>" "tq_inv hs q1"
    using TimerQueue_insert_ok [OF assms] .
  let ?c = "timers q = [] \<or> expiration t < fst (hd (timers q))"
  have "timer_heap q1 p = Some t"
    using t q1(2) by simp
  then have "TimerQueue_addTimerInThisThread p q = Inr (if ?c then TimerQueue_resetTimer (expiration t) q1 else q1)"
    using q1(1) by (simp add: TimerQueue_addTimerInThisThread_def)
  then show ?thesis
    by (rule that) (use q1(3) in \<open>simp_all add: q1(2) TimerQueue_resetTimer_def TimerQueue_update_def Let_def\<close>)
qed

text \<open>A new timer is held by the operation that creates it.\<close>

lemma new_timer_inv:
  assumes inv: "tq_inv hs q" and h: "timer_heap q p = None" "0 < p" "p < uintptr_max"
    and t: "callback t \<noteq> None" "sequence t = numCreated q + 1" "repeat t = positive (interval t)" "seconds_ok (interval t)"
  shows "tq_inv (p # hs) (q\<lparr>timer_heap := (timer_heap q)(p \<mapsto> t), numCreated := numCreated q + 1\<rparr>)"
proof -
  note D = tq_invD [OF inv]
  let ?q = "q\<lparr>timer_heap := (timer_heap q)(p \<mapsto> t), numCreated := numCreated q + 1\<rparr>"
  have p: "p \<notin> snd ` set (timers q)" "p \<notin> set (hs @ posted_adds q)"
    using D(4,8) h(1) by fastforce+
  have "active_of ?q x = active_of q x" if "x \<in> set (timers q)" for x
    using p(1) that by (auto simp: active_of_def)
  then have act: "active_of ?q ` set (timers q) = active_of q ` set (timers q)"
    by (rule image_cong [OF refl])
  show ?thesis
    unfolding tq_inv_def
  proof (intro conjI)
    show "\<forall>p' t'. timer_heap ?q p' = Some t' \<longrightarrow> timer_ok ?q p' t'"
      using h t by (auto simp: timer_ok_def dest!: D(9) split: if_splits)
    show "\<forall>x\<in>set (timers ?q). \<exists>t. timer_heap ?q (snd x) = Some t \<and> expiration t = fst x"
      using D(4) p(1) by (auto simp: image_iff)
    show "dom (timer_heap ?q) \<subseteq> snd ` set (timers ?q) \<union> set ((p # hs) @ posted_adds ?q)"
      using D(10) by (simp add: posted_adds_def insert_absorb subset_insertI2)
  qed (use D(1-3,5-8) act p in \<open>auto simp: posted_adds_def\<close>)
qed

lemma TimerQueue_addTimer_ok:
  assumes inv: "tq_inv hs q" and alloc: "alloc_ok alloc" and cb: "cb \<noteq> None" "seconds_ok iv"
  shows "TimerQueue_addTimer alloc in_loop cb when iv q = Inl BadAlloc \<or>
    (\<exists>p q'. TimerQueue_addTimer alloc in_loop cb when iv q
        = Inr (\<lparr>id_timer = p, id_sequence = numCreated q + 1\<rparr>, q') \<and> tq_inv hs q'
      \<and> timer_heap q' = (timer_heap q)(p \<mapsto> Timer_new cb when iv (numCreated q)) \<and> timer_heap q p = None
      \<and> numCreated q' = numCreated q + 1 \<and> ran q' = ran q \<and> clock q' = clock q
      \<and> (if in_loop then timers q' = insort_insert (when, p) (timers q)
           \<and> steadyTimer q' = (if timers q = [] \<or> when < fst (hd (timers q))
               then steadyTimer (TimerQueue_resetTimer when q) else steadyTimer q)
         else timers q' = timers q \<and> steadyTimer q' = steadyTimer q))"
proof (cases "alloc (timer_heap q)")
  case None
  then show ?thesis
    by (simp add: TimerQueue_addTimer_def heap_new_def)
next
  case (Some p)
  let ?t = "Timer_new cb when iv (numCreated q)"
  let ?q = "q\<lparr>timer_heap := (timer_heap q)(p \<mapsto> ?t), numCreated := numCreated q + 1\<rparr>"
  note p = alloc_okD [OF alloc Some]
  have new: "tq_inv (p # hs) ?q"
    using new_timer_inv [OF inv, of p ?t] p cb by (simp add: Timer_new_def)
  show ?thesis
  proof (cases in_loop)
    case True
    obtain q' where "TimerQueue_addTimerInThisThread p ?q = Inr q'" "tq_inv hs q'"
      "timers q' = insort_insert (expiration ?t, p) (timers ?q)" "timer_heap q' = timer_heap ?q"
      "steadyTimer q' = (if timers ?q = [] \<or> expiration ?t < fst (hd (timers ?q))
         then steadyTimer (TimerQueue_resetTimer (expiration ?t) ?q) else steadyTimer ?q)"
      "ran q' = ran ?q" "clock q' = clock ?q" "numCreated q' = numCreated ?q"
      by (rule addTimerInThisThread_ok [OF new]) simp_all
    then show ?thesis
      using Some True p
      by (simp add: TimerQueue_addTimer_def heap_new_def Let_def Timer_new_def TimerQueue_resetTimer_def
          TimerQueue_update_def)
  next
    case False
    let ?r = "?q\<lparr>timer_tasks := timer_tasks q @ [PostedAdd p]\<rparr>"
    have "posted_adds ?r = posted_adds q @ [p]"
      by (simp add: posted_adds_def)
    then have "tq_inv hs ?r"
      using new unfolding tq_inv_def by (auto simp: posted_adds_def active_of_def timer_ok_def)
    then show ?thesis
      using Some False p by (simp add: TimerQueue_addTimer_def heap_new_def Let_def Timer_new_def)
  qed
qed

text \<open>Taking timers out of the two sets, and deleting a held one.\<close>

lemma disjoint_sub: "A \<inter> C = {} \<Longrightarrow> B \<subseteq> A \<Longrightarrow> B \<inter> C = {}"
  by blast

lemma unlink_inv:
  assumes inv: "tq_inv hs q" and xs: "set xs \<subseteq> set (timers q)" "distinct xs"
    and ts: "ordered_set ts" "set ts = set (timers q) - set xs"
    and acts: "ordered_set acts" "set acts = set (activeTimers q) - active_of q ` set xs"
  shows "tq_inv (map snd xs @ hs) (q\<lparr>timers := ts, activeTimers := acts\<rparr>)"
proof -
  note D = tq_invD [OF inv]
  have inj: "inj_on snd (set xs)" "inj_on (active_of q) (set (timers q))"
    using D(5) xs(1) by (auto simp: inj_on_def active_of_def)
  have dist: "distinct (map snd xs)"
    using xs(2) inj(1) by (simp add: distinct_map)
  have disj: "snd ` set ts \<inter> snd ` set xs = {}"
    using D(5) xs(1) ts(2) by (auto simp: inj_on_def)
  have sub: "snd ` set ts \<subseteq> snd ` set (timers q)" "snd ` set xs \<subseteq> snd ` set (timers q)"
    using ts(2) xs(1) by auto
  have act: "set acts = active_of q ` set ts"
    using D(3) ts(2) acts(2) inj(2) xs(1) by (simp add: inj_on_image_set_diff)
  have live: "\<exists>t. timer_heap q p = Some t" if "p \<in> snd ` set xs" for p
    using that xs(1) D(4) by blast
  show ?thesis
    unfolding tq_inv_def
  proof (intro conjI)
    show "inj_on snd (set (timers (q\<lparr>timers := ts, activeTimers := acts\<rparr>)))"
      using D(5) ts(2) by (auto simp: inj_on_def)
    show "snd ` set (timers (q\<lparr>timers := ts, activeTimers := acts\<rparr>))
        \<inter> set ((map snd xs @ hs) @ posted_adds (q\<lparr>timers := ts, activeTimers := acts\<rparr>)) = {}"
    proof -
      have "snd ` set ts \<inter> set (hs @ posted_adds q) = {}"
        using D(7) sub(1) by (rule disjoint_sub)
      moreover have "posted_adds (q\<lparr>timers := ts, activeTimers := acts\<rparr>) = posted_adds q"
        by (simp add: posted_adds_def)
      ultimately show ?thesis
        using disj by (simp add: Int_Un_distrib)
    qed
    show "distinct ((map snd xs @ hs) @ posted_adds (q\<lparr>timers := ts, activeTimers := acts\<rparr>))"
    proof -
      have "snd ` set xs \<inter> set (hs @ posted_adds q) = {}"
        using D(7) sub(2) by (rule disjoint_sub)
      moreover have "posted_adds (q\<lparr>timers := ts, activeTimers := acts\<rparr>) = posted_adds q"
        by (simp add: posted_adds_def)
      ultimately show ?thesis
        using dist D(6) by (simp add: Int_Un_distrib)
    qed
    show "\<forall>p\<in>set ((map snd xs @ hs) @ posted_adds (q\<lparr>timers := ts, activeTimers := acts\<rparr>)).
        timer_heap (q\<lparr>timers := ts, activeTimers := acts\<rparr>) p \<noteq> None"
      using live D(8) by (fastforce simp: posted_adds_def)
    show "\<forall>x\<in>set (timers (q\<lparr>timers := ts, activeTimers := acts\<rparr>)).
        \<exists>t. timer_heap (q\<lparr>timers := ts, activeTimers := acts\<rparr>) (snd x) = Some t \<and> expiration t = fst x"
      using D(4) ts(2) by simp
    show "dom (timer_heap (q\<lparr>timers := ts, activeTimers := acts\<rparr>))
        \<subseteq> snd ` set (timers (q\<lparr>timers := ts, activeTimers := acts\<rparr>))
          \<union> set ((map snd xs @ hs) @ posted_adds (q\<lparr>timers := ts, activeTimers := acts\<rparr>))"
    proof -
      have "snd ` set (timers q) = snd ` set ts \<union> snd ` set xs"
        using ts(2) xs(1) by auto
      then show ?thesis
        using D(10) by (simp add: posted_adds_def Un_assoc)
    qed
    show "\<forall>p t. timer_heap (q\<lparr>timers := ts, activeTimers := acts\<rparr>) p = Some t
        \<longrightarrow> timer_ok (q\<lparr>timers := ts, activeTimers := acts\<rparr>) p t"
      using D(9) by (simp add: timer_ok_def)
  qed (use ts(1) acts(1) act in \<open>simp_all add: active_of_def\<close>)
qed

text \<open>An object that is not in the sets can change or go.\<close>

lemma held_write_inv:
  assumes inv: "tq_inv (p # hs) q" and t: "timer_ok q p t"
  shows "tq_inv (p # hs) (q\<lparr>timer_heap := (timer_heap q)(p \<mapsto> t)\<rparr>)"
proof -
  note D = tq_invD [OF inv]
  let ?q = "q\<lparr>timer_heap := (timer_heap q)(p \<mapsto> t)\<rparr>"
  have p: "p \<notin> snd ` set (timers q)"
    using D(7) by auto
  have "active_of ?q x = active_of q x" if "x \<in> set (timers q)" for x
    using p that by (auto simp: active_of_def)
  then have act: "active_of ?q ` set (timers q) = active_of q ` set (timers q)"
    by (rule image_cong [OF refl])
  show ?thesis
    unfolding tq_inv_def
  proof (intro conjI)
    show "\<forall>x\<in>set (timers ?q). \<exists>t. timer_heap ?q (snd x) = Some t \<and> expiration t = fst x"
      using D(4) p by (auto simp: image_iff)
    show "\<forall>p' t'. timer_heap ?q p' = Some t' \<longrightarrow> timer_ok ?q p' t'"
      using t by (auto simp: timer_ok_def dest!: D(9) split: if_splits)
    show "dom (timer_heap ?q) \<subseteq> snd ` set (timers ?q) \<union> set ((p # hs) @ posted_adds ?q)"
      using D(10) by (simp add: posted_adds_def)
  qed (use D(1-3,5-8) act p in \<open>auto simp: posted_adds_def\<close>)
qed

lemma held_delete_inv:
  assumes inv: "tq_inv (p # hs) q"
  shows "tq_inv hs (q\<lparr>timer_heap := (timer_heap q)(p := None)\<rparr>)"
proof -
  note D = tq_invD [OF inv]
  let ?q = "q\<lparr>timer_heap := (timer_heap q)(p := None)\<rparr>"
  have p: "p \<notin> snd ` set (timers q)" "p \<notin> set (hs @ posted_adds q)"
    using D(6,7) by auto
  have "active_of ?q x = active_of q x" if "x \<in> set (timers q)" for x
    using p that by (auto simp: active_of_def)
  then have act: "active_of ?q ` set (timers q) = active_of q ` set (timers q)"
    by (rule image_cong [OF refl])
  show ?thesis
    unfolding tq_inv_def
  proof (intro conjI)
    show "\<forall>x\<in>set (timers ?q). \<exists>t. timer_heap ?q (snd x) = Some t \<and> expiration t = fst x"
      using D(4) p(1) by (auto simp: image_iff)
    show "\<forall>p' t'. timer_heap ?q p' = Some t' \<longrightarrow> timer_ok ?q p' t'"
      by (auto simp: timer_ok_def dest!: D(9) split: if_splits)
    show "\<forall>p'\<in>set (hs @ posted_adds ?q). timer_heap ?q p' \<noteq> None"
      using D(8) p(2) by (auto simp: posted_adds_def)
    show "dom (timer_heap ?q) \<subseteq> snd ` set (timers ?q) \<union> set (hs @ posted_adds ?q)"
      using D(10) by (simp add: posted_adds_def) blast
  qed (use D(1-3,5-7) act p in \<open>auto simp: posted_adds_def\<close>)
qed

text \<open>Cancelling.\<close>

lemma cancelInThisThread_ok:
  assumes inv: "tq_inv hs q"
  obtains q' where "TimerQueue_cancelInThisThread i q = Inr q'" "tq_inv hs q'"
    "ran q' = ran q" "clock q' = clock q" "numCreated q' = numCreated q" "steadyTimer q' = steadyTimer q"
    "set (timers q') \<subseteq> set (timers q)" "timer_heap q' \<subseteq>\<^sub>m timer_heap q"
    "(id_timer i, id_sequence i) \<in> set (activeTimers q) \<longrightarrow> timer_heap q' = (timer_heap q)(id_timer i := None)"
    "(id_timer i, id_sequence i) \<notin> set (activeTimers q) \<longrightarrow> timer_heap q' = timer_heap q"
    "(id_timer i, id_sequence i) \<in> set (activeTimers q) \<longrightarrow> id_timer i \<in> snd ` set (timers q)
      \<and> (\<exists>t. timer_heap q (id_timer i) = Some t \<and> sequence t = id_sequence i)"
proof (cases "(id_timer i, id_sequence i) \<in> set (activeTimers q)")
  case True
  note D = tq_invD [OF inv]
  obtain x where x: "x \<in> set (timers q)" "active_of q x = (id_timer i, id_sequence i)"
    using True D(3) by auto
  obtain t where t: "timer_heap q (id_timer i) = Some t" "expiration t = fst x" "snd x = id_timer i"
    using D(4) [OF x(1)] x(2) by (auto simp: active_of_def)
  have e: "(expiration t, id_timer i) = x" "0 < id_timer i"
    using t D(9) [OF t(1)] by (simp_all add: timer_ok_def prod_eq_iff)
  let ?ts = "removeAll x (timers q)" and ?as = "removeAll (id_timer i, id_sequence i) (activeTimers q)"
  let ?q = "q\<lparr>timers := ?ts, activeTimers := ?as\<rparr>"
  have "ordered_set ?ts" "ordered_set ?as"
    using set_erase_ordered [OF D(1), of x] set_erase_ordered [OF D(2), of "(id_timer i, id_sequence i)"]
    by (simp_all add: set_erase_def)
  then have "tq_inv (map snd [x] @ hs) ?q"
    by (intro unlink_inv [OF inv]) (use x in auto)
  then have held: "tq_inv hs (?q\<lparr>timer_heap := (timer_heap ?q)(id_timer i := None)\<rparr>)" (is "tq_inv hs ?r")
    using t(3) by (intro held_delete_inv) simp
  then have "sizes_agree ?r"
    by simp
  then have "sizes_agree (q\<lparr>timers := ?ts, timer_heap := (timer_heap q)(id_timer i := None), activeTimers := ?as\<rparr>)"
    by (simp add: sizes_agree_def)
  then have "TimerQueue_cancelInThisThread i q = Inr ?r"
    using inv True t(1) e x(1) by (simp add: TimerQueue_cancelInThisThread_def set_erase_def Let_def)
  moreover have "(timer_heap q)(id_timer i := None) \<subseteq>\<^sub>m timer_heap q"
    by (simp add: map_le_def)
  moreover have "id_timer i \<in> snd ` set (timers q)" "sequence t = id_sequence i"
    using x t by (force simp: active_of_def)+
  ultimately show ?thesis
    using that [of ?r] held True t(1) by auto
next
  case False
  let ?r = "if callingExpiredTimers q
    then q\<lparr>cancelingTimers := snd (set_emplace (id_timer i, id_sequence i) (cancelingTimers q))\<rparr> else q"
  have "tq_inv hs ?r"
    using inv by simp
  moreover from this have "TimerQueue_cancelInThisThread i q = Inr ?r"
    using tq_inv_sizes [OF inv] False by (simp add: TimerQueue_cancelInThisThread_def Let_def sizes_agree_def)
  ultimately show ?thesis
    using that [of ?r] False by auto
qed

section \<open>What the operations keep\<close>

text \<open>The asio timer goes off in time for every timer whose expiration satisfies \<open>P\<close>.\<close>

definition armed :: "(Timestamp \<Rightarrow> bool) \<Rightarrow> TimerQueue \<Rightarrow> bool" where
  "armed P q \<longleftrightarrow> (\<forall>x \<in> set (timers q). P (fst x) \<longrightarrow>
     (\<exists>d. steadyTimer q = Some d \<and> d \<le> max (fst x) (clock q)))"

text \<open>The timers with sequence number \<open>s\<close> are at addresses of \<open>A\<close>, and no new one gets it.\<close>

definition confined :: "nat set \<Rightarrow> int \<Rightarrow> TimerQueue \<Rightarrow> bool" where
  "confined A s q \<longleftrightarrow> s \<le> numCreated q \<and> (\<forall>p t. timer_heap q p = Some t \<longrightarrow> sequence t = s \<longrightarrow> p \<in> A)"

lemma confined_updates [simp]:
  "confined A s (q\<lparr>steadyTimer := x\<rparr>) = confined A s q" "confined A s (q\<lparr>callingExpiredTimers := b\<rparr>) = confined A s q"
  "confined A s (q\<lparr>timer_tasks := ts\<rparr>) = confined A s q" "confined A s (TimerQueue_resetTimer when q) = confined A s q"
  by (simp_all add: confined_def TimerQueue_resetTimer_def TimerQueue_update_def Let_def)

definition down_closed :: "(Timestamp \<Rightarrow> bool) \<Rightarrow> bool" where
  "down_closed P \<longleftrightarrow> (\<forall>e e'. P e \<longrightarrow> e' \<le> e \<longrightarrow> P e')"

definition keeps_core :: "nat list \<Rightarrow> TimerQueue \<Rightarrow> TimerQueue \<Rightarrow> bool" where
  "keeps_core hs q q' \<longleftrightarrow> tq_inv hs q' \<and> clock q \<le> clock q'
     \<and> (\<forall>p \<in> set hs. timer_heap q' p = timer_heap q p)
     \<and> (\<forall>P. down_closed P \<longrightarrow> armed P q \<longrightarrow> armed P q') \<and> (\<forall>A s. confined A s q \<longrightarrow> confined A s q')"

definition keeps :: "nat list \<Rightarrow> TimerQueue \<Rightarrow> TimerQueue \<Rightarrow> bool" where
  "keeps hs q q' \<longleftrightarrow> keeps_core hs q q' \<and> ran q' = ran q"

lemmas keeps_defs = keeps_def keeps_core_def

lemma keeps_core_ran [simp]:
  "keeps_core hs (q\<lparr>ran := r\<rparr>) q' = keeps_core hs q q'" "keeps_core hs q (q'\<lparr>ran := r\<rparr>) = keeps_core hs q q'"
  by (simp_all add: keeps_core_def armed_def confined_def)

lemma keeps_core_trans: "keeps_core hs q r \<Longrightarrow> keeps_core hs r s \<Longrightarrow> keeps_core hs q s"
  unfolding keeps_core_def by auto

lemma keeps_refl: "tq_inv hs q \<Longrightarrow> keeps hs q q"
  by (simp add: keeps_defs)

lemma keeps_trans: "keeps hs q r \<Longrightarrow> keeps hs r s \<Longrightarrow> keeps hs q s"
  unfolding keeps_defs by auto

lemma resetTimer_deadline:
  "\<exists>d. steadyTimer (TimerQueue_resetTimer when q) = Some d \<and> d \<le> max when (clock q)"
proof -
  have "m div 1000000 * 1000000 \<le> m" for m :: int
    using pos_mod_sign [of "1000000" m] div_mult_mod_eq [of m 1000000] by linarith
  then show ?thesis
    by (auto simp: TimerQueue_resetTimer_def TimerQueue_update_def kMicroSecondsPerSecond_def Let_def max_def)
qed

text \<open>Arming for an entry that comes first is enough for all.\<close>

lemma armed_first:
  assumes "steadyTimer q = Some d" "d \<le> max e (clock q)" "\<forall>x \<in> set (timers q). e \<le> fst x"
  shows "armed P q"
  unfolding armed_def
proof (intro ballI impI)
  fix x assume "x \<in> set (timers q)"
  then have "max e (clock q) \<le> max (fst x) (clock q)"
    using assms(3) by (simp add: max.coboundedI1 max.coboundedI2)
  then show "\<exists>d. steadyTimer q = Some d \<and> d \<le> max (fst x) (clock q)"
    using assms(1,2) by auto
qed

lemma sorted_entries_first:
  fixes ts :: "Entry list"
  shows "sorted ts \<Longrightarrow> x \<in> set ts \<Longrightarrow> fst (hd ts) \<le> fst x"
  by (cases ts) (auto simp: less_eq_prod_def)

text \<open>An insertion arms the asio timer when the new timer comes first.\<close>

lemma armed_insert:
  assumes ord: "ordered_set (timers q)" and P: "down_closed P" "armed P q"
    and q': "timers q' = insort_insert (when, p) (timers q)" "clock q' = clock q"
      "steadyTimer q' = (if timers q = [] \<or> when < fst (hd (timers q))
         then steadyTimer (TimerQueue_resetTimer when q) else steadyTimer q)"
  shows "armed P q'"
proof (cases "timers q = [] \<or> when < fst (hd (timers q))")
  case True
  obtain d where "steadyTimer q' = Some d" "d \<le> max when (clock q')"
    using resetTimer_deadline [of "when" q] True q'(2,3) by auto
  moreover have "\<forall>x \<in> set (timers q'). when \<le> fst x"
    using True ord sorted_entries_first [of "timers q"] q'(1) by (fastforce simp: set_insort_insert)
  ultimately show ?thesis
    by (rule armed_first)
next
  case False
  let ?h = "hd (timers q)"
  have h: "?h \<in> set (timers q)" "fst ?h \<le> when"
    using False by auto
  have "\<exists>d. steadyTimer q = Some d \<and> d \<le> max when (clock q)" if "P when"
  proof -
    have "P (fst ?h)"
      using P(1) that h(2) by (auto simp: down_closed_def)
    then obtain d where "steadyTimer q = Some d" "d \<le> max (fst ?h) (clock q)"
      using P(2) h(1) by (auto simp: armed_def)
    then show ?thesis
      using h(2) by auto
  qed
  then show ?thesis
    using P(2) False q' by (auto simp: armed_def set_insort_insert)
qed

fun action_ok :: "timer_action \<Rightarrow> bool" where
  "action_ok (DoAdd cb when iv) \<longleftrightarrow> cb \<noteq> None \<and> seconds_ok iv"
| "action_ok _ \<longleftrightarrow> True"

lemma add_keeps:
  assumes inv: "tq_inv hs q" and alloc: "alloc_ok alloc" and cb: "cb \<noteq> None" "seconds_ok iv"
  shows "TimerQueue_addTimer alloc in_loop cb when iv q = Inl BadAlloc \<or>
    (\<exists>i q'. TimerQueue_addTimer alloc in_loop cb when iv q = Inr (i, q') \<and> keeps hs q q')"
proof -
  let ?t = "Timer_new cb when iv (numCreated q)"
  consider "TimerQueue_addTimer alloc in_loop cb when iv q = Inl BadAlloc"
    | p q' where "TimerQueue_addTimer alloc in_loop cb when iv q
        = Inr (\<lparr>id_timer = p, id_sequence = numCreated q + 1\<rparr>, q')" "tq_inv hs q'"
      "timer_heap q' = (timer_heap q)(p \<mapsto> ?t)" "timer_heap q p = None"
      "numCreated q' = numCreated q + 1" "ran q' = ran q" "clock q' = clock q"
      "if in_loop then timers q' = insort_insert (when, p) (timers q)
           \<and> steadyTimer q' = (if timers q = [] \<or> when < fst (hd (timers q))
               then steadyTimer (TimerQueue_resetTimer when q) else steadyTimer q)
         else timers q' = timers q \<and> steadyTimer q' = steadyTimer q"
    using TimerQueue_addTimer_ok [OF inv alloc cb, of in_loop "when"] by blast
  then show ?thesis
  proof cases
    case (2 p q')
    have "armed P q'" if P: "down_closed P" "armed P q" for P
    proof (cases in_loop)
      case True
      then show ?thesis
        using armed_insert [OF tq_invD(1) [OF inv] P] 2(7,8) by simp
    next
      case False
      then show ?thesis
        using P(2) 2(7,8) by (simp add: armed_def)
    qed
    moreover have "timer_heap q' h = timer_heap q h" if "h \<in> set hs" for h
      using tq_invD(8) [OF inv, of h] that 2(3,4) by auto
    moreover have "confined A s q'" if "confined A s q" for A s
      using that 2(3,5) by (auto simp: confined_def Timer_new_def)
    ultimately have "keeps hs q q'"
      using 2 by (simp add: keeps_defs)
    then show ?thesis
      using 2(1) by blast
  qed simp
qed

lemma cancelInThisThread_keeps:
  assumes inv: "tq_inv hs q"
  obtains q' where "TimerQueue_cancelInThisThread i q = Inr q'" "keeps hs q q'"
    "(id_timer i, id_sequence i) \<in> set (activeTimers q) \<longrightarrow> timer_heap q' = (timer_heap q)(id_timer i := None)"
proof -
  let ?a = "(id_timer i, id_sequence i) \<in> set (activeTimers q)"
  obtain q' where q': "TimerQueue_cancelInThisThread i q = Inr q'" "tq_inv hs q'"
    "ran q' = ran q" "clock q' = clock q" "numCreated q' = numCreated q" "steadyTimer q' = steadyTimer q"
    "set (timers q') \<subseteq> set (timers q)" "timer_heap q' \<subseteq>\<^sub>m timer_heap q"
    "?a \<longrightarrow> timer_heap q' = (timer_heap q)(id_timer i := None)"
    "\<not> ?a \<longrightarrow> timer_heap q' = timer_heap q"
    "?a \<longrightarrow> id_timer i \<in> snd ` set (timers q) \<and> (\<exists>t. timer_heap q (id_timer i) = Some t \<and> sequence t = id_sequence i)"
    by (rule cancelInThisThread_ok [OF inv, where i = i])
  have "timer_heap q' h = timer_heap q h" if "h \<in> set hs" for h
  proof (cases ?a)
    case True
    then have "h \<noteq> id_timer i"
      using tq_invD(7) [OF inv] that q'(11) by auto
    then show ?thesis
      using q'(9) True by simp
  qed (simp add: q'(10))
  moreover have "armed P q'" if "armed P q" for P
    using that q'(4,6,7) by (auto simp: armed_def)
  moreover have "confined A s q'" if "confined A s q" for A s
    using that q'(5,8) by (fastforce simp: confined_def map_le_def dom_def)
  ultimately have "keeps hs q q'"
    using q'(2-4) by (simp add: keeps_defs)
  then show ?thesis
    using that q'(1,9) by simp
qed

lemma posted_task_keeps:
  assumes "tq_inv hs q"
  shows "keeps hs q (q\<lparr>timer_tasks := timer_tasks q @ [PostedCancel i]\<rparr>)"
proof -
  have "posted_adds (q\<lparr>timer_tasks := timer_tasks q @ [PostedCancel i]\<rparr>) = posted_adds q"
    by (simp add: posted_adds_def)
  then have "tq_inv hs (q\<lparr>timer_tasks := timer_tasks q @ [PostedCancel i]\<rparr>)"
    using assms by (simp add: tq_inv_def active_of_def timer_ok_def)
  then show ?thesis
    by (simp add: keeps_defs armed_def confined_def)
qed

lemma timer_call_keeps:
  assumes inv: "tq_inv hs q" and alloc: "alloc_ok alloc" and a: "action_ok a"
  shows "timer_call alloc in_loop a q = Inl BadAlloc \<or> (\<exists>q'. timer_call alloc in_loop a q = Inr q' \<and> keeps hs q q')"
proof (cases a)
  case (DoAdd cb w iv)
  then show ?thesis
    using add_keeps [OF inv alloc, of cb iv in_loop w] a by auto
next
  case (DoCancel i)
  then show ?thesis
    using cancelInThisThread_keeps [OF inv, where i = i] posted_task_keeps [OF inv, of i]
    by (cases in_loop) (auto simp: TimerQueue_cancel_def)
next
  case (Pass n)
  have "keeps hs q (q\<lparr>clock := clock q + int n\<rparr>)"
    using inv by (auto simp: keeps_defs armed_def confined_def)
  then show ?thesis
    using Pass by simp
qed

lemma timer_calls_keeps:
  assumes "tq_inv hs q" "alloc_ok alloc" "list_all action_ok as"
  shows "timer_calls alloc as q = Inl BadAlloc \<or> (\<exists>q'. timer_calls alloc as q = Inr q' \<and> keeps hs q q')"
  using assms(1,3)
proof (induction as arbitrary: q)
  case Nil
  then show ?case
    by (simp add: keeps_refl)
next
  case (Cons a as)
  show ?case
  proof (cases "timer_call alloc True a q")
    case (Inl e)
    then show ?thesis
      using timer_call_keeps [OF Cons.prems(1) assms(2), of a True] Cons.prems(2) by auto
  next
    case (Inr r)
    then have "keeps hs q r"
      using timer_call_keeps [OF Cons.prems(1) assms(2), of a True] Cons.prems(2) by auto
    moreover from this have "tq_inv hs r"
      by (simp add: keeps_defs)
    ultimately show ?thesis
      using Cons.IH [of r] Cons.prems(2) Inr keeps_trans by fastforce
  qed
qed

section \<open>The handler of the asio timer\<close>

lemma erase_active_ok:
  assumes "\<forall>x \<in> set xs. timer_heap q (snd x) \<noteq> None" "active_of q ` set xs \<subseteq> set (activeTimers q)"
    and "distinct (map snd xs)"
  shows "erase_active xs q = Inr (q\<lparr>activeTimers := filter (\<lambda>a. a \<notin> active_of q ` set xs) (activeTimers q)\<rparr>)"
  using assms
proof (induction xs arbitrary: q)
  case (Cons x xs)
  let ?a = "active_of q x" and ?acts = "removeAll (active_of q x) (activeTimers q)"
  let ?q = "q\<lparr>activeTimers := ?acts\<rparr>"
  obtain t where t: "timer_heap q (snd x) = Some t"
    using Cons.prems(1) by auto
  have a: "(snd x, sequence t) = ?a"
    by (simp add: active_of_def t)
  have same: "active_of ?q = active_of q"
    by (auto simp: active_of_def)
  have "?a \<notin> active_of q ` set xs"
    using Cons.prems(3) by (auto simp: active_of_def)
  then have "active_of ?q ` set xs \<subseteq> set (activeTimers ?q)"
    using Cons.prems(2) unfolding same by auto
  then have "erase_active xs ?q = Inr (?q\<lparr>activeTimers := filter (\<lambda>b. b \<notin> active_of ?q ` set xs) (activeTimers ?q)\<rparr>)"
    using Cons.prems(1,3) by (intro Cons.IH) auto
  moreover have "filter (\<lambda>b. b \<notin> active_of q ` set xs) ?acts = filter (\<lambda>b. b \<notin> active_of q ` set (x # xs)) (activeTimers q)"
    by (simp add: removeAll_filter_not_eq) (rule filter_cong, auto)
  moreover have "erase_active (x # xs) q = erase_active xs ?q"
    using t Cons.prems(2) a by (simp add: set_erase_def Let_def)
  ultimately show ?case
    by (simp add: same)
qed simp

lemma sentry_split:
  assumes "tq_inv hs q"
  shows "before_lower_bound (now, uintptr_max) (timers q) = filter (\<lambda>x. fst x \<le> now) (timers q)"
    and "from_lower_bound (now, uintptr_max) (timers q) = filter (\<lambda>x. \<not> fst x \<le> now) (timers q)"
proof -
  have lt: "x < (now, uintptr_max) \<longleftrightarrow> fst x \<le> now" if x: "x \<in> set (timers q)" for x
  proof -
    obtain t where "timer_heap q (snd x) = Some t"
      using tq_invD(4) [OF assms x] by blast
    then have "snd x < uintptr_max"
      using tq_invD(9) [OF assms] by (simp add: timer_ok_def)
    then show ?thesis
      by (auto simp: less_prod_def)
  qed
  show "before_lower_bound (now, uintptr_max) (timers q) = filter (\<lambda>x. fst x \<le> now) (timers q)"
    "from_lower_bound (now, uintptr_max) (timers q) = filter (\<lambda>x. \<not> fst x \<le> now) (timers q)"
    using tq_invD(1) [OF assms] lt by (auto simp: before_lower_bound_sorted intro!: filter_cong)
qed

definition due :: "Timestamp \<Rightarrow> TimerQueue \<Rightarrow> Entry list" where
  "due now q = filter (\<lambda>x. fst x \<le> now) (timers q)"

lemma getExpired_ok:
  assumes inv: "tq_inv hs q"
  obtains q' where "TimerQueue_getExpired now q = Inr (due now q, q')" "tq_inv (map snd (due now q) @ hs) q'"
    "timers q' = filter (\<lambda>x. \<not> fst x \<le> now) (timers q)" "timer_heap q' = timer_heap q" "ran q' = ran q"
    "clock q' = clock q" "steadyTimer q' = steadyTimer q" "numCreated q' = numCreated q"
proof -
  note D = tq_invD [OF inv]
  let ?xs = "due now q" and ?rest = "filter (\<lambda>x. \<not> fst x \<le> now) (timers q)"
  let ?acts = "filter (\<lambda>a. a \<notin> active_of q ` set ?xs) (activeTimers q)"
  let ?q = "q\<lparr>timers := ?rest, activeTimers := ?acts\<rparr>"
  have xs: "set ?xs \<subseteq> set (timers q)" "distinct ?xs" "set ?rest = set (timers q) - set ?xs"
    using D(1) by (auto simp: due_def)
  have "inj_on snd (set ?xs)"
    using D(5) xs(1) by (rule inj_on_subset)
  then have dist: "distinct (map snd ?xs)"
    using xs(2) by (simp add: distinct_map)
  have ord: "ordered_set ?rest" "ordered_set ?acts"
    using D(1,2) sorted_filter [of "\<lambda>x. x"] by fastforce+
  have inv': "tq_inv (map snd ?xs @ hs) ?q"
    by (rule unlink_inv [OF inv xs(1,2) ord(1) xs(3) ord(2)]) auto
  have "active_of (q\<lparr>timers := ?rest\<rparr>) = active_of q"
    by (auto simp: active_of_def)
  moreover have "\<forall>x \<in> set ?xs. timer_heap q (snd x) \<noteq> None" "active_of q ` set ?xs \<subseteq> set (activeTimers q)"
    using D(3,4) xs(1) by fastforce+
  ultimately have "erase_active ?xs (q\<lparr>timers := ?rest\<rparr>) = Inr ?q"
    using erase_active_ok [of ?xs "q\<lparr>timers := ?rest\<rparr>"] dist by simp
  moreover have "?rest = [] \<or> now < fst (hd ?rest)"
    using hd_in_set [of ?rest] by (cases "?rest = []") (auto simp del: hd_in_set)
  ultimately have "TimerQueue_getExpired now q = Inr (?xs, ?q)"
    using inv inv' sentry_split [OF inv, of now]
    by (simp add: TimerQueue_getExpired_def Let_def due_def)
  then show ?thesis
    by (rule that) (use inv' in simp_all)
qed

definition stamps :: "Timestamp \<Rightarrow> TimerQueue \<Rightarrow> Entry list \<Rightarrow> (Timestamp \<times> Timestamp \<times> int) list" where
  "stamps now q xs = map (\<lambda>x. (now, fst x, sequence (the (timer_heap q (snd x))))) xs"

definition behave_ok :: "(nat \<Rightarrow> TimerQueue \<Rightarrow> timer_action list) \<Rightarrow> bool" where
  "behave_ok behave \<longleftrightarrow> (\<forall>cb q. list_all action_ok (behave cb q))"

text \<open>The expired timers run one after the other; whatever their callbacks do, those still to
  run stay alive.\<close>

lemma run_expired_ok:
  assumes "tq_inv hs q" "alloc_ok alloc" "behave_ok behave" "set (map snd xs) \<subseteq> set hs"
    and "\<forall>x \<in> set xs. \<exists>t. timer_heap q (snd x) = Some t \<and> expiration t = fst x"
  shows "run_expired alloc behave now xs q = Inl BadAlloc \<or>
    (\<exists>q'. run_expired alloc behave now xs q = Inr q' \<and> keeps hs q (q'\<lparr>ran := ran q\<rparr>)
       \<and> ran q' = ran q @ stamps now q xs)"
  using assms(1,4,5)
proof (induction xs arbitrary: q)
  case Nil
  then show ?case
    by (simp add: keeps_refl stamps_def)
next
  case (Cons x xs)
  obtain t where t: "timer_heap q (snd x) = Some t" "expiration t = fst x"
    using Cons.prems(3) by auto
  obtain cb where cb: "callback t = Some cb"
    using tq_invD(9) [OF Cons.prems(1) t(1)] by (auto simp: timer_ok_def)
  let ?q = "q\<lparr>ran := ran q @ [(now, expiration t, sequence t)]\<rparr>"
  have run: "Timer_run alloc behave now (snd x) q = timer_calls alloc (behave cb ?q) ?q"
    by (simp add: Timer_run_def t(1) cb Let_def)
  have "tq_inv hs ?q"
    using Cons.prems(1) by simp
  moreover have "list_all action_ok (behave cb ?q)"
    using assms(3) by (simp add: behave_ok_def)
  ultimately have "timer_calls alloc (behave cb ?q) ?q = Inl BadAlloc
      \<or> (\<exists>r. timer_calls alloc (behave cb ?q) ?q = Inr r \<and> keeps hs ?q r)"
    by (rule timer_calls_keeps [OF _ assms(2)])
  then show ?case
  proof
    assume "\<exists>r. timer_calls alloc (behave cb ?q) ?q = Inr r \<and> keeps hs ?q r"
    then obtain r where r: "timer_calls alloc (behave cb ?q) ?q = Inr r" "keeps hs ?q r"
      by blast
    have same: "timer_heap r p = timer_heap q p" if "p \<in> set hs" for p
      using r(2) that by (simp add: keeps_defs)
    have ranr: "ran r = ran q @ [(now, fst x, sequence t)]"
      using r(2) t(2) by (simp add: keeps_defs)
    have st: "stamps now r xs = stamps now q xs"
      using Cons.prems(2) same by (auto simp: stamps_def)
    have "run_expired alloc behave now xs r = Inl BadAlloc \<or>
      (\<exists>q'. run_expired alloc behave now xs r = Inr q' \<and> keeps hs r (q'\<lparr>ran := ran r\<rparr>)
         \<and> ran q' = ran r @ stamps now r xs)"
    proof (rule Cons.IH)
      show "tq_inv hs r"
        using r(2) by (simp add: keeps_defs)
      show "\<forall>x\<in>set xs. \<exists>t. timer_heap r (snd x) = Some t \<and> expiration t = fst x"
      proof
        fix y assume y: "y \<in> set xs"
        then have "snd y \<in> set hs"
          using Cons.prems(2) by auto
        then have "timer_heap r (snd y) = timer_heap q (snd y)"
          by (rule same)
        then show "\<exists>t. timer_heap r (snd y) = Some t \<and> expiration t = fst y"
          using Cons.prems(3) y by simp
      qed
    qed (use Cons.prems(2) in simp)
    then show ?thesis
    proof
      assume "\<exists>q'. run_expired alloc behave now xs r = Inr q' \<and> keeps hs r (q'\<lparr>ran := ran r\<rparr>)
         \<and> ran q' = ran r @ stamps now r xs"
      then obtain q' where q': "run_expired alloc behave now xs r = Inr q'" "keeps hs r (q'\<lparr>ran := ran r\<rparr>)"
        "ran q' = ran r @ stamps now r xs"
        by blast
      have "keeps_core hs q r"
        using r(2) by (simp add: keeps_def)
      moreover have "keeps_core hs r q'"
        using q'(2) by (simp add: keeps_def)
      ultimately have "keeps hs q (q'\<lparr>ran := ran q\<rparr>)"
        using keeps_core_trans by (simp add: keeps_def)
      moreover have "ran q' = ran q @ stamps now q (x # xs)"
        using q'(3) ranr st t by (simp add: stamps_def)
      ultimately show ?thesis
        using q'(1) run r(1) by auto
    qed (use run r(1) in simp)
  qed (use run in simp)
qed

lemma TimerQueue_insert_facts:
  assumes "tq_inv (p # hs) q" "timer_heap q p = Some t"
  obtains c q' where "TimerQueue_insert p q = Inr (c, q')" "tq_inv hs q'"
    "timers q' = insort_insert (expiration t, p) (timers q)" "timer_heap q' = timer_heap q"
    "ran q' = ran q" "clock q' = clock q" "steadyTimer q' = steadyTimer q" "numCreated q' = numCreated q"
    "cancelingTimers q' = cancelingTimers q"
proof -
  obtain q' where q': "TimerQueue_insert p q = Inr (timers q = [] \<or> expiration t < fst (hd (timers q)), q')"
    "q' = q\<lparr>timers := insort_insert (expiration t, p) (timers q),
       activeTimers := insort_insert (p, sequence t) (activeTimers q)\<rparr>" "tq_inv hs q'"
    by (rule TimerQueue_insert_ok [OF assms])
  show ?thesis
    by (rule that [OF q'(1)]) (use q'(3) in \<open>simp_all add: q'(2)\<close>)
qed

text \<open>After their callbacks the expired timers are armed again or deleted.\<close>

lemma reset_expired_ok:
  assumes "tq_inv (map snd xs @ hs) q" "0 < now" "armed (\<lambda>e. e \<le> 0) q"
  obtains q' where "reset_expired xs now q = Inr q'" "tq_inv hs q'" "armed (\<lambda>e. e \<le> 0) q'"
    "ran q' = ran q" "clock q' = clock q" "steadyTimer q' = steadyTimer q" "\<forall>A s. confined A s q \<longrightarrow> confined A s q'"
  using assms
proof (induction xs arbitrary: q thesis)
  case Nil
  then show ?case
    by simp
next
  case (Cons x xs)
  have inv: "tq_inv (snd x # map snd xs @ hs) q"
    using Cons.prems(2) by simp
  obtain t where t: "timer_heap q (snd x) = Some t"
    using tq_invD(8) [OF inv, of "snd x"] by auto
  note ok = tq_invD(9) [OF inv t]
  have one: "\<exists>r. rbind
       (if repeat t \<and> (snd x, sequence t) \<notin> set (cancelingTimers q) then
          rbind (heap_write (snd x) (Timer_restart now) (timer_heap q)) (\<lambda>h.
          rbind (TimerQueue_insert (snd x) (q\<lparr>timer_heap := h\<rparr>)) (\<lambda>(_, q1). Inr q1))
        else
          rbind (heap_delete (snd x) (timer_heap q)) (\<lambda>h. Inr (q\<lparr>timer_heap := h\<rparr>)))
       (reset_expired xs now) = reset_expired xs now r \<and> tq_inv (map snd xs @ hs) r \<and> armed (\<lambda>e. e \<le> 0) r
       \<and> ran r = ran q \<and> clock r = clock q \<and> steadyTimer r = steadyTimer q \<and> (\<forall>A s. confined A s q \<longrightarrow> confined A s r)"
  proof (cases "repeat t \<and> (snd x, sequence t) \<notin> set (cancelingTimers q)")
    case True
    let ?t = "Timer_restart now t" let ?q = "q\<lparr>timer_heap := (timer_heap q)(snd x \<mapsto> ?t)\<rparr>"
    have "timer_ok q (snd x) ?t"
      using ok by (simp add: timer_ok_def Timer_restart_def)
    then have inv': "tq_inv (snd x # map snd xs @ hs) ?q"
      by (rule held_write_inv [OF inv])
    obtain c r where r: "TimerQueue_insert (snd x) ?q = Inr (c, r)" "tq_inv (map snd xs @ hs) r"
      "timers r = insort_insert (expiration ?t, snd x) (timers ?q)" "timer_heap r = timer_heap ?q"
      "ran r = ran ?q" "clock r = clock ?q" "steadyTimer r = steadyTimer ?q" "numCreated r = numCreated ?q"
      "cancelingTimers r = cancelingTimers ?q"
      by (rule TimerQueue_insert_facts [OF inv', of ?t]) simp_all
    have "0 < expiration ?t"
      using True ok assms(2) by (auto simp: Timer_restart_def addTime_def timer_ok_def seconds_ok_def)
    then have "armed (\<lambda>e. e \<le> 0) r"
      using Cons.prems(4) r(3,6,7) by (auto simp: armed_def set_insort_insert)
    moreover have "\<forall>A s. confined A s q \<longrightarrow> confined A s r"
      using r(4,8) t by (auto simp: confined_def Timer_restart_def)
    ultimately show ?thesis
      using True t r by (intro exI [of _ r]) simp
  next
    case False
    let ?q = "q\<lparr>timer_heap := (timer_heap q)(snd x := None)\<rparr>"
    have "tq_inv (map snd xs @ hs) ?q"
      by (rule held_delete_inv [OF inv])
    moreover have "heap_delete (snd x) (timer_heap q) = Inr ((timer_heap q)(snd x := None))"
      using t ok by (simp add: timer_ok_def)
    ultimately show ?thesis
      using False Cons.prems(4) by (intro exI [of _ ?q]) (auto simp: armed_def confined_def)
  qed
  then obtain r where r: "reset_expired (x # xs) now q = reset_expired xs now r" "tq_inv (map snd xs @ hs) r"
    "armed (\<lambda>e. e \<le> 0) r" "ran r = ran q" "clock r = clock q" "steadyTimer r = steadyTimer q"
    "\<forall>A s. confined A s q \<longrightarrow> confined A s r"
    using t by auto
  obtain q' where "reset_expired xs now r = Inr q'" "tq_inv hs q'" "armed (\<lambda>e. e \<le> 0) q'"
    "ran q' = ran r" "clock q' = clock r" "steadyTimer q' = steadyTimer r" "\<forall>A s. confined A s r \<longrightarrow> confined A s q'"
    using Cons.IH [OF _ r(2) assms(2) r(3)] by blast
  then show ?case
    using Cons.prems(1) r by simp
qed

lemma reset_ok:
  assumes "tq_inv (map snd xs @ hs) q" "0 < now" "armed (\<lambda>e. e \<le> 0) q"
  obtains q' where "TimerQueue_reset xs now q = Inr q'" "tq_inv hs q'" "armed (\<lambda>_. True) q'"
    "ran q' = ran q" "clock q' = clock q" "\<forall>A s. confined A s q \<longrightarrow> confined A s q'"
proof -
  obtain r where r: "reset_expired xs now q = Inr r" "tq_inv hs r" "armed (\<lambda>e. e \<le> 0) r"
    "ran r = ran q" "clock r = clock q" "\<forall>A s. confined A s q \<longrightarrow> confined A s r"
    by (rule reset_expired_ok [OF assms])
  note D = tq_invD [OF r(2)]
  show ?thesis
  proof (cases "timers r = []")
    case True
    then show ?thesis
      using that [of r] r by (simp add: TimerQueue_reset_def Timestamp_invalid_def Timestamp_vaild_def armed_def)
  next
    case False
    let ?h = "hd (timers r)" let ?q = "TimerQueue_resetTimer (fst ?h) r"
    obtain t where t: "timer_heap r (snd ?h) = Some t" "expiration t = fst ?h"
      using D(4) [of ?h] hd_in_set [OF False] by blast
    have first: "\<forall>x \<in> set (timers r). fst ?h \<le> fst x"
      using D(1) sorted_entries_first by blast
    have eq: "TimerQueue_reset xs now q = Inr (if 0 < fst ?h then ?q else r)"
      using r(1) False t by (simp add: TimerQueue_reset_def Timestamp_vaild_def)
    show ?thesis
    proof (cases "0 < fst ?h")
      case True
      have same: "timers ?q = timers r" "clock ?q = clock r" "ran ?q = ran r" "timer_heap ?q = timer_heap r"
        "numCreated ?q = numCreated r"
        by (simp_all add: TimerQueue_resetTimer_def TimerQueue_update_def Let_def)
      obtain d where "steadyTimer ?q = Some d" "d \<le> max (fst ?h) (clock ?q)"
        using resetTimer_deadline [of "fst ?h" r] same(2) by auto
      then have "armed (\<lambda>_. True) ?q"
        by (rule armed_first) (use first same(1) in simp)
      then show ?thesis
        using that [of ?q] eq True r same(3) same(2) by simp
    next
      case False
      then obtain d where "steadyTimer r = Some d" "d \<le> max (fst ?h) (clock r)"
        using r(3) \<open>timers r \<noteq> []\<close> by (force simp: armed_def)
      then have "armed (\<lambda>_. True) r"
        by (rule armed_first) (rule first)
      then show ?thesis
        using that [of r] eq False r by simp
    qed
  qed
qed

section \<open>Runs\<close>

fun timer_step_ok :: "timer_input \<Rightarrow> bool" where
  "timer_step_ok (TimerCall in_loop a) \<longleftrightarrow> action_ok a"
| "timer_step_ok _ \<longleftrightarrow> True"

text \<open>The invariant of a queue between the steps.\<close>

definition queue_ok :: "TimerQueue \<Rightarrow> bool" where
  "queue_ok q \<longleftrightarrow> tq_inv [] q \<and> armed (\<lambda>_. True) q \<and> 0 < clock q"

lemma queue_new_ok: "0 < now \<Longrightarrow> queue_ok (TimerQueue_new now)"
  by (simp add: queue_ok_def TimerQueue_new_def tq_inv_def armed_def posted_adds_def)

lemma keeps_queue_ok: "queue_ok q \<Longrightarrow> keeps [] q q' \<Longrightarrow> queue_ok q'"
  unfolding queue_ok_def keeps_defs down_closed_def by auto

text \<open>When the asio timer goes off, the due timers run, and no operation of the handler
  faults.\<close>

lemma on_wait_ok:
  assumes ok: "tq_inv [] q" "0 < clock q" and alloc: "alloc_ok alloc" "behave_ok behave"
  shows "on_wait alloc behave q = Inl BadAlloc \<or>
    (\<exists>q'. on_wait alloc behave q = Inr q' \<and> queue_ok q'
       \<and> ran q' = ran q @ stamps (clock q) q (due (clock q) q) \<and> (\<forall>A s. confined A s q \<longrightarrow> confined A s q'))"
proof -
  let ?now = "clock q" let ?xs = "due ?now q"
  obtain q1 where q1: "TimerQueue_getExpired ?now q = Inr (?xs, q1)" "tq_inv (map snd ?xs @ []) q1"
    "timers q1 = filter (\<lambda>x. \<not> fst x \<le> ?now) (timers q)" "timer_heap q1 = timer_heap q" "ran q1 = ran q"
    "clock q1 = clock q" "steadyTimer q1 = steadyTimer q" "numCreated q1 = numCreated q"
    by (rule getExpired_ok [OF ok(1), of ?now])
  let ?q1 = "q1\<lparr>cancelingTimers := [], callingExpiredTimers := True\<rparr>"
  have inv1: "tq_inv (map snd ?xs) ?q1"
    using q1(2) by simp
  have early1: "armed (\<lambda>e. e \<le> 0) ?q1"
    using ok(2) q1(3) by (auto simp: armed_def)
  have live: "\<forall>x \<in> set ?xs. \<exists>t. timer_heap ?q1 (snd x) = Some t \<and> expiration t = fst x"
    using tq_invD(4) [OF ok(1)] q1(4) by (simp add: due_def)
  have st: "stamps ?now ?q1 ?xs = stamps ?now q ?xs"
    by (simp add: stamps_def q1(4))
  have "run_expired alloc behave ?now ?xs ?q1 = Inl BadAlloc \<or>
    (\<exists>q2. run_expired alloc behave ?now ?xs ?q1 = Inr q2 \<and> keeps (map snd ?xs) ?q1 (q2\<lparr>ran := ran ?q1\<rparr>)
       \<and> ran q2 = ran ?q1 @ stamps ?now ?q1 ?xs)"
    by (rule run_expired_ok [OF inv1 alloc order_refl live])
  then show ?thesis
  proof
    assume "run_expired alloc behave ?now ?xs ?q1 = Inl BadAlloc"
    then show ?thesis
      using q1(1) by (simp add: on_wait_def Let_def)
  next
    assume "\<exists>q2. run_expired alloc behave ?now ?xs ?q1 = Inr q2 \<and> keeps (map snd ?xs) ?q1 (q2\<lparr>ran := ran ?q1\<rparr>)
       \<and> ran q2 = ran ?q1 @ stamps ?now ?q1 ?xs"
    then obtain q2 where q2: "run_expired alloc behave ?now ?xs ?q1 = Inr q2"
      "keeps (map snd ?xs) ?q1 (q2\<lparr>ran := ran ?q1\<rparr>)" "ran q2 = ran q @ stamps ?now q ?xs"
      using st q1(5) by auto
    let ?q2 = "q2\<lparr>callingExpiredTimers := False\<rparr>"
    have core: "keeps_core (map snd ?xs) ?q1 q2"
      using q2(2) by (simp add: keeps_def)
    have "down_closed (\<lambda>e. e \<le> 0)"
      by (simp add: down_closed_def)
    then have "armed (\<lambda>e. e \<le> 0) q2"
      using core early1 by (simp add: keeps_core_def)
    then have early2: "armed (\<lambda>e. e \<le> 0) ?q2"
      by (simp add: armed_def)
    have inv2: "tq_inv (map snd ?xs @ []) ?q2"
      using core by (simp add: keeps_core_def)
    obtain q' where q': "TimerQueue_reset ?xs ?now ?q2 = Inr q'" "tq_inv [] q'" "armed (\<lambda>_. True) q'"
      "ran q' = ran ?q2" "clock q' = clock ?q2" "\<forall>A s. confined A s ?q2 \<longrightarrow> confined A s q'"
      by (rule reset_ok [OF inv2 ok(2) early2])
    have "0 < clock q'"
      using q'(5) core q1(6) ok(2) by (simp add: keeps_core_def)
    moreover have "confined A s q'" if "confined A s q" for A s
    proof -
      have "confined A s ?q1"
        using that q1(4,8) by (simp add: confined_def)
      then have "confined A s q2"
        using core by (simp add: keeps_core_def)
      then show ?thesis
        using q'(6) by simp
    qed
    ultimately have "queue_ok q'" "\<forall>A s. confined A s q \<longrightarrow> confined A s q'"
      using q'(2,3) by (simp_all add: queue_ok_def)
    moreover have "on_wait alloc behave q = Inr q'"
      using q1(1) q2(1) q'(1) by (simp add: on_wait_def Let_def)
    ultimately show ?thesis
      using q'(4) q2(3) by simp
  qed
qed

lemma on_wait_armed_none: "due n (q\<lparr>steadyTimer := s\<rparr>) = due n q" "stamps n (q\<lparr>steadyTimer := s\<rparr>) xs = stamps n q xs"
  "confined A i (q\<lparr>steadyTimer := s\<rparr>) = confined A i q"
  by (simp_all add: due_def stamps_def confined_def)

lemma timer_step_result:
  assumes ok: "queue_ok q" and alloc: "alloc_ok alloc" "behave_ok behave" and s: "timer_step_ok s"
  shows "timer_step alloc behave s q = Inl BadAlloc \<or>
    (\<exists>q'. timer_step alloc behave s q = Inr q' \<and> queue_ok q' \<and> (\<forall>A i. confined A i q \<longrightarrow> confined A i q')
       \<and> (ran q' = ran q \<or> ran q' = ran q @ stamps (clock q) q (due (clock q) q)))"
proof (cases s)
  case (TimerCall in_loop a)
  then show ?thesis
    using timer_call_keeps [of "[]" q alloc a in_loop] keeps_queue_ok [OF ok] ok alloc(1) s
    by (auto simp: queue_ok_def keeps_defs)
next
  case RunPosted
  show ?thesis
  proof (cases "timer_tasks q")
    case Nil
    then show ?thesis
      using RunPosted ok by simp
  next
    case (Cons x xs)
    let ?q = "q\<lparr>timer_tasks := xs\<rparr>"
    show ?thesis
    proof (cases x)
      case (PostedAdd p)
      have pa: "posted_adds q = p # posted_adds ?q"
        by (simp add: posted_adds_def Cons PostedAdd)
      have inv: "tq_inv [p] ?q"
        using ok unfolding queue_ok_def tq_inv_def by (auto simp: pa active_of_def timer_ok_def)
      then obtain t where t: "timer_heap ?q p = Some t"
        using tq_invD(8) [OF inv, of p] by auto
      obtain q' where q': "TimerQueue_addTimerInThisThread p ?q = Inr q'" "tq_inv [] q'"
        "timers q' = insort_insert (expiration t, p) (timers ?q)" "timer_heap q' = timer_heap ?q"
        "steadyTimer q' = (if timers ?q = [] \<or> expiration t < fst (hd (timers ?q))
           then steadyTimer (TimerQueue_resetTimer (expiration t) ?q) else steadyTimer ?q)"
        "ran q' = ran ?q" "clock q' = clock ?q" "numCreated q' = numCreated ?q" "timer_tasks q' = timer_tasks ?q"
        "cancelingTimers q' = cancelingTimers ?q" "callingExpiredTimers q' = callingExpiredTimers ?q"
        by (rule addTimerInThisThread_ok [OF inv t])
      have "armed (\<lambda>_. True) ?q"
        using ok by (simp add: queue_ok_def armed_def)
      then have "armed (\<lambda>_. True) q'"
        using armed_insert [OF tq_invD(1) [OF inv] _ _ q'(3,7,5)] by (simp add: down_closed_def)
      then have "queue_ok q'"
        using q'(2,7) ok by (simp add: queue_ok_def)
      then show ?thesis
        using RunPosted Cons PostedAdd q'(1,4,6,8) by (auto simp: confined_def)
    next
      case (PostedCancel i)
      have "posted_adds ?q = posted_adds q"
        by (simp add: posted_adds_def Cons PostedCancel)
      then have "tq_inv [] ?q"
        using ok unfolding queue_ok_def tq_inv_def by (simp add: active_of_def timer_ok_def)
      then obtain q' where q': "TimerQueue_cancelInThisThread i ?q = Inr q'" "keeps [] ?q q'"
        using cancelInThisThread_keeps [where i = i] by blast
      moreover have "queue_ok ?q"
        using ok \<open>tq_inv [] ?q\<close> by (simp add: queue_ok_def armed_def)
      ultimately have "queue_ok q'" "\<forall>A j. confined A j q \<longrightarrow> confined A j q'" "ran q' = ran q"
        using keeps_queue_ok [of ?q q'] by (simp_all add: keeps_defs)
      then show ?thesis
        using RunPosted Cons PostedCancel q'(1) by simp
    qed
  qed
next
  case Wake
  show ?thesis
  proof (cases "steadyTimer q")
    case None
    then show ?thesis
      using Wake ok by simp
  next
    case (Some d)
    then show ?thesis
      using Wake ok on_wait_ok [of "q\<lparr>steadyTimer := None\<rparr>" alloc behave] alloc
      by (cases "clock q < d") (auto simp: queue_ok_def on_wait_armed_none)
  qed
qed

lemma timer_steps_result:
  assumes "queue_ok q" "alloc_ok alloc" "behave_ok behave" "list_all timer_step_ok ss"
  shows "timer_steps alloc behave ss q = Inl BadAlloc \<or>
    (\<exists>q'. timer_steps alloc behave ss q = Inr q' \<and> queue_ok q' \<and> (\<forall>A i. confined A i q \<longrightarrow> confined A i q'))"
  using assms(1,4)
proof (induction ss arbitrary: q)
  case Nil
  then show ?case
    by simp
next
  case (Cons s ss)
  show ?case
  proof (cases "timer_step alloc behave s q")
    case (Inl e)
    then show ?thesis
      using timer_step_result [OF Cons.prems(1) assms(2,3), of s] Cons.prems(2) by auto
  next
    case (Inr r)
    then have "queue_ok r" "\<forall>A i. confined A i q \<longrightarrow> confined A i r"
      using timer_step_result [OF Cons.prems(1) assms(2,3), of s] Cons.prems(2) by auto
    then show ?thesis
      using Cons.IH [of r] Cons.prems(2) Inr by auto
  qed
qed

section \<open>The timers of a loop\<close>

lemma delete_all_ok:
  assumes "distinct (map snd xs)" "\<forall>x \<in> set xs. 0 < snd x \<and> h (snd x) \<noteq> None"
  shows "delete_all xs h = Inr (h |` (- snd ` set xs))"
  using assms
proof (induction xs arbitrary: h)
  case (Cons x xs)
  then obtain t where t: "h (snd x) = Some t" "0 < snd x"
    by auto
  have "\<forall>y \<in> set xs. 0 < snd y \<and> (h(snd x := None)) (snd y) \<noteq> None"
    using Cons.prems by (auto simp: image_iff)
  moreover have "distinct (map snd xs)"
    using Cons.prems(1) by simp
  ultimately have "delete_all xs (h(snd x := None)) = Inr ((h(snd x := None)) |` (- snd ` set xs))"
    using Cons.IH [of "h(snd x := None)"] by blast
  moreover have "(h(snd x := None)) |` (- snd ` set xs) = h |` (- snd ` set (x # xs))"
    by (auto simp: restrict_map_def fun_eq_iff)
  ultimately show ?case
    using t by (simp del: fun_upd_apply)
qed (simp add: restrict_map_def)


text \<open>C22. Between the steps the asio timer is armed whenever a timer waits, for a time no later
  than that timer's expiration or already past: no timer is ever forgotten.\<close>

theorem TimerQueue_armed_in_time:
  assumes "alloc_ok alloc" "behave_ok behave" "list_all timer_step_ok ss" "0 < now"
    and "timer_steps alloc behave ss (TimerQueue_new now) = Inr q" "x \<in> set (timers q)"
  shows "\<exists>d. steadyTimer q = Some d \<and> d \<le> max (fst x) (clock q)"
  using timer_steps_result [OF queue_new_ok [OF assms(4)] assms(1-3)] assms(5,6)
  by (auto simp: queue_ok_def armed_def)

text \<open>C21. When the asio timer goes off, the callbacks of exactly the timers due are made, in the
  order of their expirations, each with the sequence number of its timer; none is made early and
  none that is due is left.\<close>

theorem TimerQueue_runs_due:
  assumes "alloc_ok alloc" "behave_ok behave" "list_all timer_step_ok ss" "0 < now"
    and "timer_steps alloc behave ss (TimerQueue_new now) = Inr q"
    and "steadyTimer q = Some d" "d \<le> clock q" "timer_step alloc behave Wake q = Inr q'"
  shows "ran q' = ran q @ map (\<lambda>x. (clock q, fst x, sequence (the (timer_heap q (snd x)))))
      (filter (\<lambda>x. fst x \<le> clock q) (timers q))
    \<and> sorted (map fst (timers q))"
proof -
  have ok: "queue_ok q"
    using timer_steps_result [OF queue_new_ok [OF assms(4)] assms(1-3)] assms(5) by auto
  then have inv: "tq_inv [] (q\<lparr>steadyTimer := None\<rparr>)" "0 < clock (q\<lparr>steadyTimer := None\<rparr>)"
    by (simp_all add: queue_ok_def)
  have "ran q' = ran q @ stamps (clock q) q (due (clock q) q)"
    using on_wait_ok [OF inv assms(1,2)] assms(6-8) by (auto simp: on_wait_armed_none)
  moreover have "sorted (map fst ts)" if "sorted ts" for ts :: "Entry list"
    using that by (induction ts) (auto simp: less_eq_prod_def)
  ultimately show ?thesis
    using tq_invD(1) [OF inv(1)] by (simp add: stamps_def due_def)
qed

text \<open>A step adds no run of a timer that is gone.\<close>

lemma ran_prefix:
  assumes "queue_ok q" "alloc_ok alloc" "behave_ok behave" "list_all timer_step_ok ss"
    and "timer_steps alloc behave ss q = Inr q'" "confined {} s q"
  shows "\<exists>es. ran q' = ran q @ es \<and> s \<notin> (snd \<circ> snd) ` set es"
  using assms(1,4-6)
proof (induction ss arbitrary: q)
  case Nil
  then show ?case
    by simp
next
  case (Cons x ss)
  obtain r where r: "timer_step alloc behave x q = Inr r" "timer_steps alloc behave ss r = Inr q'"
    using Cons.prems(3) by (auto simp: rbind_eq_Inr)
  then have ok: "queue_ok r" "confined {} s r"
    and ran: "ran r = ran q \<or> ran r = ran q @ stamps (clock q) q (due (clock q) q)"
    using timer_step_result [OF Cons.prems(1) assms(2,3), of x] Cons.prems(2,4) by auto
  have inv: "tq_inv [] q"
    using Cons.prems(1) by (simp add: queue_ok_def)
  have "sequence (the (timer_heap q (snd y))) \<noteq> s" if y: "y \<in> set (timers q)" for y
  proof -
    obtain t where "timer_heap q (snd y) = Some t"
      using tq_invD(4) [OF inv y] by auto
    then show ?thesis
      using Cons.prems(4) unfolding confined_def by auto
  qed
  then have "s \<notin> (snd \<circ> snd) ` set (stamps (clock q) q (due (clock q) q))"
    by (fastforce simp: stamps_def due_def)
  then obtain es where "ran r = ran q @ es" "s \<notin> (snd \<circ> snd) ` set es"
    using ran by force
  moreover obtain es' where "ran q' = ran r @ es'" "s \<notin> (snd \<circ> snd) ` set es'"
    using Cons.IH [OF ok(1) _ r(2) ok(2)] Cons.prems(2) by auto
  ultimately show ?case
    by (intro exI [of _ "es @ es'"]) auto
qed

text \<open>C20. A timer that is cancelled in the loop's thread while it is active never runs again,
  whatever happens later, even when its address is used for a new timer.\<close>

theorem TimerQueue_cancelled_never_runs:
  assumes "alloc_ok alloc" "behave_ok behave" "0 < now"
    and "list_all timer_step_ok ss" "timer_steps alloc behave ss (TimerQueue_new now) = Inr q"
    and "cb \<noteq> None" "seconds_ok iv" "TimerQueue_addTimer alloc in_loop cb when iv q = Inr (i, q1)"
    and "list_all timer_step_ok ss'" "timer_steps alloc behave ss' q1 = Inr q2"
    and "(id_timer i, id_sequence i) \<in> set (activeTimers q2)" "TimerQueue_cancel True i q2 = Inr q3"
    and "list_all timer_step_ok ss''" "timer_steps alloc behave ss'' q3 = Inr q4"
  shows "\<exists>es. ran q4 = ran q3 @ es \<and> id_sequence i \<notin> (snd \<circ> snd) ` set es"
proof -
  have ok: "queue_ok q"
    using timer_steps_result [OF queue_new_ok [OF assms(3)] assms(1,2,4)] assms(5) by auto
  then have inv: "tq_inv [] q"
    by (simp add: queue_ok_def)
  have ok1: "queue_ok q1"
    using add_keeps [OF inv assms(1,6,7), of in_loop "when"] assms(8) keeps_queue_ok [OF ok] by auto
  have "confined {id_timer i} (id_sequence i) q1"
    using TimerQueue_addTimer_ok [OF inv assms(1,6,7), of in_loop "when"] assms(8) tq_invD(9) [OF inv]
    by (fastforce simp: confined_def timer_ok_def split: if_splits)
  then have q2: "queue_ok q2" "confined {id_timer i} (id_sequence i) q2"
    using timer_steps_result [OF ok1 assms(1,2,9)] assms(10) by auto
  have inv2: "tq_inv [] q2"
    using q2(1) by (simp add: queue_ok_def)
  obtain r where r: "TimerQueue_cancelInThisThread i q2 = Inr r" "keeps [] q2 r"
    "(id_timer i, id_sequence i) \<in> set (activeTimers q2) \<longrightarrow> timer_heap r = (timer_heap q2)(id_timer i := None)"
    by (rule cancelInThisThread_keeps [OF inv2, where i = i])
  then have r3: "r = q3"
    using assms(12) by (simp add: TimerQueue_cancel_def)
  have "confined {id_timer i} (id_sequence i) q3"
    using r(2) q2(2) r3 by (simp add: keeps_defs)
  moreover have "timer_heap q3 (id_timer i) = None"
    using r(3) assms(11) r3 by simp
  ultimately have "confined {} (id_sequence i) q3"
    unfolding confined_def by force
  then show ?thesis
    using ran_prefix [OF keeps_queue_ok [OF q2(1) r(2)] assms(1,2,13)] assms(14) r3 by simp
qed

text \<open>With less than a second to go the asio timer is armed for zero seconds, because
  \<open>resetTimer\<close> truncates to whole seconds: the handler runs at once, finds nothing due and arms
  it for zero seconds again, in a busy loop until the timer is due.\<close>

lemma TimerQueue_busy_polling:
  assumes "queue_ok q" "due (clock q) q = []" "timers q \<noteq> []" "fst (hd (timers q)) < clock q + 1000000"
    and "steadyTimer q = Some d" "d \<le> clock q"
  shows "timer_step alloc behave Wake q
    = Inr (q\<lparr>steadyTimer := Some (clock q), cancelingTimers := [], callingExpiredTimers := False\<rparr>)"
proof -
  let ?q = "q\<lparr>steadyTimer := None\<rparr>" let ?h = "hd (timers q)"
  have inv: "tq_inv [] ?q"
    using assms(1) by (simp add: queue_ok_def)
  have h: "?h \<in> set (timers q)"
    using assms(3) by simp
  obtain t where t: "timer_heap q (snd ?h) = Some t" "expiration t = fst ?h"
    using tq_invD(4) [OF inv, of ?h] h by auto
  have all: "x \<in> set (timers q) \<Longrightarrow> \<not> fst x \<le> clock q" for x
    using assms(2) by (auto simp: due_def filter_empty_conv)
  then have late: "clock q < fst ?h"
    using h by (simp add: not_le)
  have split: "before_lower_bound (clock q, uintptr_max) (timers q) = []"
    "from_lower_bound (clock q, uintptr_max) (timers q) = timers q"
    using sentry_split [OF inv, of "clock q"] all by (auto simp: filter_empty_conv filter_id_conv)
  have "TimerQueue_getExpired (clock q) ?q = Inr ([], ?q)"
    using tq_inv_sizes [OF inv] split late by (simp add: TimerQueue_getExpired_def Let_def sizes_agree_def)
  moreover have "0 < fst ?h"
    using late assms(1) by (simp add: queue_ok_def)
  moreover have "(max 100 (fst ?h - clock q)) div 1000000 = 0"
    using late assms(4) by (simp add: max_def)
  ultimately show ?thesis
    using t assms(3,5,6)
    by (simp add: on_wait_def Let_def TimerQueue_reset_def Timestamp_vaild_def TimerQueue_resetTimer_def
        TimerQueue_update_def kMicroSecondsPerSecond_def max_def split: if_splits)
qed

text \<open>A timer for 5 s, one for 5 s every 2 s, and the time at which both are due.\<close>

definition once :: seconds where "once = \<lparr>positive = False, micros = 0\<rparr>"
definition every_2s :: seconds where "every_2s = \<lparr>positive = True, micros = 2000000\<rparr>"

definition demo_steps :: "timer_input list" where
  "demo_steps = [TimerCall True (DoAdd (Some 0) 5000000 once), TimerCall False (DoAdd (Some 1) 6000000 every_2s),
     RunPosted, TimerCall True (Pass 6000000)]"

lemmas timer_evals = first_free_def TimerQueue_new_def TimerQueue_addTimer_def Timer_new_def Let_def heap_new_def
  TimerQueue_addTimerInThisThread_def TimerQueue_insert_def sizes_agree_def set_emplace_def insort_insert_key_def
  TimerQueue_resetTimer_def TimerQueue_update_def kMicroSecondsPerSecond_def once_def every_2s_def demo_steps_def
  TimerQueue_cancel_def TimerQueue_cancelInThisThread_def set_erase_def on_wait_def TimerQueue_getExpired_def
  before_lower_bound_def from_lower_bound_def uintptr_max_def Timer_run_def TimerQueue_reset_def
  Timestamp_vaild_def Timestamp_invalid_def Timer_restart_def addTime_def less_prod_def less_eq_prod_def

abbreviation no_calls :: "nat \<Rightarrow> TimerQueue \<Rightarrow> timer_action list" where
  "no_calls \<equiv> \<lambda>_ _. []"

lemma no_calls_ok: "behave_ok no_calls"
  by (simp add: behave_ok_def)

lemma demo_steps_ok: "list_all timer_step_ok demo_steps"
  by (simp add: demo_steps_def seconds_ok_def once_def every_2s_def)

lemma demo_queue:
  obtains q where "timer_steps first_free no_calls demo_steps (TimerQueue_new 1000000) = Inr q"
    "timers q = [(5000000, 1), (6000000, 2)]" "steadyTimer q = Some 5000000" "clock q = 7000000"
    "activeTimers q = [(1, 1), (2, 2)]" "map_option sequence (timer_heap q 1) = Some 1"
    "map_option sequence (timer_heap q 2) = Some 2" "ran q = []" "timer_tasks q = []"
proof -
  have "case timer_steps first_free no_calls demo_steps (TimerQueue_new 1000000) of Inl _ \<Rightarrow> False
    | Inr q \<Rightarrow> timers q = [(5000000, 1), (6000000, 2)] \<and> steadyTimer q = Some 5000000 \<and> clock q = 7000000
       \<and> activeTimers q = [(1, 1), (2, 2)] \<and> map_option sequence (timer_heap q 1) = Some 1
       \<and> map_option sequence (timer_heap q 2) = Some 2 \<and> ran q = [] \<and> timer_tasks q = []"
    by (simp add: timer_evals)
  then show ?thesis
    using that by (auto split: sum.splits)
qed


lemma TimerQueue_armed_in_time_witness:
  "\<exists>q d. timer_steps first_free no_calls demo_steps (TimerQueue_new 1000000) = Inr q
     \<and> (6000000, 2) \<in> set (timers q) \<and> steadyTimer q = Some d \<and> d \<le> max 6000000 (clock q)"
proof -
  obtain q where q: "timer_steps first_free no_calls demo_steps (TimerQueue_new 1000000) = Inr q"
    "timers q = [(5000000, 1), (6000000, 2)]"
    by (rule demo_queue)
  then show ?thesis
    using TimerQueue_armed_in_time [OF first_free_ok no_calls_ok demo_steps_ok _ q(1), of "(6000000, 2)"] by auto
qed

lemma TimerQueue_runs_due_witness:
  "\<exists>q q'. timer_steps first_free no_calls demo_steps (TimerQueue_new 1000000) = Inr q
     \<and> timer_step first_free no_calls Wake q = Inr q' \<and> ran q' = [(7000000, 5000000, 1), (7000000, 6000000, 2)]"
proof -
  obtain q where q: "timer_steps first_free no_calls demo_steps (TimerQueue_new 1000000) = Inr q"
    "timers q = [(5000000, 1), (6000000, 2)]" "steadyTimer q = Some 5000000" "clock q = 7000000"
    "activeTimers q = [(1, 1), (2, 2)]" "map_option sequence (timer_heap q 1) = Some 1"
    "map_option sequence (timer_heap q 2) = Some 2" "ran q = []"
    by (rule demo_queue)
  have "isl (timer_steps first_free no_calls (demo_steps @ [Wake]) (TimerQueue_new 1000000)) = False"
    by (simp add: timer_evals)
  moreover have "timer_steps first_free no_calls (ss @ [s]) r
      = rbind (timer_steps first_free no_calls ss r) (timer_step first_free no_calls s)" for ss s r
    by (induction ss arbitrary: r) (simp_all add: rbind_def split: sum.split)
  ultimately obtain q' where q': "timer_step first_free no_calls Wake q = Inr q'"
    using q(1) by (cases "timer_step first_free no_calls Wake q") auto
  show ?thesis
    using TimerQueue_runs_due [OF first_free_ok no_calls_ok demo_steps_ok _ q(1) q(3) _ q'] q q' by auto
qed

lemma TimerQueue_cancelled_never_runs_witness:
  "\<exists>i q1 q3 q4 es. TimerQueue_addTimer first_free True (Some 0) 5000000 once (TimerQueue_new 1) = Inr (i, q1)
     \<and> TimerQueue_cancel True i q1 = Inr q3
     \<and> timer_steps first_free no_calls (demo_steps @ [Wake]) q3 = Inr q4
     \<and> ran q4 = ran q3 @ es \<and> length es = 2 \<and> id_sequence i \<notin> (snd \<circ> snd) ` set es"
proof -
  let ?add = "TimerQueue_addTimer first_free True (Some 0) 5000000 once (TimerQueue_new 1)"
  have "case ?add of Inl _ \<Rightarrow> False | Inr (i, q1) \<Rightarrow> (id_timer i, id_sequence i) \<in> set (activeTimers q1)
    \<and> (case TimerQueue_cancel True i q1 of Inl _ \<Rightarrow> False | Inr q3 \<Rightarrow> ran q3 = []
       \<and> (case timer_steps first_free no_calls (demo_steps @ [Wake]) q3 of Inl _ \<Rightarrow> False | Inr q4 \<Rightarrow> length (ran q4) = 2))"
    by (simp add: timer_evals)
  then obtain i q1 q3 q4 where e: "?add = Inr (i, q1)" "(id_timer i, id_sequence i) \<in> set (activeTimers q1)"
    "TimerQueue_cancel True i q1 = Inr q3" "ran q3 = []"
    "timer_steps first_free no_calls (demo_steps @ [Wake]) q3 = Inr q4" "length (ran q4) = 2"
    by (auto dest!: case_InrD)
  have "list_all timer_step_ok (demo_steps @ [Wake])"
    using demo_steps_ok by simp
  then show ?thesis
    using TimerQueue_cancelled_never_runs [OF first_free_ok no_calls_ok zero_less_one, of "[]" "TimerQueue_new 1"
        "Some 0" once True 5000000 i q1 "[]" q1 q3 "demo_steps @ [Wake]" q4] e
    by (auto simp: seconds_ok_def once_def)
qed

lemma TimerQueue_busy_polling_witness:
  "\<exists>q. timers q = [(1500000, 1)] \<and> steadyTimer q = Some 1000000 \<and> clock q = 1000000
     \<and> timer_step first_free no_calls Wake q
       = Inr (q\<lparr>steadyTimer := Some (clock q), cancelingTimers := [], callingExpiredTimers := False\<rparr>)"
proof -
  let ?s = "[TimerCall True (DoAdd (Some 0) 1500000 once)]"
  have "case timer_steps first_free no_calls ?s (TimerQueue_new 1000000) of Inl _ \<Rightarrow> False
    | Inr q \<Rightarrow> timers q = [(1500000, 1)] \<and> steadyTimer q = Some 1000000 \<and> clock q = 1000000"
    by (simp add: timer_evals)
  then obtain q where q: "timer_steps first_free no_calls ?s (TimerQueue_new 1000000) = Inr q"
    "timers q = [(1500000, 1)]" "steadyTimer q = Some 1000000" "clock q = 1000000"
    by (auto split: sum.splits)
  have "queue_ok q"
    using timer_steps_result [OF queue_new_ok first_free_ok no_calls_ok, of 1000000 ?s] q(1)
    by (simp add: seconds_ok_def once_def)
  then show ?thesis
    using TimerQueue_busy_polling [of q 1000000 first_free no_calls] q by (auto simp: due_def)
qed

end
