(* ===== verification/TimerWheel.thy ===== *)
theory TimerWheel
  imports Heap
begin

text \<open>
  \<open>TimerWheel.h\<close> and \<open>TimerWheel.cpp\<close>: timers on a wheel of doubly linked lists. The nodes
  are on a heap and are linked by addresses as in the code; \<open>tick\<close> walks the list of the
  current slot while it unlinks and deletes. The lemmas relate the heap to one list of
  addresses per slot, and these to an agenda that gives each pending timer the tick at which
  it fires: every run of operations on pending timers follows the agenda, no deleted node is
  touched and none is leaked, and a timer fires at the tick its timeout says and at no other.
\<close>

section \<open>Nodes and the wheel\<close>

text \<open>
  \<open>tie_\<close> is the name of the object that is to be kept alive, 0 for none. \<open>currentSlotPos_\<close>
  is set by no constructor: its first value is a parameter. \<open>mutex_\<close> is absent or says whether
  it is held. The history has the number of ticks and,
  with its tick, the node of each callback that was made.
\<close>

record TimerEvent =
  rotation :: int
  timerSlot :: int
  ev_callback :: "nat option"
  tied :: bool
  tie :: nat
  ev_sequence :: int32
  pPrev :: nat
  pNext :: nat

record CancelId =
  cid_sequence :: int32
  cid_timer :: nat

record TimerWheel =
  slotsNum :: int32
  currentSlotPos :: int
  mutex :: "bool option"
  slots :: "nat list"
  wheel_heap :: "TimerEvent heap"
  s_numCreated :: int32
  alive :: "nat list"
  ticks :: nat
  fired :: "(nat \<times> nat) list"

definition ts :: int32 where "ts = 1"

text \<open>The storage that \<open>slots_\<close> reserves is an array of \<open>slotsNum_\<close> pointers.\<close>

definition TimerWheel_new :: "int \<Rightarrow> int32 \<Rightarrow> bool \<Rightarrow> nat list \<Rightarrow> TimerWheel" where
  "TimerWheel_new pos0 n isThreadSave objs =
     \<lparr>slotsNum = n, currentSlotPos = pos0, mutex = (if isThreadSave then Some False else None),
      slots = replicate (unat n) 0, wheel_heap = (\<lambda>_. None), s_numCreated = 0, alive = objs, ticks = 0, fired = []\<rparr>"

partial_function (option) delete_chain :: "nat \<Rightarrow> TimerEvent heap \<Rightarrow> TimerEvent heap result option" where
  "delete_chain tmp h =
     (if tmp = 0 then Some (Inr h)
      else
        (case rbind (deref tmp h) (\<lambda>e. rbind (heap_delete tmp h) (\<lambda>h'. Inr (pNext e, h'))) of
           Inl e \<Rightarrow> Some (Inl e)
         | Inr (p', h') \<Rightarrow> delete_chain p' h'))"

fun delete_slots :: "nat list \<Rightarrow> TimerEvent heap \<Rightarrow> TimerEvent heap result option" where
  "delete_slots [] h = Some (Inr h)"
| "delete_slots (p # ps) h =
     (case delete_chain p h of
        None \<Rightarrow> None
      | Some (Inl e) \<Rightarrow> Some (Inl e)
      | Some (Inr h') \<Rightarrow> delete_slots ps h')"

definition TimerWheel_destructor :: "TimerWheel \<Rightarrow> TimerEvent heap result option" where
  "TimerWheel_destructor w = delete_slots (slots w) (wheel_heap w)"

definition slot_at :: "int \<Rightarrow> TimerWheel \<Rightarrow> nat result" where
  "slot_at i w = (if 0 \<le> i \<and> i < int (length (slots w)) then Inr (slots w ! nat i) else Inl OutOfBounds)"

definition set_slot :: "int \<Rightarrow> nat \<Rightarrow> TimerWheel \<Rightarrow> TimerWheel" where
  "set_slot i p w = w\<lparr>slots := (slots w)[nat i := p]\<rparr>"

definition TimerEvent_setRotation :: "int \<Rightarrow> TimerEvent \<Rightarrow> TimerEvent" where
  [simp]: "TimerEvent_setRotation r = (\<lambda>e. e\<lparr>rotation := r\<rparr>)"

definition new_event :: "int \<Rightarrow> int \<Rightarrow> nat option \<Rightarrow> nat \<Rightarrow> int32 \<Rightarrow> TimerEvent" where
  "new_event rot pos cb obj numCreated =
     \<lparr>rotation = rot, timerSlot = pos, ev_callback = cb, tied = (obj \<noteq> 0), tie = obj,
      ev_sequence = numCreated + 1, pPrev = 0, pNext = 0\<rparr>"

definition addTimerUnlock ::
    "TimerEvent allocator \<Rightarrow> int32 \<Rightarrow> nat \<Rightarrow> nat option \<Rightarrow> TimerWheel \<Rightarrow> (CancelId \<times> TimerWheel) result" where
  "addTimerUnlock alloc timeout obj cb w =
     (let tick = sint (if timeout < ts then 1 else timeout div ts) in
      if slotsNum w = 0 then Inl DivByZero
      else
        let rotation = sint (word_of_int tick div slotsNum w);
            pos = (word_of_int (currentSlotPos w) + word_of_int tick mod slotsNum w) mod slotsNum w in
        rbind (heap_new alloc (new_event rotation (sint pos) cb obj (s_numCreated w)) (wheel_heap w)) (\<lambda>(timerEvent, h).
        let w1 = w\<lparr>wheel_heap := h, s_numCreated := s_numCreated w + 1\<rparr>;
            cancelId = \<lparr>cid_sequence = s_numCreated w + 1, cid_timer = timerEvent\<rparr> in
        rbind (slot_at (uint pos) w1) (\<lambda>curSlot.
        if curSlot = 0 then Inr (cancelId, set_slot (uint pos) timerEvent w1)
        else
          rbind (heap_write timerEvent (\<lambda>e. e\<lparr>pNext := curSlot\<rparr>) (wheel_heap w1)) (\<lambda>h1.
          rbind (heap_write curSlot (\<lambda>e. e\<lparr>pPrev := timerEvent\<rparr>) h1) (\<lambda>h2.
          Inr (cancelId, set_slot (uint pos) timerEvent (w1\<lparr>wheel_heap := h2\<rparr>)))))))"

definition write_next :: "nat \<Rightarrow> nat \<Rightarrow> TimerEvent heap \<Rightarrow> TimerEvent heap result" where
  "write_next p q h = heap_write p (\<lambda>e. e\<lparr>pNext := q\<rparr>) h"

definition write_prev :: "nat \<Rightarrow> nat \<Rightarrow> TimerEvent heap \<Rightarrow> TimerEvent heap result" where
  "write_prev p q h = (if p = 0 then Inr h else heap_write p (\<lambda>e. e\<lparr>pPrev := q\<rparr>) h)"

definition cencelUnlock :: "CancelId \<Rightarrow> TimerWheel \<Rightarrow> TimerWheel result" where
  "cencelUnlock timeId w =
     (let t = cid_timer timeId in
      if t = 0 then Inr w
      else
        rbind (deref t (wheel_heap w)) (\<lambda>e.
        let pos = timerSlot e in
        rbind (slot_at pos w) (\<lambda>slot.
        if t = slot then
          let nextEvent = pNext e; w1 = set_slot pos nextEvent w in
          rbind (write_prev nextEvent 0 (wheel_heap w1)) (\<lambda>h.
          rbind (heap_delete t h) (\<lambda>h'.
          Inr (w1\<lparr>wheel_heap := h'\<rparr>)))
        else
          rbind (write_next (pPrev e) (pNext e) (wheel_heap w)) (\<lambda>h.
          rbind (deref t h) (\<lambda>e'.
          rbind (write_prev (pNext e') (pPrev e') h) (\<lambda>h'.
          rbind (heap_delete t h') (\<lambda>h''.
          Inr (w\<lparr>wheel_heap := h''\<rparr>))))))))"

section \<open>The mutex\<close>

definition locked :: "(TimerWheel \<Rightarrow> ('a \<times> TimerWheel) result) \<Rightarrow> TimerWheel \<Rightarrow> ('a \<times> TimerWheel) result" where
  "locked f w =
     (case mutex w of
        None \<Rightarrow> f w
      | Some True \<Rightarrow> Inl Deadlock
      | Some False \<Rightarrow> rbind (f (w\<lparr>mutex := Some True\<rparr>)) (\<lambda>(x, w'). Inr (x, w'\<lparr>mutex := Some False\<rparr>)))"

definition TimerWheel_addTimer ::
    "TimerEvent allocator \<Rightarrow> int32 \<Rightarrow> nat \<Rightarrow> nat option \<Rightarrow> TimerWheel \<Rightarrow> (CancelId \<times> TimerWheel) result" where
  "TimerWheel_addTimer alloc timeout obj cb w = locked (addTimerUnlock alloc timeout obj cb) w"

definition TimerWheel_cencel :: "CancelId \<Rightarrow> TimerWheel \<Rightarrow> TimerWheel result" where
  "TimerWheel_cencel timeId w =
     rbind (locked (\<lambda>w. rbind (cencelUnlock timeId w) (\<lambda>w'. Inr ((), w'))) w) (\<lambda>(_, w'). Inr w')"

section \<open>Callbacks and the tick\<close>

text \<open>
  A callback is a name that the parameter \<open>behave\<close> maps to the calls it makes in a state of
  the wheel. The owner of an object may drop it, in a callback or outside.
\<close>

datatype wheel_call = Add int32 nat "nat option" | Cencel CancelId | Release nat

fun run_call :: "TimerEvent allocator \<Rightarrow> wheel_call \<Rightarrow> TimerWheel \<Rightarrow> TimerWheel result" where
  "run_call alloc (Add timeout obj cb) w =
     rbind (TimerWheel_addTimer alloc timeout obj cb w) (\<lambda>(_, w'). Inr w')"
| "run_call alloc (Cencel timeId) w = TimerWheel_cencel timeId w"
| "run_call alloc (Release obj) w = Inr (w\<lparr>alive := removeAll obj (alive w)\<rparr>)"

fun run_calls :: "TimerEvent allocator \<Rightarrow> wheel_call list \<Rightarrow> TimerWheel \<Rightarrow> TimerWheel result" where
  "run_calls alloc [] w = Inr w"
| "run_calls alloc (c # cs) w = rbind (run_call alloc c w) (run_calls alloc cs)"

type_synonym behaviour = "nat \<Rightarrow> TimerWheel \<Rightarrow> wheel_call list"

definition TimerEvent_run :: "TimerEvent allocator \<Rightarrow> behaviour \<Rightarrow> nat \<Rightarrow> TimerEvent \<Rightarrow> TimerWheel \<Rightarrow> TimerWheel result" where
  "TimerEvent_run alloc behave this e w =
     (case ev_callback e of
        None \<Rightarrow> Inr w
      | Some cb \<Rightarrow>
          (let w' = w\<lparr>fired := fired w @ [(ticks w, this)]\<rparr> in
           if tied e then
             if tie e \<in> set (alive w) then run_calls alloc (behave cb w') w' else Inr w
           else run_calls alloc (behave cb w') w'))"

text \<open>One iteration of the loop of \<open>tickUnlock\<close>, which gives the next event.\<close>

definition tick_event :: "TimerEvent allocator \<Rightarrow> behaviour \<Rightarrow> nat \<Rightarrow> TimerWheel \<Rightarrow> (nat \<times> TimerWheel) result" where
  "tick_event alloc behave p w =
     rbind (deref p (wheel_heap w)) (\<lambda>e0.
     let rot = rotation e0 in
     if rot > 0 then
       rbind (heap_write p (TimerEvent_setRotation (rot - 1)) (wheel_heap w)) (\<lambda>h. Inr (pNext e0, w\<lparr>wheel_heap := h\<rparr>))
     else
       rbind (TimerEvent_run alloc behave p e0 w) (\<lambda>w1.
       rbind (slot_at (currentSlotPos w1) w1) (\<lambda>slot.
       rbind (deref p (wheel_heap w1)) (\<lambda>e.
       if p = slot then
         let nextEvent = pNext e; w2 = set_slot (currentSlotPos w1) nextEvent w1 in
         rbind (heap_delete p (wheel_heap w2)) (\<lambda>h.
         rbind (write_prev nextEvent 0 h) (\<lambda>h'.
         Inr (nextEvent, w2\<lparr>wheel_heap := h'\<rparr>)))
       else
         rbind (write_next (pPrev e) (pNext e) (wheel_heap w1)) (\<lambda>h.
         rbind (deref p h) (\<lambda>e'.
         rbind (write_prev (pNext e') (pPrev e') h) (\<lambda>h'.
         rbind (deref p h') (\<lambda>e''.
         rbind (heap_delete p h') (\<lambda>h''.
         Inr (pNext e'', w1\<lparr>wheel_heap := h''\<rparr>))))))))))"

partial_function (option) tick_loop ::
    "TimerEvent allocator \<Rightarrow> behaviour \<Rightarrow> nat \<Rightarrow> TimerWheel \<Rightarrow> TimerWheel result option" where
  "tick_loop alloc behave p w =
     (if p = 0 then Some (Inr w)
      else
        (case tick_event alloc behave p w of
           Inl e \<Rightarrow> Some (Inl e)
         | Inr (p', w') \<Rightarrow> tick_loop alloc behave p' w'))"

definition tickUnlock :: "TimerEvent allocator \<Rightarrow> behaviour \<Rightarrow> TimerWheel \<Rightarrow> TimerWheel result option" where
  "tickUnlock alloc behave w =
     (case slot_at (currentSlotPos w) w of
        Inl e \<Rightarrow> Some (Inl e)
      | Inr p \<Rightarrow>
          map_option (\<lambda>r. rbind r (\<lambda>w'.
            if slotsNum w' = 0 then Inl DivByZero
            else
              Inr (w'\<lparr>currentSlotPos := sint (word_of_int (currentSlotPos w' + 1) mod slotsNum w'),
                      ticks := ticks w' + 1\<rparr>)))
            (tick_loop alloc behave p w))"

definition TimerWheel_tick :: "TimerEvent allocator \<Rightarrow> behaviour \<Rightarrow> TimerWheel \<Rightarrow> TimerWheel result option" where
  "TimerWheel_tick alloc behave w =
     (case mutex w of
        None \<Rightarrow> tickUnlock alloc behave w
      | Some True \<Rightarrow> Some (Inl Deadlock)
      | Some False \<Rightarrow>
          map_option (\<lambda>r. rbind r (\<lambda>w'. Inr (w'\<lparr>mutex := Some False\<rparr>)))
            (tickUnlock alloc behave (w\<lparr>mutex := Some True\<rparr>)))"

section \<open>Runs\<close>

datatype wheel_input = Call wheel_call | Tick

fun wheel_step :: "TimerEvent allocator \<Rightarrow> behaviour \<Rightarrow> wheel_input \<Rightarrow> TimerWheel \<Rightarrow> TimerWheel result option" where
  "wheel_step alloc behave (Call c) w = Some (run_call alloc c w)"
| "wheel_step alloc behave Tick w = TimerWheel_tick alloc behave w"

fun wheel_steps :: "TimerEvent allocator \<Rightarrow> behaviour \<Rightarrow> wheel_input list \<Rightarrow> TimerWheel \<Rightarrow> TimerWheel result option" where
  "wheel_steps alloc behave [] w = Some (Inr w)"
| "wheel_steps alloc behave (s # ss) w =
     (case wheel_step alloc behave s w of
        None \<Rightarrow> None
      | Some (Inl e) \<Rightarrow> Some (Inl e)
      | Some (Inr w') \<Rightarrow> wheel_steps alloc behave ss w')"

section \<open>Doubly linked lists\<close>

text \<open>The nodes \<open>xs\<close> from \<open>p\<close> to before \<open>q\<close>; the predecessor of the first is \<open>a\<close>.\<close>

fun dseg :: "TimerEvent heap \<Rightarrow> nat \<Rightarrow> nat \<Rightarrow> nat list \<Rightarrow> nat \<Rightarrow> bool" where
  "dseg h a p [] q \<longleftrightarrow> p = q"
| "dseg h a p (x # xs) q \<longleftrightarrow> p = x \<and> x \<noteq> 0 \<and> (\<exists>e. h x = Some e \<and> pPrev e = a \<and> dseg h x (pNext e) xs q)"

lemma dseg_append: "dseg h a p (xs @ ys) q \<longleftrightarrow> (\<exists>m. dseg h a p xs m \<and> dseg h (last (a # xs)) m ys q)"
  by (induction xs arbitrary: a p) auto

lemma dseg_start: "dseg h a p xs 0 \<Longrightarrow> p = (if xs = [] then 0 else hd xs)"
  by (cases xs) auto

lemma dseg_nodes: "dseg h a p xs q \<Longrightarrow> x \<in> set xs \<Longrightarrow> x \<noteq> 0 \<and> h x \<noteq> None"
  by (induction xs arbitrary: a p) auto

definition links :: "TimerEvent \<Rightarrow> nat \<times> nat" where "links e = (pPrev e, pNext e)"

lemma dseg_cong:
  "dseg h a p xs q \<Longrightarrow> (\<And>x. x \<in> set xs \<Longrightarrow> map_option links (h' x) = map_option links (h x)) \<Longrightarrow> dseg h' a p xs q"
proof (induction xs arbitrary: a p)
  case (Cons x xs)
  then obtain e where e: "h x = Some e" "pPrev e = a" "dseg h x (pNext e) xs q" "p = x" "x \<noteq> 0"
    by auto
  then obtain e' where "h' x = Some e'" "links e' = links e"
    using Cons.prems(2) [of x] by auto
  then show ?case
    using Cons.IH [OF e(3)] Cons.prems(2) e by (auto simp: links_def)
qed simp

lemma dseg_frame: "dseg h a p xs q \<Longrightarrow> (\<And>x. x \<in> set xs \<Longrightarrow> h' x = h x) \<Longrightarrow> dseg h' a p xs q"
  by (erule dseg_cong) simp

lemma dseg_last_next:
  assumes "dseg h a p xs q" "distinct xs" "xs \<noteq> []" "h (last xs) = Some e"
  shows "dseg (h(last xs \<mapsto> e\<lparr>pNext := r\<rparr>)) a p xs r"
proof -
  obtain zs z where xs: "xs = zs @ [z]"
    using assms(3) by (cases xs rule: rev_cases) auto
  then have seg: "dseg h a p zs z" "dseg h (last (a # zs)) z [z] q"
    using assms(1) by (auto simp: dseg_append)
  have "dseg (h(z \<mapsto> e\<lparr>pNext := r\<rparr>)) a p zs z"
    by (rule dseg_frame [OF seg(1)]) (use assms(2) xs in auto)
  then show ?thesis
    using seg(2) assms(4) xs by (auto simp: dseg_append)
qed

lemma dseg_first_prev:
  assumes "dseg h a p (y # ys) q" "distinct (y # ys)" "h y = Some e"
  shows "dseg (h(y \<mapsto> e\<lparr>pPrev := b\<rparr>)) b p (y # ys) q"
proof -
  have "dseg h y (pNext e) ys q"
    using assms(1,3) by simp
  then have "dseg (h(y \<mapsto> e\<lparr>pPrev := b\<rparr>)) y (pNext e) ys q"
    by (rule dseg_frame) (use assms(2) in auto)
  then show ?thesis
    using assms by simp
qed

text \<open>The heap after a node is unlinked and deleted.\<close>

definition set_next :: "nat \<Rightarrow> nat \<Rightarrow> TimerEvent heap \<Rightarrow> TimerEvent heap" where
  "set_next p q h = (case h p of None \<Rightarrow> h | Some e \<Rightarrow> h(p \<mapsto> e\<lparr>pNext := q\<rparr>))"

definition set_prev :: "nat \<Rightarrow> nat \<Rightarrow> TimerEvent heap \<Rightarrow> TimerEvent heap" where
  "set_prev p q h = (case h p of None \<Rightarrow> h | Some e \<Rightarrow> h(p \<mapsto> e\<lparr>pPrev := q\<rparr>))"

definition unlinked :: "nat \<Rightarrow> TimerEvent \<Rightarrow> TimerEvent heap \<Rightarrow> TimerEvent heap" where
  "unlinked x e h = (set_prev (pNext e) (pPrev e) (set_next (pPrev e) (pNext e) h))(x := None)"

text \<open>What a node holds beside its links.\<close>

definition content :: "TimerEvent \<Rightarrow> TimerEvent" where "content e = e\<lparr>pPrev := 0, pNext := 0\<rparr>"

lemma content_set [simp]:
  "map_option content (set_next p q h y) = map_option content (h y)"
  "map_option content (set_prev p q h y) = map_option content (h y)"
  by (auto simp: set_next_def set_prev_def content_def split: option.split)

lemma content_unlinked: "y \<noteq> x \<Longrightarrow> map_option content (unlinked x e h y) = map_option content (h y)"
  by (simp add: unlinked_def)

lemma set_other [simp]: "y \<noteq> p \<Longrightarrow> set_next p q h y = h y" "y \<noteq> p \<Longrightarrow> set_prev p q h y = h y"
  by (auto simp: set_next_def set_prev_def split: option.split)

lemma dseg_middle:
  assumes "dseg h a p (xs @ x # ys) 0" "h x = Some e"
  shows "dseg h a p xs x" "pPrev e = last (a # xs)" "dseg h x (pNext e) ys 0"
    "pNext e = (if ys = [] then 0 else hd ys)"
proof -
  show "dseg h a p xs x" "pPrev e = last (a # xs)" and n: "dseg h x (pNext e) ys 0"
    using assms by (auto simp: dseg_append)
  show "pNext e = (if ys = [] then 0 else hd ys)"
    using dseg_start [OF n] .
qed

lemma dseg_set_next:
  assumes "dseg h a p xs q" "distinct xs" "a \<notin> set xs" "xs \<noteq> []"
  shows "dseg (set_next (last xs) r h) a p xs r"
proof -
  obtain e where "h (last xs) = Some e"
    using dseg_nodes [OF assms(1), of "last xs"] assms(4) by auto
  then show ?thesis
    using dseg_last_next [OF assms(1,2,4)] by (simp add: set_next_def)
qed

lemma dseg_set_prev:
  assumes "dseg h a p (y # ys) q" "distinct (y # ys)"
  shows "dseg (set_prev y b h) b p (y # ys) q"
proof -
  obtain e where "h y = Some e"
    using assms(1) by auto
  then show ?thesis
    using dseg_first_prev [OF assms] by (simp add: set_prev_def)
qed

lemma dseg_unlinked:
  assumes "dseg h 0 p (xs @ x # ys) 0" "distinct (xs @ x # ys)" "h x = Some e"
  shows "dseg (unlinked x e h) 0 (if xs = [] then pNext e else p) (xs @ ys) 0"
proof -
  note m = dseg_middle [OF assms(1,3)]
  let ?h1 = "set_next (pPrev e) (pNext e) h" and ?b = "last (0 # xs)"
  let ?h2 = "set_prev (pNext e) (pPrev e) ?h1"
  have "0 \<notin> set (xs @ x # ys)"
    using dseg_nodes [OF assms(1), of 0] by blast
  then have nz: "0 \<notin> set xs" "0 \<noteq> x" "0 \<notin> set ys"
    by auto
  obtain b where b0: "?b = b" "b = 0 \<or> b \<in> set xs"
    by simp
  have b: "?b \<notin> set ys" "?b \<noteq> x"
    unfolding b0(1) using nz assms(2) b0(2) by auto
  have n: "pNext e \<notin> set xs" "pNext e \<noteq> x" "pNext e \<noteq> 0 \<Longrightarrow> ys = pNext e # tl ys"
    using m(4) nz assms(2) by (auto split: if_splits simp: hd_in_set)
  have "dseg ?h1 0 (if xs = [] then pNext e else p) xs (pNext e)"
    using dseg_set_next [OF m(1), of "pNext e"] nz assms(2) m(2) by (cases "xs = []") auto
  then have left: "dseg ?h2 0 (if xs = [] then pNext e else p) xs (pNext e)"
    by (rule dseg_frame) (rule set_other(2), use n(1) in blast)
  have "dseg ?h1 x (pNext e) ys 0"
    by (rule dseg_frame [OF m(3)]) (rule set_other(1), use b(1) m(2) in metis)
  then have "dseg ?h2 ?b (pNext e) ys 0"
    using dseg_set_prev [of ?h1 x "pNext e" "hd ys" "tl ys" 0 ?b] m(2,4) assms(2)
    by (cases ys) auto
  then have "dseg ?h2 0 (if xs = [] then pNext e else p) (xs @ ys) 0"
    using left by (auto simp: dseg_append)
  then show ?thesis
    unfolding unlinked_def by (rule dseg_frame) (use assms(2) in auto)
qed

section \<open>The slots\<close>

text \<open>The lists \<open>ls\<close> of the nodes of each slot, and the heap that holds these nodes and no
  others.\<close>

definition in_slot :: "TimerEvent heap \<Rightarrow> nat \<Rightarrow> nat set" where
  "in_slot h i = {p. \<exists>e. h p = Some e \<and> timerSlot e = int i}"

definition chains :: "nat \<Rightarrow> nat list \<Rightarrow> TimerEvent heap \<Rightarrow> (nat \<Rightarrow> nat list) \<Rightarrow> bool" where
  "chains n sl h ls \<longleftrightarrow> length sl = n
     \<and> (\<forall>i < n. dseg h 0 (sl ! i) (ls i) 0 \<and> distinct (ls i) \<and> set (ls i) = in_slot h i)
     \<and> (\<forall>p e. h p = Some e \<longrightarrow> 0 \<le> timerSlot e \<and> timerSlot e < int n)"

lemma chainsD:
  assumes "chains n sl h ls"
  shows "length sl = n" "i < n \<Longrightarrow> dseg h 0 (sl ! i) (ls i) 0" "i < n \<Longrightarrow> distinct (ls i)"
    "i < n \<Longrightarrow> set (ls i) = in_slot h i" "h p = Some e \<Longrightarrow> 0 \<le> timerSlot e \<and> timerSlot e < int n"
  using assms unfolding chains_def by auto

lemma chains_node:
  assumes "chains n sl h ls" "h p = Some e"
  shows "p \<in> set (ls (nat (timerSlot e)))" "nat (timerSlot e) < n" "p \<noteq> 0"
proof -
  have t: "0 \<le> timerSlot e" "timerSlot e < int n"
    using chainsD(5) [OF assms] by auto
  then show i: "nat (timerSlot e) < n"
    by simp
  show m: "p \<in> set (ls (nat (timerSlot e)))"
    using chainsD(4) [OF assms(1) i] assms(2) t by (simp add: in_slot_def)
  show "p \<noteq> 0"
    using dseg_nodes [OF chainsD(2) [OF assms(1) i] m] by simp
qed

lemma chains_null: "chains n sl h ls \<Longrightarrow> h 0 = None"
  using chains_node(3) [of n sl h ls 0] by (cases "h 0") auto

lemma in_slot_disjoint: "i \<noteq> j \<Longrightarrow> in_slot h i \<inter> in_slot h j = {}"
  by (auto simp: in_slot_def)

lemma content_eqD:
  assumes "map_option content x' = map_option content x" "x' = Some e'"
  obtains e where "x = Some e" "content e = content e'"
  using assms by (cases x) auto

lemma content_fields:
  assumes "content e = content e'"
  shows "timerSlot e = timerSlot e'" "rotation e = rotation e'" "ev_callback e = ev_callback e'"
    "tied e = tied e'" "tie e = tie e'" "ev_sequence e = ev_sequence e'"
  using arg_cong [OF assms, of timerSlot] arg_cong [OF assms, of rotation] arg_cong [OF assms, of ev_callback]
    arg_cong [OF assms, of tied] arg_cong [OF assms, of tie] arg_cong [OF assms, of ev_sequence]
  by (simp_all add: content_def)

lemma in_slot_content: "p \<in> in_slot h i \<longleftrightarrow> (\<exists>e. map_option content (h p) = Some e \<and> timerSlot e = int i)"
  by (cases "h p") (auto simp: in_slot_def content_def)

lemma chains_empty: "chains n (replicate n 0) (\<lambda>_. None) (\<lambda>_. [])"
  by (simp add: chains_def in_slot_def)

text \<open>Changing the rotation of a node.\<close>

lemma chains_rotation:
  assumes "chains n sl h ls" "h p = Some e"
  shows "chains n sl (h(p \<mapsto> e\<lparr>rotation := r\<rparr>)) ls"
proof -
  let ?h = "h(p \<mapsto> e\<lparr>rotation := r\<rparr>)"
  have "dseg ?h 0 (sl ! i) (ls i) 0" if "i < n" for i
    by (rule dseg_cong [OF chainsD(2) [OF assms(1) that]]) (use assms(2) in \<open>simp add: links_def\<close>)
  moreover have "in_slot ?h i = in_slot h i" for i
    using assms(2) by (auto simp: in_slot_def)
  ultimately show ?thesis
    using assms unfolding chains_def by simp
qed

text \<open>Unlinking and deleting a node.\<close>

lemma in_slot_unlinked:
  "in_slot (unlinked x e h) j = in_slot h j - {x}"
proof -
  have "unlinked x e h x = None"
    by (simp add: unlinked_def)
  then have "p \<in> in_slot (unlinked x e h) j \<longleftrightarrow> p \<in> in_slot h j - {x}" for p
    by (cases "p = x") (simp_all add: in_slot_content content_unlinked)
  then show ?thesis
    by blast
qed

lemma unlinked_other: "y \<notin> {x, pPrev e, pNext e} \<Longrightarrow> unlinked x e h y = h y"
  by (simp add: unlinked_def)

lemma chains_unlinked:
  assumes c: "chains n sl h ls" and i: "i < n" "ls i = xs @ x # ys" and x: "h x = Some e"
  shows "chains n (sl[i := if xs = [] then pNext e else sl ! i]) (unlinked x e h) (ls(i := xs @ ys))"
proof -
  let ?h = "unlinked x e h" let ?sl = "sl[i := if xs = [] then pNext e else sl ! i]"
  note D = chainsD [OF c]
  have seg: "dseg h 0 (sl ! i) (xs @ x # ys) 0" "distinct (xs @ x # ys)" "set (xs @ x # ys) = in_slot h i"
    using D(2-4) [OF i(1)] i(2) by simp_all
  note m = dseg_middle [OF seg(1) x]
  have touched: "{pPrev e, pNext e} \<subseteq> insert 0 (set (xs @ ys))"
    using m(2,4) hd_in_set [of ys] last_in_set [of "0 # xs"] by (auto split: if_splits)
  have "dseg ?h 0 (?sl ! j) ((ls(i := xs @ ys)) j) 0 \<and> distinct ((ls(i := xs @ ys)) j)
      \<and> set ((ls(i := xs @ ys)) j) = in_slot ?h j" if j: "j < n" for j
  proof (cases "j = i")
    case True
    then show ?thesis
      using dseg_unlinked [OF seg(1,2) x] seg(2,3) D(1) i(1) by (auto simp: in_slot_unlinked)
  next
    case False
    have none: "y \<notin> insert 0 (set (xs @ x # ys))" if "y \<in> set (ls j)" for y
      using dseg_nodes [OF D(2) [OF j] that] D(4) [OF j] seg(3) in_slot_disjoint [OF False, of h] that by auto
    have "?h y = h y" if "y \<in> set (ls j)" for y
      by (rule unlinked_other) (use none [OF that] touched in auto)
    then have "dseg ?h 0 (sl ! j) (ls j) 0"
      by (rule dseg_frame [OF D(2) [OF j]])
    moreover have "x \<notin> in_slot h j"
      using seg(3) in_slot_disjoint [OF False, of h] by auto
    ultimately show ?thesis
      using False D(3,4) [OF j] by (simp add: in_slot_unlinked)
  qed
  moreover have "0 \<le> timerSlot e' \<and> timerSlot e' < int n" if e': "?h p = Some e'" for p e'
  proof -
    have ne: "p \<noteq> x"
      using e' by (auto simp: unlinked_def)
    obtain e0 where "h p = Some e0" "content e0 = content e'"
      by (rule content_eqD [OF content_unlinked [OF ne, of e h] e'])
    then show ?thesis
      using D(5) [of p e0] content_fields(1) by metis
  qed
  ultimately show ?thesis
    using D(1) unfolding chains_def by simp
qed

text \<open>Adding a node in front of a slot.\<close>

lemma chains_added:
  assumes c: "chains n sl h ls" and p: "h p = None" "p \<noteq> 0" and i: "i < n" and e: "timerSlot e = int i" "pPrev e = 0"
  shows "chains n (sl[i := p]) (set_prev (sl ! i) p (h(p \<mapsto> e\<lparr>pNext := sl ! i\<rparr>))) (ls(i := p # ls i))"
    (is "chains n ?sl ?h ?ls")
proof -
  note D = chainsD [OF c]
  let ?h1 = "h(p \<mapsto> e\<lparr>pNext := sl ! i\<rparr>)"
  have new: "p \<notin> set (ls j)" if "j < n" for j
    using D(4) [OF that] p(1) by (auto simp: in_slot_def)
  have old: "dseg ?h1 0 (sl ! j) (ls j) 0" if "j < n" for j
    by (rule dseg_frame [OF D(2) [OF that]]) (use new [OF that] in auto)
  have start: "sl ! i = (if ls i = [] then 0 else hd (ls i))"
    by (rule dseg_start [OF D(2) [OF i]])
  then have np: "sl ! i \<noteq> p"
    using new [OF i] p(2) hd_in_set [of "ls i"] by auto
  have slot: "in_slot ?h j = (if j = i then insert p (in_slot h j) else in_slot h j)" for j
  proof -
    have "y \<in> in_slot ?h j \<longleftrightarrow> y \<in> in_slot ?h1 j" for y
      unfolding in_slot_content content_set ..
    moreover have "in_slot ?h1 j = (if j = i then insert p (in_slot h j) else in_slot h j)"
      using p(1) e(1) by (auto simp: in_slot_def)
    ultimately show ?thesis
      by blast
  qed
  have "dseg ?h 0 (?sl ! j) (?ls j) 0 \<and> distinct (?ls j) \<and> set (?ls j) = in_slot ?h j" if j: "j < n" for j
  proof (cases "j = i")
    case True
    have "dseg ?h p (sl ! i) (ls i) 0"
    proof (cases "ls i")
      case (Cons y ys)
      then show ?thesis
        using dseg_set_prev [of ?h1 0 "sl ! i" y ys 0 p] old [OF i] D(3) [OF i] start by simp
    qed (use start in simp)
    moreover have "?h p = Some (e\<lparr>pNext := sl ! i\<rparr>)"
      using np by simp
    ultimately show ?thesis
      using True i D(1,3,4) new e(2) p(2) slot by simp
  next
    case False
    have "?h y = ?h1 y" if "y \<in> set (ls j)" for y
    proof -
      have "y \<noteq> 0" "y \<notin> set (ls i)"
        using dseg_nodes [OF D(2) [OF j] that] D(4) [OF j] D(4) [OF i] in_slot_disjoint [OF False, of h] that by auto
      then have "y \<noteq> sl ! i"
        using start hd_in_set [of "ls i"] by auto
      then show ?thesis
        by simp
    qed
    then have "dseg ?h 0 (sl ! j) (ls j) 0"
      by (rule dseg_frame [OF old [OF j]])
    then show ?thesis
      using False D(3,4) [OF j] slot by simp
  qed
  moreover have "0 \<le> timerSlot e' \<and> timerSlot e' < int n" if e': "?h q = Some e'" for q e'
  proof -
    obtain e0 where "?h1 q = Some e0" "content e0 = content e'"
      by (rule content_eqD [OF content_set(2) [of "sl ! i" p ?h1 q] e'])
    then have "timerSlot e' = timerSlot e0" "timerSlot e0 = int i \<or> h q = Some e0"
      using content_fields(1) [of e0 e'] e(1) by (auto split: if_splits)
    then show ?thesis
      using D(5) [of q e0] i by auto
  qed
  ultimately show ?thesis
    using D(1) unfolding chains_def by simp
qed

section \<open>Invariant and agenda\<close>

abbreviation slot_count :: "TimerWheel \<Rightarrow> nat" where
  "slot_count w \<equiv> unat (slotsNum w)"

definition wheel_core :: "TimerWheel \<Rightarrow> (nat \<Rightarrow> nat list) \<Rightarrow> bool" where
  "wheel_core w ls \<longleftrightarrow> 0 < slot_count w \<and> slot_count w < 2 ^ 31
     \<and> 0 \<le> currentSlotPos w \<and> currentSlotPos w < int (slot_count w)
     \<and> chains (slot_count w) (slots w) (wheel_heap w) ls
     \<and> (\<forall>p e. wheel_heap w p = Some e \<longrightarrow> 0 \<le> rotation e \<and> tied e = (tie e \<noteq> 0))"

definition wheel_ok :: "TimerWheel \<Rightarrow> bool" where
  "wheel_ok w \<longleftrightarrow> mutex w \<noteq> Some True \<and> (\<exists>ls. wheel_core w ls)"

lemma wheel_coreD:
  assumes "wheel_core w ls"
  shows "0 < slot_count w" "slot_count w < 2 ^ 31" "0 \<le> currentSlotPos w" "currentSlotPos w < int (slot_count w)"
    "chains (slot_count w) (slots w) (wheel_heap w) ls"
    "wheel_heap w p = Some e \<Longrightarrow> 0 \<le> rotation e \<and> tied e = (tie e \<noteq> 0)"
  using assms unfolding wheel_core_def by auto

lemma wheel_core_updates [simp]:
  "wheel_core (w\<lparr>mutex := m\<rparr>) ls = wheel_core w ls" "wheel_core (w\<lparr>fired := f\<rparr>) ls = wheel_core w ls"
  "wheel_core (w\<lparr>alive := a\<rparr>) ls = wheel_core w ls" "wheel_core (w\<lparr>s_numCreated := c\<rparr>) ls = wheel_core w ls"
  "wheel_core (w\<lparr>ticks := n\<rparr>) ls = wheel_core w ls"
  by (simp_all add: wheel_core_def)

text \<open>
  The tick at which a node fires: the wheel reaches its slot after the ticks of the distance
  and then takes as many full turns as its rotation says.
\<close>

definition due_at :: "TimerWheel \<Rightarrow> TimerEvent \<Rightarrow> nat" where
  "due_at w e = ticks w + nat ((timerSlot e - currentSlotPos w) mod int (slot_count w)) + nat (rotation e) * slot_count w"

record Agenda =
  now :: nat
  pending :: "nat \<Rightarrow> (nat \<times> nat option \<times> nat) option"
  living :: "nat set"
  made :: "(nat \<times> nat) list"

definition entry :: "TimerWheel \<Rightarrow> TimerEvent \<Rightarrow> nat \<times> nat option \<times> nat" where
  "entry w e = (due_at w e, ev_callback e, tie e)"

definition agenda :: "TimerWheel \<Rightarrow> Agenda" where
  "agenda w = \<lparr>now = ticks w, pending = (\<lambda>p. map_option (entry w) (wheel_heap w p)),
     living = set (alive w), made = fired w\<rparr>"

lemma entry_content: "content e = content e' \<Longrightarrow> entry w e = entry w e'"
  using content_fields [of e e'] by (simp add: entry_def due_at_def)

lemma entry_option_content:
  assumes "map_option content x = map_option content y"
  shows "map_option (entry w) x = map_option (entry w) y"
  using assms by (cases x; cases y) (auto intro: entry_content)

lemma entry_updates [simp]:
  "entry (w\<lparr>mutex := m\<rparr>) = entry w" "entry (w\<lparr>fired := f\<rparr>) = entry w" "entry (w\<lparr>alive := a\<rparr>) = entry w"
  "entry (w\<lparr>s_numCreated := c\<rparr>) = entry w" "entry (w\<lparr>wheel_heap := h\<rparr>) = entry w" "entry (w\<lparr>slots := s\<rparr>) = entry w"
  by (auto simp: entry_def due_at_def fun_eq_iff)

lemma agenda_updates [simp]:
  "agenda (w\<lparr>mutex := m\<rparr>) = agenda w" "agenda (w\<lparr>alive := a\<rparr>) = agenda w\<lparr>living := set a\<rparr>" "agenda (w\<lparr>s_numCreated := c\<rparr>) = agenda w"
  by (simp_all add: agenda_def)

section \<open>Adding\<close>

lemma slot_at_uint: "unat (p :: int32) < length (slots w) \<Longrightarrow> slot_at (uint p) w = Inr (slots w ! unat p)"
  by (simp only: slot_at_def uint_nat of_nat_0_le_iff of_nat_less_iff nat_int simp_thms if_True)

lemma set_slot_uint: "set_slot (uint (p :: int32)) q w = w\<lparr>slots := (slots w)[unat p := q]\<rparr>"
  by (simp only: set_slot_def uint_nat nat_int)

lemma unat_word_of_int: "0 \<le> k \<Longrightarrow> k < 2 ^ 32 \<Longrightarrow> unat (word_of_int k :: int32) = nat k"
  by (simp add: unat_eq_nat_uint uint_word_of_int_eq take_bit_int_eq_self)

text \<open>The position and the rotation of a timeout.\<close>

lemma timeout_place:
  fixes timeout n :: int32
  assumes n: "0 < unat n" "unat n < 2 ^ 31" and c: "0 \<le> c" "c < int (unat n)"
    and t: "unat timeout div unat n < 2 ^ 31"
  defines "tick \<equiv> (if timeout < ts then 1 else timeout div ts)"
  defines "pos \<equiv> (word_of_int c + tick mod n) mod n"
  shows "unat tick = max 1 (unat timeout)" "sint (tick div n) = int (max 1 (unat timeout) div unat n)"
    "sint pos = int (unat pos)" "unat pos < unat n"
    "int (unat pos) = (c + int (max 1 (unat timeout))) mod int (unat n)"
proof -
  show tick: "unat tick = max 1 (unat timeout)"
    by (auto simp: tick_def ts_def word_less_nat_alt max_def)
  have "max 1 (unat timeout) div unat n \<le> max 1 (unat timeout div unat n)"
    by (cases "unat timeout = 0") (auto simp: max_def div_eq_0_iff)
  then have "unat (tick div n) < 2 ^ 31"
    using t by (simp add: unat_div tick)
  then show "sint (tick div n) = int (max 1 (unat timeout) div unat n)"
    by (simp add: sint_small unat_div tick)
  have cw: "unat (word_of_int c :: int32) = nat c"
  proof -
    have "int (unat n) < int (2 ^ 31)"
      by (rule of_nat_less_iff [THEN iffD2, OF n(2)])
    then have "c < 2 ^ 32"
      using c(2) by simp
    then show ?thesis
      using c(1) by (simp add: unat_word_of_int)
  qed
  have "unat (tick mod n) = max 1 (unat timeout) mod unat n"
    by (simp add: unat_mod tick)
  moreover have "nat c + max 1 (unat timeout) mod unat n < 2 ^ 32"
  proof -
    have "nat c < unat n"
      using c by (simp only: nat_less_iff)
    then have "nat c < 2 ^ 31" "max 1 (unat timeout) mod unat n < 2 ^ 31"
      using n(2) mod_less_divisor [OF n(1), of "max 1 (unat timeout)"] by (blast intro: less_trans)+
    then show ?thesis
      by simp
  qed
  ultimately have "unat (word_of_int c + tick mod n) = nat c + max 1 (unat timeout) mod unat n"
    using cw by (subst unat_add_lem [THEN iffD1]) simp_all
  then have pos: "unat pos = (nat c + max 1 (unat timeout)) mod unat n"
    by (simp add: pos_def unat_mod mod_add_right_eq)
  then show less: "unat pos < unat n"
    using n(1) by simp
  then show "sint pos = int (unat pos)"
    using n(2) by (simp add: sint_small)
  show "int (unat pos) = (c + int (max 1 (unat timeout))) mod int (unat n)"
    unfolding pos using c(1) by (simp add: zmod_int)
qed

lemma due_new:
  fixes c :: int
  assumes "0 < n" "int p = (c + int t) mod int n"
  shows "nat ((int p - c) mod int n) + nat (int (t div n)) * n = t"
proof -
  have "(int p - c) mod int n = int (t mod n)"
    by (simp add: assms(2) mod_diff_left_eq zmod_int)
  then show ?thesis
    by simp
qed

lemma addTimerUnlock_ok:
  assumes core: "wheel_core w ls" and alloc: "alloc_ok alloc" and t: "unat timeout div slot_count w < 2 ^ 31"
  shows "addTimerUnlock alloc timeout obj cb w = Inl BadAlloc \<or>
    (\<exists>i w' ls'. addTimerUnlock alloc timeout obj cb w = Inr (i, w') \<and> wheel_core w' ls' \<and> mutex w' = mutex w
       \<and> wheel_heap w (cid_timer i) = None \<and> cid_timer i \<noteq> 0
       \<and> agenda w' = agenda w\<lparr>pending := (pending (agenda w))(cid_timer i \<mapsto> (ticks w + max 1 (unat timeout), cb, obj))\<rparr>)"
proof -
  note D = wheel_coreD [OF core]
  let ?n = "slot_count w" and ?c = "currentSlotPos w"
  let ?tick = "if timeout < ts then 1 else timeout div ts"
  let ?pos = "(word_of_int ?c + ?tick mod slotsNum w) mod slotsNum w"
  let ?e = "new_event (sint (?tick div slotsNum w)) (sint ?pos) cb obj (s_numCreated w)"
  note P = timeout_place [OF D(1-4) t]
  have nz: "slotsNum w \<noteq> 0"
    using D(1) by auto
  show ?thesis
  proof (cases "alloc (wheel_heap w)")
    case None
    then show ?thesis
      using nz by (simp add: addTimerUnlock_def heap_new_def Let_def)
  next
    case (Some p)
    then have p: "wheel_heap w p = None" "p \<noteq> 0"
      using alloc_okD [OF alloc] by auto
    let ?i = "unat ?pos" let ?s = "slots w ! ?i"
    let ?h = "set_prev ?s p ((wheel_heap w)(p \<mapsto> ?e\<lparr>pNext := ?s\<rparr>))"
    let ?w = "w\<lparr>slots := (slots w)[?i := p], wheel_heap := ?h, s_numCreated := s_numCreated w + 1\<rparr>"
    have len: "?i < length (slots w)"
      using chainsD(1) [OF D(5)] P(4) by simp
    have added: "chains ?n ((slots w)[?i := p]) ?h (ls(?i := p # ls ?i))"
      by (rule chains_added [OF D(5) p P(4)]) (simp_all add: new_event_def P(3))
    have s: "?s \<noteq> p" "?s \<noteq> 0 \<Longrightarrow> \<exists>e. wheel_heap w ?s = Some e"
      using dseg_start [OF chainsD(2) [OF D(5) P(4)]] dseg_nodes [OF chainsD(2) [OF D(5) P(4)], of ?s] p
      by (auto split: if_splits)
    have eq: "addTimerUnlock alloc timeout obj cb w
        = Inr (\<lparr>cid_sequence = s_numCreated w + 1, cid_timer = p\<rparr>, ?w)"
    proof (cases "?s = 0")
      case True
      then show ?thesis
        using Some nz len chains_null [OF D(5)] p
        by (simp add: addTimerUnlock_def heap_new_def Let_def slot_at_uint set_slot_uint set_prev_def new_event_def)
    next
      case False
      then obtain e where "wheel_heap w ?s = Some e"
        using s(2) by auto
      then show ?thesis
        using Some nz len False s(1)
        by (simp add: addTimerUnlock_def heap_new_def Let_def slot_at_uint set_slot_uint set_prev_def)
    qed
    have he: "?h p = Some (?e\<lparr>pNext := ?s\<rparr>)"
      using s(1) by simp
    have others: "map_option content (?h q) = map_option content (wheel_heap w q)" if "q \<noteq> p" for q
      using that by simp
    have "wheel_core ?w (ls(?i := p # ls ?i))"
    proof -
      have rot: "0 \<le> rotation e \<and> tied e = (tie e \<noteq> 0)" if e: "?h q = Some e" for q e
      proof (cases "q = p")
        case True
        then show ?thesis
          using he e P(2) by (auto simp: new_event_def)
      next
        case False
        obtain e0 where "wheel_heap w q = Some e0" "content e0 = content e"
          by (rule content_eqD [OF others [OF False] e])
        then show ?thesis
          using D(6) [of q e0] content_fields [of e0 e] by simp
      qed
      have f: "slotsNum ?w = slotsNum w" "currentSlotPos ?w = ?c" "slots ?w = (slots w)[?i := p]" "wheel_heap ?w = ?h"
        by simp_all
      show ?thesis
        unfolding wheel_core_def f using added D(1-4) rot by blast
    qed
    moreover have "agenda ?w = agenda w\<lparr>pending := (pending (agenda w))(p \<mapsto> (ticks w + max 1 (unat timeout), cb, obj))\<rparr>"
    proof -
      have "entry w (?e\<lparr>pNext := ?s\<rparr>) = (ticks w + max 1 (unat timeout), cb, obj)"
        unfolding entry_def due_at_def new_event_def P(2,3) using due_new [OF D(1) P(5)]
        by (simp only: TimerEvent.simps add.assoc)
      then have "map_option (entry w) (?h q) = ((pending (agenda w))(p \<mapsto> (ticks w + max 1 (unat timeout), cb, obj))) q" for q
        using he entry_option_content [OF others, of q w] by (auto simp: agenda_def)
      then show ?thesis
        by (simp add: agenda_def fun_eq_iff)
    qed
    ultimately show ?thesis
      using eq p by auto
  qed
qed

section \<open>Removing\<close>

lemma write_next_set: "h p = Some e \<Longrightarrow> write_next p q h = Inr (set_next p q h)"
  by (simp add: write_next_def set_next_def)

lemma write_prev_set: "p = 0 \<or> h p \<noteq> None \<Longrightarrow> h 0 = None \<Longrightarrow> write_prev p q h = Inr (set_prev p q h)"
  by (auto simp: write_prev_def set_prev_def)

text \<open>Where a node is, and what its links are.\<close>

lemma node_place:
  assumes core: "wheel_core w ls" and e: "wheel_heap w p = Some e"
  obtains i xs ys where "i < slot_count w" "timerSlot e = int i" "ls i = xs @ p # ys"
proof -
  note c = wheel_coreD(5) [OF core]
  have "nat (timerSlot e) < slot_count w" "timerSlot e = int (nat (timerSlot e))"
    using chains_node [OF c e] chainsD(5) [OF c e] by simp_all
  then show ?thesis
    using that split_list [OF chains_node(1) [OF c e]] by blast
qed

lemma node_links:
  assumes core: "wheel_core w ls" and e: "wheel_heap w p = Some e"
    and i: "i < slot_count w" "ls i = xs @ p # ys"
  shows "p = slots w ! i \<longleftrightarrow> xs = []" "pPrev e = 0 \<longleftrightarrow> xs = []" "pPrev e \<noteq> p" "pNext e \<noteq> p" "p \<noteq> 0"
    "pPrev e \<noteq> 0 \<longrightarrow> wheel_heap w (pPrev e) \<noteq> None" "pNext e = 0 \<or> wheel_heap w (pNext e) \<noteq> None"
    "pNext e = (if ys = [] then 0 else hd ys)"
proof -
  note c = wheel_coreD(5) [OF core]
  have seg: "dseg (wheel_heap w) 0 (slots w ! i) (xs @ p # ys) 0" "distinct (xs @ p # ys)"
    using chainsD(2,3) [OF c i(1)] i(2) by simp_all
  note m = dseg_middle [OF seg(1) e]
  have nodes: "y \<noteq> 0 \<and> wheel_heap w y \<noteq> None" if "y \<in> set (xs @ p # ys)" for y
    by (rule dseg_nodes [OF seg(1) that])
  have prev: "pPrev e = 0 \<and> xs = [] \<or> pPrev e \<in> set xs \<and> xs \<noteq> []"
    using m(2) by (cases "xs = []") simp_all
  have "next": "pNext e = 0 \<or> pNext e \<in> set ys"
    using m(4) by (cases "ys = []") simp_all
  have z: "0 \<notin> set xs" "\<And>y. y \<in> set xs \<union> set ys \<Longrightarrow> wheel_heap w y \<noteq> None" "p \<notin> set xs \<union> set ys"
    using nodes [of 0] nodes seg(2) by auto
  show p: "p \<noteq> 0"
    using nodes [of p] by simp
  show "p = slots w ! i \<longleftrightarrow> xs = []"
    using dseg_start [OF seg(1)] seg(2) by (cases xs) auto
  show "pPrev e = 0 \<longleftrightarrow> xs = []" "pPrev e \<noteq> p"
    using prev z(1,3) p by auto
  show "pNext e \<noteq> p" "pNext e = 0 \<or> wheel_heap w (pNext e) \<noteq> None"
    using "next" z(2,3) p by auto
  show "pPrev e \<noteq> 0 \<longrightarrow> wheel_heap w (pPrev e) \<noteq> None"
    using prev z(2) [of "pPrev e"] by auto
  show "pNext e = (if ys = [] then 0 else hd ys)"
    by (rule m(4))
qed

lemma remove_ok:
  assumes core: "wheel_core w ls" and e: "wheel_heap w p = Some e"
    and i: "i < slot_count w" "ls i = xs @ p # ys"
  defines "w' \<equiv> w\<lparr>slots := (slots w)[i := if xs = [] then pNext e else slots w ! i], wheel_heap := unlinked p e (wheel_heap w)\<rparr>"
  shows "wheel_core w' (ls(i := xs @ ys))" "agenda w' = agenda w\<lparr>pending := (pending (agenda w))(p := None)\<rparr>"
proof -
  note D = wheel_coreD [OF core]
  let ?h = "unlinked p e (wheel_heap w)"
  have gone: "?h p = None"
    by (simp add: unlinked_def)
  note same = content_unlinked [of _ p e "wheel_heap w"]
  have rot: "0 \<le> rotation e' \<and> tied e' = (tie e' \<noteq> 0)" if e': "?h q = Some e'" for q e'
  proof -
    have "q \<noteq> p"
      using e' gone by auto
    then obtain e0 where "wheel_heap w q = Some e0" "content e0 = content e'"
      using content_eqD [OF same e'] by metis
    then show ?thesis
      using D(6) [of q e0] content_fields [of e0 e'] by simp
  qed
  have f: "slotsNum w' = slotsNum w" "currentSlotPos w' = currentSlotPos w" "wheel_heap w' = ?h"
    "slots w' = (slots w)[i := if xs = [] then pNext e else slots w ! i]"
    by (simp_all add: w'_def)
  show "wheel_core w' (ls(i := xs @ ys))"
    unfolding wheel_core_def f using chains_unlinked [OF D(5) i e] D(1-4) rot by blast
  have "map_option (entry w) (?h q) = ((pending (agenda w))(p := None)) q" for q
    using gone entry_option_content [OF same, of q w] by (cases "q = p") (simp_all add: agenda_def)
  then show "agenda w' = agenda w\<lparr>pending := (pending (agenda w))(p := None)\<rparr>"
    by (simp add: agenda_def w'_def fun_eq_iff)
qed

lemma slot_at_nat: "i < length (slots w) \<Longrightarrow> slot_at (int i) w = Inr (slots w ! i)"
  by (simp add: slot_at_def)

lemma set_slot_nat: "set_slot (int i) q w = w\<lparr>slots := (slots w)[i := q]\<rparr>"
  by (simp add: set_slot_def)

lemma cencelUnlock_ok:
  assumes core: "wheel_core w ls" and e: "wheel_heap w (cid_timer t) = Some e"
  obtains w' ls' where "cencelUnlock t w = Inr w'" "wheel_core w' ls'" "mutex w' = mutex w"
    "agenda w' = agenda w\<lparr>pending := (pending (agenda w))(cid_timer t := None)\<rparr>"
proof -
  let ?p = "cid_timer t"
  obtain i xs ys where i: "i < slot_count w" "timerSlot e = int i" "ls i = xs @ ?p # ys"
    by (rule node_place [OF core e])
  note links = node_links [OF core e i(1,3)]
  note c = wheel_coreD(5) [OF core]
  have len: "i < length (slots w)" and null: "wheel_heap w 0 = None"
    using i(1) chainsD(1) [OF c] chains_null [OF c] by simp_all
  let ?w = "w\<lparr>slots := (slots w)[i := if xs = [] then pNext e else slots w ! i], wheel_heap := unlinked ?p e (wheel_heap w)\<rparr>"
  have "cencelUnlock t w = Inr ?w"
  proof (cases "xs = []")
    case True
    have "write_prev (pNext e) 0 (wheel_heap w) = Inr (set_prev (pNext e) 0 (wheel_heap w))"
      by (rule write_prev_set [OF links(7) null])
    moreover have "set_next 0 (pNext e) (wheel_heap w) = wheel_heap w"
      using null by (simp add: set_next_def)
    moreover have "set_prev (pNext e) 0 (wheel_heap w) ?p = Some e"
      using links(4) e by simp
    ultimately show ?thesis
      using True e len links(1,2,5) i(2)
      by (simp add: cencelUnlock_def Let_def slot_at_nat set_slot_nat unlinked_def)
  next
    case False
    let ?h = "set_next (pPrev e) (pNext e) (wheel_heap w)"
    obtain e1 where "wheel_heap w (pPrev e) = Some e1"
      using False links(2,6) by blast
    then have 1: "write_next (pPrev e) (pNext e) (wheel_heap w) = Inr ?h"
      by (rule write_next_set)
    have 2: "?h ?p = Some e"
      using links(3) e by simp
    have 3: "write_prev (pNext e) (pPrev e) ?h = Inr (set_prev (pNext e) (pPrev e) ?h)"
      by (rule write_prev_set) (use links(2,7) False null in \<open>auto simp: set_next_def split: option.split\<close>)
    have 4: "set_prev (pNext e) (pPrev e) ?h ?p = Some e"
      using links(4) 2 by simp
    show ?thesis
      using False e len links(1,5) i(2) 1 2 3 4
      by (simp add: cencelUnlock_def Let_def slot_at_nat unlinked_def)
  qed
  then show ?thesis
    by (rule that) (use remove_ok [OF core e i(1,3)] in simp_all)
qed

section \<open>The tick\<close>

text \<open>Callbacks that at most drop objects. (With a mutex any other call from a callback
  blocks for ever, see below.)\<close>

definition quiet :: "behaviour \<Rightarrow> bool" where
  "quiet behave \<longleftrightarrow> (\<forall>cb w. set (behave cb w) \<subseteq> range Release)"

text \<open>
  The callbacks of \<open>ps\<close> are due, one after the other, while the objects in \<open>L\<close> live; \<open>t p\<close> is the object
  to which that of \<open>p\<close> is tied, 0 for none. Those in \<open>fs\<close> are made: exactly those whose object lives when
  their turn comes. A callback may drop objects.
\<close>

inductive served :: "(nat \<Rightarrow> nat) \<Rightarrow> nat list \<Rightarrow> nat set \<Rightarrow> nat list \<Rightarrow> nat set \<Rightarrow> bool" for t where
  served_none: "served t [] L [] L"
| served_make: "t p = 0 \<or> t p \<in> L \<Longrightarrow> M \<subseteq> L \<Longrightarrow> served t ps M fs N \<Longrightarrow> served t (p # ps) L (p # fs) N"
| served_skip: "t p \<noteq> 0 \<Longrightarrow> t p \<notin> L \<Longrightarrow> served t ps L fs N \<Longrightarrow> served t (p # ps) L fs N"

lemma served_append: "served t ps L fs M \<Longrightarrow> served t qs M gs N \<Longrightarrow> served t (ps @ qs) L (fs @ gs) N"
  by (induction rule: served.induct) (auto intro: served.intros)

lemma served_cong: "served t ps L fs M \<Longrightarrow> (\<And>p. p \<in> set ps \<Longrightarrow> t' p = t p) \<Longrightarrow> served t' ps L fs M"
  by (induction rule: served.induct) (auto intro: served.intros)

lemma served_set: "served t ps L fs M \<Longrightarrow> set fs \<subseteq> set ps \<and> {p \<in> set ps. t p = 0} \<subseteq> set fs"
  by (induction rule: served.induct) auto

lemma quiet_calls:
  "set cs \<subseteq> range Release \<Longrightarrow> \<exists>al. run_calls alloc cs w = Inr (w\<lparr>alive := al\<rparr>) \<and> set al \<subseteq> set (alive w)"
proof (induction cs arbitrary: w)
  case Nil
  then show ?case
    by (auto intro: exI [of _ "alive w"])
next
  case (Cons c cs)
  then obtain ob where c: "c = Release ob" "set cs \<subseteq> range Release"
    by auto
  show ?case
    using Cons.IH [OF c(2), of "w\<lparr>alive := removeAll ob (alive w)\<rparr>"] c(1) by auto
qed

lemma run_quiet:
  assumes "quiet behave" and t: "tied e = (tie e \<noteq> 0)" "t p = tie e"
  obtains fs al where "TimerEvent_run alloc behave p e w = Inr (w\<lparr>fired := fired w @ map (Pair (ticks w)) fs, alive := al\<rparr>)"
    "served t (if ev_callback e = None then [] else [p]) (set (alive w)) fs (set al)"
proof (cases "ev_callback e")
  case None
  then show ?thesis
    using that [where fs = "[]" and al = "alive w"] by (simp add: TimerEvent_run_def served_none)
next
  case (Some cb)
  let ?w = "w\<lparr>fired := fired w @ [(ticks w, p)]\<rparr>"
  have "set (behave cb ?w) \<subseteq> range Release"
    using assms by (simp add: quiet_def)
  then obtain al where al: "run_calls alloc (behave cb ?w) ?w = Inr (?w\<lparr>alive := al\<rparr>)" "set al \<subseteq> set (alive w)"
    using quiet_calls [of "behave cb ?w" alloc ?w] by auto
  show ?thesis
  proof (cases "tied e \<and> tie e \<notin> set (alive w)")
    case True
    then have "served t [p] (set (alive w)) [] (set (alive w))"
      using t by (auto intro: served.intros)
    then show ?thesis
      using that [where fs = "[]" and al = "alive w"] Some True by (simp add: TimerEvent_run_def Let_def)
  next
    case False
    then have "TimerEvent_run alloc behave p e w = Inr (?w\<lparr>alive := al\<rparr>)"
      using Some al by (auto simp: TimerEvent_run_def Let_def)
    moreover have "served t [p] (set (alive w)) [p] (set al)"
      using t False al(2) by (intro served_make [OF _ _ served_none]) auto
    ultimately show ?thesis
      using that [where fs = "[p]" and al = al] Some by simp
  qed
qed

text \<open>What a visit of the loop makes of a node.\<close>

definition visit :: "TimerEvent option \<Rightarrow> TimerEvent option" where
  "visit x = Option.bind x (\<lambda>e. if rotation e > 0 then Some (e\<lparr>rotation := rotation e - 1\<rparr>) else None)"

abbreviation holds :: "TimerWheel \<Rightarrow> nat \<Rightarrow> TimerEvent option" where
  "holds w p \<equiv> map_option content (wheel_heap w p)"

definition ready :: "TimerWheel \<Rightarrow> nat \<Rightarrow> bool" where
  "ready w p \<longleftrightarrow> (\<exists>e. holds w p = Some e \<and> rotation e = 0 \<and> ev_callback e \<noteq> None)"

definition tie_at :: "TimerWheel \<Rightarrow> nat \<Rightarrow> nat" where
  "tie_at w p = (case holds w p of Some e \<Rightarrow> tie e | None \<Rightarrow> 0)"

lemma ready_Some: "wheel_heap w p = Some e \<Longrightarrow> ready w p \<longleftrightarrow> rotation e = 0 \<and> ev_callback e \<noteq> None"
  by (simp add: ready_def content_def)

lemma tie_at_Some: "wheel_heap w p = Some e \<Longrightarrow> tie_at w p = tie e"
  by (simp add: tie_at_def content_def)

lemma ready_cong: "holds w' p = holds w p \<Longrightarrow> ready w' p = ready w p" "holds w' p = holds w p \<Longrightarrow> tie_at w' p = tie_at w p"
  by (simp_all add: ready_def tie_at_def)

definition same_frame :: "TimerWheel \<Rightarrow> TimerWheel \<Rightarrow> bool" where
  "same_frame w w' \<longleftrightarrow> mutex w' = mutex w \<and> slotsNum w' = slotsNum w \<and> currentSlotPos w' = currentSlotPos w \<and> ticks w' = ticks w"

lemma tick_event_wait:
  assumes core: "wheel_core w ls" and e: "wheel_heap w p = Some e" "0 < rotation e"
  defines "w' \<equiv> w\<lparr>wheel_heap := (wheel_heap w)(p \<mapsto> e\<lparr>rotation := rotation e - 1\<rparr>)\<rparr>"
  shows "tick_event alloc behave p w = Inr (pNext e, w')" "wheel_core w' ls" "same_frame w w'"
    "holds w' p = visit (holds w p)" "q \<noteq> p \<Longrightarrow> wheel_heap w' q = wheel_heap w q" "fired w' = fired w" "alive w' = alive w"
proof -
  note D = wheel_coreD [OF core]
  show "tick_event alloc behave p w = Inr (pNext e, w')"
    using e by (simp add: tick_event_def Let_def w'_def)
  have f: "slotsNum w' = slotsNum w" "currentSlotPos w' = currentSlotPos w" "slots w' = slots w"
    "wheel_heap w' = (wheel_heap w)(p \<mapsto> e\<lparr>rotation := rotation e - 1\<rparr>)"
    by (simp_all add: w'_def)
  have "0 \<le> rotation e' \<and> tied e' = (tie e' \<noteq> 0)" if "((wheel_heap w)(p \<mapsto> e\<lparr>rotation := rotation e - 1\<rparr>)) q = Some e'" for q e'
    using that D(6) [of q e'] D(6) [OF e(1)] e(2) by (auto split: if_splits)
  then show "wheel_core w' ls"
    unfolding wheel_core_def f using chains_rotation [OF D(5) e(1)] D(1-4) by blast
  show "same_frame w w'" "q \<noteq> p \<Longrightarrow> wheel_heap w' q = wheel_heap w q" "fired w' = fired w" "alive w' = alive w"
    by (simp_all add: same_frame_def w'_def)
  show "holds w' p = visit (holds w p)"
    using e by (simp add: w'_def visit_def content_def)
qed

lemma tick_event_fire:
  assumes core: "wheel_core w ls" and e: "wheel_heap w p = Some e" "rotation e = 0" and behave: "quiet behave"
    and i: "ls (nat (currentSlotPos w)) = xs @ p # ys"
  obtains w' fs where "tick_event alloc behave p w = Inr (pNext e, w')"
    "wheel_core w' (ls(nat (currentSlotPos w) := xs @ ys))" "same_frame w w'"
    "wheel_heap w' p = None" "\<And>q. q \<noteq> p \<Longrightarrow> holds w' q = holds w q"
    "fired w' = fired w @ map (Pair (ticks w)) fs"
    "served (tie_at w) (if ready w p then [p] else []) (set (alive w)) fs (set (alive w'))"
proof -
  note D = wheel_coreD [OF core]
  let ?i = "nat (currentSlotPos w)"
  have n: "?i < slot_count w" "currentSlotPos w = int ?i"
    using D(3,4) by (simp_all only: nat_less_iff nat_0_le)
  obtain fs al where run: "TimerEvent_run alloc behave p e w = Inr (w\<lparr>fired := fired w @ map (Pair (ticks w)) fs, alive := al\<rparr>)"
    "served (tie_at w) (if ev_callback e = None then [] else [p]) (set (alive w)) fs (set al)"
    by (rule run_quiet [OF behave, of e "tie_at w" p alloc w]) (use D(6) [OF e(1)] tie_at_Some [OF e(1)] in auto)
  let ?w1 = "w\<lparr>fired := fired w @ map (Pair (ticks w)) fs, alive := al\<rparr>"
  have core1: "wheel_core ?w1 ls" and e1: "wheel_heap ?w1 p = Some e"
    using core e(1) by simp_all
  note links = node_links [OF core e(1) n(1) i]
  have len: "?i < length (slots w)" and null: "wheel_heap w 0 = None"
    using n(1) chainsD(1) [OF D(5)] chains_null [OF D(5)] by simp_all
  let ?w = "?w1\<lparr>slots := (slots w)[?i := if xs = [] then pNext e else slots w ! ?i], wheel_heap := unlinked p e (wheel_heap w)\<rparr>"
  have at: "slot_at (currentSlotPos w) ?w1 = Inr (slots w ! ?i)"
    using len by (subst n(2), subst slot_at_nat) simp_all
  have set: "set_slot (currentSlotPos w) q ?w1 = ?w1\<lparr>slots := (slots w)[?i := q]\<rparr>" for q
    by (subst n(2), subst set_slot_nat) simp
  have step: "tick_event alloc behave p w = Inr (pNext e, ?w)"
  proof (cases "xs = []")
    case True
    have "write_prev (pNext e) 0 ((wheel_heap w)(p := None)) = Inr (set_prev (pNext e) 0 ((wheel_heap w)(p := None)))"
      by (rule write_prev_set) (use links(4,7) null in auto)
    moreover have "set_next 0 (pNext e) (wheel_heap w) = wheel_heap w"
      using null by (simp add: set_next_def)
    moreover have "set_prev (pNext e) 0 ((wheel_heap w)(p := None)) = (set_prev (pNext e) 0 (wheel_heap w))(p := None)"
      using links(4) by (auto simp: set_prev_def fun_upd_twist split: option.split)
    ultimately show ?thesis
      using True e len links(1,2,5) run(1) at set
      by (simp add: tick_event_def Let_def unlinked_def del: fun_upd_apply)
  next
    case False
    let ?h = "set_next (pPrev e) (pNext e) (wheel_heap w)"
    obtain e1 where "wheel_heap w (pPrev e) = Some e1"
      using False links(2,6) by blast
    then have 1: "write_next (pPrev e) (pNext e) (wheel_heap w) = Inr ?h"
      by (rule write_next_set)
    have 2: "?h p = Some e"
      using links(3) e by simp
    have 3: "write_prev (pNext e) (pPrev e) ?h = Inr (set_prev (pNext e) (pPrev e) ?h)"
      by (rule write_prev_set) (use links(2,7) False null in \<open>auto simp: set_next_def split: option.split\<close>)
    have 4: "set_prev (pNext e) (pPrev e) ?h p = Some e"
      using links(4) 2 by simp
    show ?thesis
      using False e len links(1,5) run(1) at set 1 2 3 4
      by (simp add: tick_event_def Let_def unlinked_def del: fun_upd_apply)
  qed
  have core': "wheel_core ?w (ls(?i := xs @ ys))"
    using remove_ok(1) [OF core1 e1, of ?i xs ys] n(1) i by (cases "xs = []") simp_all
  have heap': "wheel_heap ?w p = None" "\<And>q. q \<noteq> p \<Longrightarrow> holds ?w q = holds w q"
    by (simp add: unlinked_def) (simp add: content_unlinked)
  have fs: "served (tie_at w) (if ready w p then [p] else []) (set (alive w)) fs (set (alive ?w))"
    using run(2) e(2) unfolding ready_Some [OF e(1)] by (cases "ev_callback e") simp_all
  show ?thesis
    by (rule that [OF step core' _ heap' _ fs]) (simp_all add: same_frame_def)
qed

lemma same_frame_trans: "same_frame u v \<Longrightarrow> same_frame v w \<Longrightarrow> same_frame u w"
  by (simp add: same_frame_def)

text \<open>The loop visits every node of the rest of the slot once.\<close>

lemma tick_loop_ok:
  assumes "wheel_core w ls" "quiet behave" "ls (nat (currentSlotPos w)) = ks @ rs"
  shows "\<exists>w' ls' fs. tick_loop alloc behave (if rs = [] then 0 else hd rs) w = Some (Inr w') \<and> wheel_core w' ls'
    \<and> same_frame w w' \<and> (\<forall>q. holds w' q = (if q \<in> set rs then visit (holds w q) else holds w q))
    \<and> fired w' = fired w @ map (Pair (ticks w)) fs
    \<and> served (tie_at w) (filter (ready w) rs) (set (alive w)) fs (set (alive w'))"
  using assms
proof (induction rs arbitrary: w ls ks)
  case Nil
  have "tick_loop alloc behave 0 w = Some (Inr w)"
    by (subst tick_loop.simps) simp
  then show ?case
    using Nil.prems(1) by (intro exI [of _ w] exI [of _ ls] exI [of _ "[]"]) (simp add: same_frame_def served_none)
next
  case (Cons p rs)
  note core = Cons.prems(1)
  note D = wheel_coreD [OF core]
  let ?i = "nat (currentSlotPos w)"
  have n: "?i < slot_count w"
    using D(3,4) by (simp only: nat_less_iff)
  have seg: "dseg (wheel_heap w) 0 (slots w ! ?i) (ks @ p # rs) 0" "distinct (ks @ p # rs)"
    using chainsD(2,3) [OF D(5) n] Cons.prems(3) by simp_all
  obtain e where e: "wheel_heap w p = Some e" "0 \<le> rotation e"
    using dseg_nodes [OF seg(1), of p] D(6) by auto
  have p: "p \<noteq> 0" "p \<notin> set rs"
    using dseg_nodes [OF seg(1), of p] seg(2) by auto
  have nxt: "pNext e = (if rs = [] then 0 else hd rs)"
    by (rule node_links(8) [OF core e(1) n Cons.prems(3)])
  have rest: "\<exists>w' ls' fs. tick_loop alloc behave p w = Some (Inr w') \<and> wheel_core w' ls' \<and> same_frame w w'
      \<and> (\<forall>q. holds w' q = (if q \<in> set (p # rs) then visit (holds w q) else holds w q))
      \<and> fired w' = fired w @ map (Pair (ticks w)) fs
      \<and> served (tie_at w) (filter (ready w) (p # rs)) (set (alive w)) fs (set (alive w'))"
    if v: "tick_event alloc behave p w = Inr (pNext e, v)" "wheel_core v ls1" "same_frame w v"
      "ls1 (nat (currentSlotPos v)) = ks1 @ rs" "holds v p = visit (holds w p)" "\<And>q. q \<noteq> p \<Longrightarrow> holds v q = holds w q"
      "fired v = fired w @ map (Pair (ticks w)) fs1"
      "served (tie_at w) (if ready w p then [p] else []) (set (alive w)) fs1 (set (alive v))"
    for v ls1 ks1 fs1
  proof -
    have eq: "tick_loop alloc behave p w = tick_loop alloc behave (if rs = [] then 0 else hd rs) v"
      by (subst tick_loop.simps) (simp only: p(1) v(1) nxt if_False sum.case prod.case)
    obtain w' ls' fs where w': "tick_loop alloc behave (if rs = [] then 0 else hd rs) v = Some (Inr w')"
      "wheel_core w' ls'" "same_frame v w'" "\<forall>q. holds w' q = (if q \<in> set rs then visit (holds v q) else holds v q)"
      "fired w' = fired v @ map (Pair (ticks v)) fs"
      "served (tie_at v) (filter (ready v) rs) (set (alive v)) fs (set (alive w'))"
      using Cons.IH [OF v(2) Cons.prems(2) v(4)] by blast
    have r: "q \<in> set rs \<Longrightarrow> ready v q = ready w q \<and> tie_at v q = tie_at w q" for q
      using ready_cong [OF v(6), of q] p(2) by auto
    have "filter (ready v) rs = filter (ready w) rs"
      using r by (auto intro: filter_cong)
    moreover have "tie_at w q = tie_at v q" if "q \<in> set (filter (ready w) rs)" for q
      using r [of q] that by simp
    ultimately have "served (tie_at w) (filter (ready w) rs) (set (alive v)) fs (set (alive w'))"
      using w'(6) served_cong [of "tie_at v" "filter (ready w) rs" _ fs _ "tie_at w"] by simp
    then have "served (tie_at w) (filter (ready w) (p # rs)) (set (alive w)) (fs1 @ fs) (set (alive w'))"
      using served_append [OF v(8)] by (cases "ready w p") simp_all
    moreover have "fired w' = fired w @ map (Pair (ticks w)) (fs1 @ fs)"
      using v(3,7) w'(5) by (simp add: same_frame_def)
    moreover have "holds w' q = (if q \<in> set (p # rs) then visit (holds w q) else holds w q)" for q
      using w'(4) v(5,6) p(2) by (cases "q = p") auto
    ultimately show ?thesis
      using eq w'(1,2) same_frame_trans [OF v(3) w'(3)]
      by (intro exI [of _ w'] exI [of _ ls'] exI [of _ "fs1 @ fs"] conjI allI) simp_all
  qed
  show ?case
  proof (cases "0 < rotation e")
    case True
    note s = tick_event_wait [OF core e(1) True]
    have "\<not> ready w p"
      using True ready_Some [OF e(1)] by auto
    then show ?thesis
      using rest [OF s(1) s(2,3), of "ks @ [p]" "[]"] s(3-7) Cons.prems(3) by (simp add: same_frame_def served_none)
  next
    case False
    then have z: "rotation e = 0"
      using e(2) by simp
    obtain v fs where v: "tick_event alloc behave p w = Inr (pNext e, v)" "wheel_core v (ls(?i := ks @ rs))" "same_frame w v"
      "wheel_heap v p = None" "\<And>q. q \<noteq> p \<Longrightarrow> holds v q = holds w q"
      "fired v = fired w @ map (Pair (ticks w)) fs"
      "served (tie_at w) (if ready w p then [p] else []) (set (alive w)) fs (set (alive v))"
      by (rule tick_event_fire [OF core e(1) z Cons.prems(2,3), of alloc]) (rule that)
    have "holds v p = visit (holds w p)"
      using v(4) e(1) z by (simp add: visit_def content_def)
    then show ?thesis
      using rest [OF v(1-3) _ _ v(5-7), of ks] v(3) by (simp add: same_frame_def)
  qed
qed

section \<open>The agenda\<close>

text \<open>
  The abstract wheel: an addition enters a tick, a cancellation removes it, an object may cease to live,
  and a tick serves the callbacks entered for it, each once and in some order: it makes those that are not
  tied and those whose object lives when their turn comes, and no others.
\<close>

definition object_of :: "Agenda \<Rightarrow> nat \<Rightarrow> nat" where
  "object_of a p = snd (snd (the (pending a p)))"

definition after_now :: "Agenda \<Rightarrow> nat \<Rightarrow> (nat \<times> nat option \<times> nat) option" where
  "after_now a p = (case pending a p of None \<Rightarrow> None | Some x \<Rightarrow> if fst x = now a then None else Some x)"

inductive agenda_step :: "wheel_input \<Rightarrow> Agenda \<Rightarrow> Agenda \<Rightarrow> bool" where
  add: "pending a p = None \<Longrightarrow> p \<noteq> 0 \<Longrightarrow>
    agenda_step (Call (Add t obj cb)) a (a\<lparr>pending := (pending a)(p \<mapsto> (now a + max 1 (unat t), cb, obj))\<rparr>)"
| cancel: "agenda_step (Call (Cencel i)) a (a\<lparr>pending := (pending a)(cid_timer i := None)\<rparr>)"
| release: "agenda_step (Call (Release obj)) a (a\<lparr>living := living a - {obj}\<rparr>)"
| tick: "distinct ps \<Longrightarrow> (\<And>p. p \<in> set ps \<longleftrightarrow> (\<exists>cb obj. pending a p = Some (now a, Some cb, obj))) \<Longrightarrow>
    served (object_of a) ps (living a) fs L \<Longrightarrow>
    agenda_step Tick a \<lparr>now = Suc (now a), pending = after_now a, living = L, made = made a @ map (Pair (now a)) fs\<rparr>"

inductive_cases agenda_add: "agenda_step (Call (Add t obj cb)) a b"
inductive_cases agenda_cancel: "agenda_step (Call (Cencel i)) a b"
inductive_cases agenda_release: "agenda_step (Call (Release obj)) a b"
inductive_cases agenda_tick: "agenda_step Tick a b"

inductive agenda_steps :: "wheel_input list \<Rightarrow> Agenda \<Rightarrow> Agenda \<Rightarrow> bool" where
  none: "agenda_steps [] a a"
| more_steps: "agenda_step s a b \<Longrightarrow> agenda_steps ss b c \<Longrightarrow> agenda_steps (s # ss) a c"

inductive_cases agenda_steps_Nil: "agenda_steps [] a b"
inductive_cases agenda_steps_Cons: "agenda_steps (s # ss) a b"

text \<open>What the users of the wheel have to respect: a cancelled timer is pending, and its timeout
  fits an \<open>int\<close> number of turns.\<close>

fun legal :: "wheel_input \<Rightarrow> TimerWheel \<Rightarrow> bool" where
  "legal (Call (Add t obj cb)) w \<longleftrightarrow> unat t div slot_count w < 2 ^ 31"
| "legal (Call (Cencel i)) w \<longleftrightarrow> cid_timer i = 0 \<or> wheel_heap w (cid_timer i) \<noteq> None"
| "legal _ w \<longleftrightarrow> True"

fun legal_steps :: "TimerEvent allocator \<Rightarrow> behaviour \<Rightarrow> wheel_input list \<Rightarrow> TimerWheel \<Rightarrow> bool" where
  "legal_steps alloc behave [] w \<longleftrightarrow> True"
| "legal_steps alloc behave (s # ss) w \<longleftrightarrow> legal s w
     \<and> (case wheel_step alloc behave s w of Some (Inr w') \<Rightarrow> legal_steps alloc behave ss w' | _ \<Rightarrow> True)"

section \<open>Refinement\<close>

lemma next_pos:
  fixes n :: int32
  assumes "0 < unat n" "unat n < 2 ^ 31" "0 \<le> c" "c < int (unat n)"
  shows "sint (word_of_int (c + 1) mod n) = (c + 1) mod int (unat n)"
proof -
  have "int (unat n) < int (2 ^ 31)"
    by (rule of_nat_less_iff [THEN iffD2, OF assms(2)])
  then have "c + 1 < 2 ^ 32"
    using assms(4) by simp
  then have "unat (word_of_int (c + 1) :: int32) = nat (c + 1)"
    using assms(3) by (intro unat_word_of_int) simp
  then have u: "unat (word_of_int (c + 1) mod n) = nat (c + 1) mod unat n"
    by (simp add: unat_mod)
  then have "unat (word_of_int (c + 1) mod n) < unat n"
    using assms(1) by simp
  then have "unat (word_of_int (c + 1) mod n) < 2 ^ 31"
    using assms(2) by (rule less_trans)
  then have "sint (word_of_int (c + 1) mod n) = int (nat (c + 1) mod unat n)"
    unfolding u [symmetric] by (rule sint_small)
  also have "\<dots> = (c + 1) mod int (unat n)"
    using assms(3) by (simp only: zmod_int int_nat_eq, simp)
  finally show ?thesis .
qed

text \<open>Turning the wheel by one slot keeps the tick of every node but those at hand, which it
  would delay by a turn.\<close>

lemma turn_mod:
  fixes c n s :: int
  assumes "0 < n" "0 \<le> c" "c < n" "0 \<le> s" "s < n"
  shows "nat ((s - (c + 1) mod n) mod n) = (if s = c then nat n - 1 else nat ((s - c) mod n) - 1)"
    "s \<noteq> c \<Longrightarrow> 0 < (s - c) mod n"
proof -
  have eq: "(s - (c + 1) mod n) mod n = (s - c - 1) mod n"
    by (metis mod_diff_right_eq diff_diff_eq)
  have wrap: "d mod n = (if 0 \<le> d then d else d + n)" if "- n \<le> d" "d < n" for d
  proof (cases "0 \<le> d")
    case False
    have "d mod n = (d + n) mod n"
      by simp
    also have "\<dots> = d + n"
      by (rule mod_pos_pos_trivial) (use that False in auto)
    finally show ?thesis
      using False by simp
  qed (use that in simp)
  have r: "(s - c) mod n = (if c \<le> s then s - c else s - c + n)"
    using wrap [of "s - c"] assms by simp
  have r1: "(s - c - 1) mod n = (if c < s then s - c - 1 else s - c - 1 + n)"
    using wrap [of "s - c - 1"] assms by simp
  show "nat ((s - (c + 1) mod n) mod n) = (if s = c then nat n - 1 else nat ((s - c) mod n) - 1)"
    unfolding eq r r1 using assms by (auto split: if_splits)
  show "s \<noteq> c \<Longrightarrow> 0 < (s - c) mod n"
    unfolding r using assms by auto
qed

lemma content_content [simp]: "content (content e) = content e"
  by (simp add: content_def)

lemma pending_holds: "pending (agenda w) q = map_option (entry w) (holds w q)"
  by (cases "wheel_heap w q") (auto simp: agenda_def intro: entry_content)

lemma due_turn:
  assumes core: "wheel_core w ls" and e: "0 \<le> rotation e" "0 \<le> timerSlot e" "timerSlot e < int (slot_count w)"
    and turn: "slotsNum w' = slotsNum w" "currentSlotPos w' = (currentSlotPos w + 1) mod int (slot_count w)"
      "ticks w' = Suc (ticks w)"
  shows "timerSlot e \<noteq> currentSlotPos w \<Longrightarrow> due_at w' e = due_at w e \<and> ticks w < due_at w e"
    "timerSlot e = currentSlotPos w \<Longrightarrow> due_at w e = ticks w + nat (rotation e) * slot_count w"
    "timerSlot e = currentSlotPos w \<Longrightarrow> 0 < rotation e \<Longrightarrow> due_at w' (e\<lparr>rotation := rotation e - 1\<rparr>) = due_at w e"
proof -
  note D = wheel_coreD [OF core]
  let ?n = "slot_count w" let ?c = "currentSlotPos w" let ?s = "timerSlot e"
  have n: "0 < int ?n"
    using D(1) by (simp only: of_nat_0_less_iff)
  note T = turn_mod [OF n D(3,4) e(2,3)]
  show "due_at w' e = due_at w e \<and> ticks w < due_at w e" if "?s \<noteq> ?c"
  proof -
    have "0 < nat ((?s - ?c) mod int ?n)"
      using T(2) [OF that] by (simp only: zero_less_nat_eq)
    then show ?thesis
      unfolding due_at_def turn T(1) using that by simp
  qed
  show same: "due_at w e = ticks w + nat (rotation e) * ?n" if "?s = ?c"
    using that by (simp add: due_at_def)
  show "due_at w' (e\<lparr>rotation := rotation e - 1\<rparr>) = due_at w e" if c: "?s = ?c" and pos: "0 < rotation e"
  proof -
    obtain r where r: "rotation e = int (Suc r)"
      using pos by (metis pos_int_cases Suc_pred of_nat_0_less_iff)
    have "nat (int ?n) - 1 + 1 = ?n"
      using D(1) by simp
    moreover have "due_at w' (e\<lparr>rotation := rotation e - 1\<rparr>) = Suc (ticks w) + (nat (int ?n) - 1) + r * ?n"
      unfolding due_at_def turn using c T(1) r by simp
    moreover have "due_at w e = ticks w + (?n + r * ?n)"
      unfolding same [OF c] using r by (simp only: nat_int mult_Suc)
    ultimately show ?thesis
      by linarith
  qed
qed

lemma after_now_visit:
  assumes core: "wheel_core w ls" and e: "wheel_heap w q = Some e"
    and turn: "slotsNum w' = slotsNum w" "currentSlotPos w' = (currentSlotPos w + 1) mod int (slot_count w)"
      "ticks w' = Suc (ticks w)"
  shows "map_option (entry w') (if timerSlot e = currentSlotPos w then visit (holds w q) else holds w q) = after_now (agenda w) q"
proof -
  note D = wheel_coreD [OF core]
  let ?e = "content e"
  have f: "0 \<le> rotation ?e" "0 \<le> timerSlot ?e" "timerSlot ?e < int (slot_count w)" "timerSlot ?e = timerSlot e"
    using D(6) [OF e] chainsD(5) [OF D(5) e] by (simp_all add: content_def)
  note T = due_turn [OF core f(1-3) turn]
  have a: "after_now (agenda w) q = (if due_at w ?e = ticks w then None else Some (entry w ?e))"
    by (simp add: after_now_def pending_holds e) (simp add: agenda_def entry_def)
  show ?thesis
  proof (cases "timerSlot e = currentSlotPos w")
    case True
    have n: "0 < slot_count w"
      by (rule D(1))
    show ?thesis
    proof (cases "0 < rotation ?e")
      case True
      then have "due_at w ?e \<noteq> ticks w"
        using T(2) f(4) \<open>timerSlot e = currentSlotPos w\<close> n by simp
      moreover have "entry w' (?e\<lparr>rotation := rotation ?e - 1\<rparr>) = entry w ?e"
        using T(3) f(4) True \<open>timerSlot e = currentSlotPos w\<close> by (simp add: entry_def)
      ultimately show ?thesis
        using a True \<open>timerSlot e = currentSlotPos w\<close> e by (simp add: visit_def)
    next
      case False
      then have "due_at w ?e = ticks w"
        using T(2) f(1,4) \<open>timerSlot e = currentSlotPos w\<close> by simp
      then show ?thesis
        using a False \<open>timerSlot e = currentSlotPos w\<close> e by (simp add: visit_def)
    qed
  next
    case False
    then show ?thesis
      using T(1) f(4) a e by (simp add: entry_def)
  qed
qed

lemma tickUnlock_ok:
  assumes core: "wheel_core w ls" and behave: "quiet behave"
  obtains w' ls' where "tickUnlock alloc behave w = Some (Inr w')" "wheel_core w' ls'" "mutex w' = mutex w"
    "slotsNum w' = slotsNum w" "agenda_step Tick (agenda w) (agenda w')"
proof -
  note D = wheel_coreD [OF core]
  let ?i = "nat (currentSlotPos w)"
  have n: "?i < slot_count w" "currentSlotPos w = int ?i"
    using D(3,4) by (simp_all only: nat_less_iff nat_0_le)
  have "?i < length (slots w)"
    using n(1) chainsD(1) [OF D(5)] by simp
  then have start: "slot_at (currentSlotPos w) w = Inr (if ls ?i = [] then 0 else hd (ls ?i))"
    using dseg_start [OF chainsD(2) [OF D(5) n(1)]] by (subst n(2), subst slot_at_nat) simp_all
  obtain w1 ls' fs where w1: "tick_loop alloc behave (if ls ?i = [] then 0 else hd (ls ?i)) w = Some (Inr w1)"
    "wheel_core w1 ls'" "same_frame w w1"
    "\<forall>q. holds w1 q = (if q \<in> set (ls ?i) then visit (holds w q) else holds w q)"
    "fired w1 = fired w @ map (Pair (ticks w)) fs"
    "served (tie_at w) (filter (ready w) (ls ?i)) (set (alive w)) fs (set (alive w1))"
    using tick_loop_ok [OF core behave, of "[]" "ls ?i" alloc] by auto
  let ?w = "w1\<lparr>currentSlotPos := sint (word_of_int (currentSlotPos w1 + 1) mod slotsNum w1), ticks := ticks w1 + 1\<rparr>"
  have turn: "slotsNum ?w = slotsNum w" "currentSlotPos ?w = (currentSlotPos w + 1) mod int (slot_count w)"
    "ticks ?w = Suc (ticks w)"
    using w1(3) next_pos [OF D(1-4)] by (simp_all add: same_frame_def)
  have nz: "slotsNum w1 \<noteq> 0"
    using D(1) w1(3) by (auto simp: same_frame_def)
  have eq: "tickUnlock alloc behave w = Some (Inr ?w)"
    using start w1(1) nz by (simp add: tickUnlock_def)
  have core': "wheel_core ?w ls'"
  proof -
    have range: "0 \<le> currentSlotPos ?w \<and> currentSlotPos ?w < int (slot_count w)"
      unfolding turn(2) by (intro conjI pos_mod_sign pos_mod_bound) (simp_all only: of_nat_0_less_iff D(1))
    have f: "slots ?w = slots w1" "wheel_heap ?w = wheel_heap w1"
      by simp_all
    show ?thesis
      using w1(2) range turn(1) unfolding wheel_core_def f by (simp only:) (simp add: same_frame_def)
  qed
  have slot: "q \<in> set (ls ?i) \<longleftrightarrow> (\<exists>e. wheel_heap w q = Some e \<and> timerSlot e = currentSlotPos w)" for q
    using chainsD(4) [OF D(5) n(1)] n(2) by (auto simp: in_slot_def)
  have "pending (agenda ?w) q = after_now (agenda w) q" for q
  proof (cases "wheel_heap w q")
    case None
    then have "holds w1 q = None"
      using w1(4) slot by simp
    then show ?thesis
      using None by (simp add: after_now_def pending_holds)
  next
    case (Some e)
    have "holds w1 q = (if timerSlot e = currentSlotPos w then visit (holds w q) else holds w q)"
      using w1(4) slot Some by simp
    then show ?thesis
      using after_now_visit [OF core Some turn] by (simp add: pending_holds)
  qed
  then have "agenda ?w = \<lparr>now = Suc (now (agenda w)), pending = after_now (agenda w), living = set (alive w1),
      made = made (agenda w) @ map (Pair (now (agenda w))) fs\<rparr>"
    using turn(3) w1(5) by (simp add: agenda_def fun_eq_iff)
  moreover have due: "q \<in> set (filter (ready w) (ls ?i)) \<longleftrightarrow> (\<exists>cb obj. pending (agenda w) q = Some (now (agenda w), Some cb, obj))" for q
  proof
    assume q: "q \<in> set (filter (ready w) (ls ?i))"
    obtain e where e: "wheel_heap w q = Some e" "timerSlot e = currentSlotPos w" "ready w q"
      using q slot [of q] by auto
    then show "\<exists>cb obj. pending (agenda w) q = Some (now (agenda w), Some cb, obj)"
      using ready_Some [OF e(1)] by (auto simp: agenda_def entry_def due_at_def)
  next
    assume "\<exists>cb obj. pending (agenda w) q = Some (now (agenda w), Some cb, obj)"
    then obtain e cb where e: "wheel_heap w q = Some e" "due_at w e = ticks w" "ev_callback e = Some cb"
      by (auto simp: agenda_def entry_def)
    note f = D(6) [OF e(1)] chainsD(5) [OF D(5) e(1)]
    have "timerSlot e = currentSlotPos w"
      using due_turn(1) [OF core _ _ _ turn, of e] f e(2) by auto
    moreover have "rotation e = 0"
      using due_turn(2) [OF core _ _ _ turn, of e] f e(2) D(1) calculation by simp
    ultimately show "q \<in> set (filter (ready w) (ls ?i))"
      using slot [of q] e ready_Some [OF e(1)] by auto
  qed
  moreover have "distinct (filter (ready w) (ls ?i))"
    using chainsD(3) [OF D(5) n(1)] by simp
  moreover have "served (object_of (agenda w)) (filter (ready w) (ls ?i)) (living (agenda w)) fs (set (alive w1))"
  proof -
    have "object_of (agenda w) q = tie_at w q" if "q \<in> set (filter (ready w) (ls ?i))" for q
      using that slot [of q] tie_at_Some by (auto simp: object_of_def agenda_def entry_def)
    then show ?thesis
      using served_cong [OF w1(6)] by (simp add: agenda_def)
  qed
  ultimately have "agenda_step Tick (agenda w) (agenda ?w)"
    using agenda_step.tick [of "filter (ready w) (ls ?i)" "agenda w" fs "set (alive w1)"] by presburger
  then show ?thesis
    using that eq core' w1(3) turn(1) by (simp add: same_frame_def)
qed

section \<open>Runs\<close>

lemma wheel_okD:
  assumes "wheel_ok w"
  obtains ls where "wheel_core w ls" "mutex w = None \<or> mutex w = Some False"
  using assms unfolding wheel_ok_def by (cases "mutex w") auto

lemma call_refines:
  assumes ok: "wheel_ok w" and alloc: "alloc_ok alloc" and l: "legal (Call c) w"
  shows "run_call alloc c w = Inl BadAlloc \<or>
    (\<exists>w'. run_call alloc c w = Inr w' \<and> wheel_ok w' \<and> agenda_step (Call c) (agenda w) (agenda w'))"
proof -
  obtain ls where core: "wheel_core w ls" and m: "mutex w = None \<or> mutex w = Some False"
    by (rule wheel_okD [OF ok])
  let ?w = "if mutex w = None then w else w\<lparr>mutex := Some True\<rparr>"
  have core': "wheel_core ?w ls" "agenda ?w = agenda w" "ticks ?w = ticks w" "wheel_heap ?w = wheel_heap w"
    "slotsNum ?w = slotsNum w"
    using core by simp_all
  have lock: "locked f w = (case f ?w of Inl e \<Rightarrow> Inl e
      | Inr (x, v) \<Rightarrow> Inr (x, if mutex w = None then v else v\<lparr>mutex := Some False\<rparr>))" for f :: "TimerWheel \<Rightarrow> ('a \<times> TimerWheel) result"
    using m by (auto simp: locked_def split: sum.split)
  have unlock: "wheel_ok (if mutex w = None then v else v\<lparr>mutex := Some False\<rparr>)"
    "agenda (if mutex w = None then v else v\<lparr>mutex := Some False\<rparr>) = agenda v"
    if "wheel_core v ls'" "mutex v = mutex ?w" for v ls'
    using that by (auto simp: wheel_ok_def)
  show ?thesis
  proof (cases c)
    case (Add t obj cb)
    then have "unat t div slot_count ?w < 2 ^ 31"
      using l core'(5) by simp
    from addTimerUnlock_ok [OF core'(1) alloc this, of obj cb]
    show ?thesis
    proof
      assume "addTimerUnlock alloc t obj cb ?w = Inl BadAlloc"
      then show ?thesis
        using Add by (simp add: TimerWheel_addTimer_def lock)
    next
      assume "\<exists>i v ls'. addTimerUnlock alloc t obj cb ?w = Inr (i, v) \<and> wheel_core v ls' \<and> mutex v = mutex ?w
       \<and> wheel_heap ?w (cid_timer i) = None \<and> cid_timer i \<noteq> 0
       \<and> agenda v = agenda ?w\<lparr>pending := (pending (agenda ?w))(cid_timer i \<mapsto> (ticks ?w + max 1 (unat t), cb, obj))\<rparr>"
      then obtain i v ls' where v: "addTimerUnlock alloc t obj cb ?w = Inr (i, v)" "wheel_core v ls'" "mutex v = mutex ?w"
        "wheel_heap w (cid_timer i) = None" "cid_timer i \<noteq> 0"
        "agenda v = agenda w\<lparr>pending := (pending (agenda w))(cid_timer i \<mapsto> (ticks w + max 1 (unat t), cb, obj))\<rparr>"
        unfolding core'(2-4) by blast
      have "agenda_step (Call c) (agenda w) (agenda v)"
        unfolding Add v(6) using agenda_step.add [of "agenda w" "cid_timer i" t obj cb] v(4,5) by (simp add: agenda_def)
      then show ?thesis
        using Add v(1) unlock [OF v(2,3)] by (simp add: TimerWheel_addTimer_def lock)
    qed
  next
    case (Cencel i)
    have "\<exists>v ls'. cencelUnlock i ?w = Inr v \<and> wheel_core v ls' \<and> mutex v = mutex ?w
      \<and> agenda v = agenda w\<lparr>pending := (pending (agenda w))(cid_timer i := None)\<rparr>"
    proof (cases "cid_timer i = 0")
      case True
      have "(pending (agenda w))(cid_timer i := None) = pending (agenda w)"
        using chains_null [OF wheel_coreD(5) [OF core]] True by (simp add: agenda_def fun_eq_iff)
      then show ?thesis
        using True core'(1,2) by (auto simp: cencelUnlock_def)
    next
      case False
      then obtain e where "wheel_heap ?w (cid_timer i) = Some e"
        using l Cencel core'(4) by auto
      then show ?thesis
        using cencelUnlock_ok [OF core'(1), of i e] core'(2) by metis
    qed
    then obtain v ls' where v: "cencelUnlock i ?w = Inr v" "wheel_core v ls'" "mutex v = mutex ?w"
      "agenda v = agenda w\<lparr>pending := (pending (agenda w))(cid_timer i := None)\<rparr>"
      by blast
    have "agenda_step (Call c) (agenda w) (agenda v)"
      unfolding Cencel v(4) by (rule agenda_step.cancel)
    then show ?thesis
      using Cencel v(1) unlock [OF v(2,3)] by (simp add: TimerWheel_cencel_def lock)
  next
    case (Release ob)
    moreover have "wheel_ok (w\<lparr>alive := removeAll ob (alive w)\<rparr>)"
      using core m by (auto simp: wheel_ok_def intro!: exI [of _ ls])
    ultimately show ?thesis
      using agenda_step.release [of ob "agenda w"] by (simp add: agenda_def)
  qed
qed

lemma tick_refines:
  assumes ok: "wheel_ok w" and behave: "quiet behave"
  obtains w' where "TimerWheel_tick alloc behave w = Some (Inr w')" "wheel_ok w'" "agenda_step Tick (agenda w) (agenda w')"
proof -
  obtain ls where core: "wheel_core w ls" and m: "mutex w = None \<or> mutex w = Some False"
    by (rule wheel_okD [OF ok])
  from m show ?thesis
  proof
    assume "mutex w = None"
    moreover obtain v ls' where "tickUnlock alloc behave w = Some (Inr v)" "wheel_core v ls'" "mutex v = mutex w"
      "agenda_step Tick (agenda w) (agenda v)"
      by (rule tickUnlock_ok [OF core behave, of alloc]) (rule that)
    ultimately show ?thesis
      using that [of v] by (auto simp: TimerWheel_tick_def wheel_ok_def)
  next
    assume m: "mutex w = Some False"
    let ?w = "w\<lparr>mutex := Some True\<rparr>"
    have "wheel_core ?w ls"
      using core by simp
    then obtain v ls' where v: "tickUnlock alloc behave ?w = Some (Inr v)" "wheel_core v ls'"
      "agenda_step Tick (agenda ?w) (agenda v)"
      using tickUnlock_ok [OF _ behave] by metis
    then show ?thesis
      using that [of "v\<lparr>mutex := Some False\<rparr>"] m by (auto simp: TimerWheel_tick_def wheel_ok_def)
  qed
qed

lemma steps_refine:
  assumes "wheel_ok w" "alloc_ok alloc" "quiet behave" "legal_steps alloc behave ss w"
  shows "wheel_steps alloc behave ss w = Some (Inl BadAlloc) \<or>
    (\<exists>w'. wheel_steps alloc behave ss w = Some (Inr w') \<and> wheel_ok w' \<and> agenda_steps ss (agenda w) (agenda w'))"
  using assms(1,4)
proof (induction ss arbitrary: w)
  case Nil
  then show ?case
    by (simp add: agenda_steps.none)
next
  case (Cons s ss)
  have step: "wheel_step alloc behave s w = Some (Inl BadAlloc) \<or>
    (\<exists>w'. wheel_step alloc behave s w = Some (Inr w') \<and> wheel_ok w' \<and> agenda_step s (agenda w) (agenda w'))"
  proof (cases s)
    case (Call c)
    then show ?thesis
      using call_refines [OF Cons.prems(1) assms(2), of c] Cons.prems(2) by simp
  next
    case Tick
    then show ?thesis
      using tick_refines [OF Cons.prems(1) assms(3), of alloc] by auto
  qed
  then show ?case
  proof
    assume "\<exists>w'. wheel_step alloc behave s w = Some (Inr w') \<and> wheel_ok w' \<and> agenda_step s (agenda w) (agenda w')"
    then obtain v where v: "wheel_step alloc behave s w = Some (Inr v)" "wheel_ok v" "agenda_step s (agenda w) (agenda v)"
      by blast
    then show ?thesis
      using Cons.IH [of v] Cons.prems(2) by (auto intro: agenda_steps.more_steps)
  qed simp
qed

lemma new_wheel_ok:
  assumes "0 < unat n" "unat n < 2 ^ 31" "0 \<le> pos0" "pos0 < int (unat n)"
  shows "wheel_ok (TimerWheel_new pos0 n b objs)"
proof -
  have f: "slotsNum (TimerWheel_new pos0 n b objs) = n" "currentSlotPos (TimerWheel_new pos0 n b objs) = pos0"
    "slots (TimerWheel_new pos0 n b objs) = replicate (unat n) 0" "wheel_heap (TimerWheel_new pos0 n b objs) = (\<lambda>_. None)"
    by (simp_all add: TimerWheel_new_def)
  have "wheel_core (TimerWheel_new pos0 n b objs) (\<lambda>_. [])"
    unfolding wheel_core_def f by (intro conjI assms chains_empty) simp
  then show ?thesis
    by (auto simp: wheel_ok_def TimerWheel_new_def)
qed

section \<open>The destructor\<close>

lemma delete_chain_ok:
  assumes "dseg h a p xs 0" "distinct xs"
  shows "delete_chain p h = Some (Inr (\<lambda>q. if q \<in> set xs then None else h q))"
  using assms
proof (induction xs arbitrary: a p h)
  case Nil
  then show ?case
    by (subst delete_chain.simps) simp
next
  case (Cons x xs)
  then obtain e where e: "p = x" "x \<noteq> 0" "h x = Some e" "dseg h x (pNext e) xs 0"
    by auto
  have "dseg (h(x := None)) x (pNext e) xs 0"
    by (rule dseg_frame [OF e(4)]) (use Cons.prems(2) in auto)
  then have "delete_chain (pNext e) (h(x := None)) = Some (Inr (\<lambda>q. if q \<in> set xs then None else (h(x := None)) q))"
    using Cons.IH Cons.prems(2) by simp
  then have "delete_chain p h = Some (Inr (\<lambda>q. if q \<in> set xs then None else (h(x := None)) q))"
    by (subst delete_chain.simps) (use e in \<open>simp del: fun_upd_apply\<close>)
  moreover have "(\<lambda>q. if q \<in> set xs then None else (h(x := None)) q) = (\<lambda>q. if q \<in> set (x # xs) then None else h q)"
    by auto
  ultimately show ?case
    by simp
qed

lemma delete_slots_ok:
  assumes "\<And>i. i < length ps \<Longrightarrow> dseg h 0 (ps ! i) (f i) 0 \<and> distinct (f i)"
    and "\<And>i j. i < length ps \<Longrightarrow> j < length ps \<Longrightarrow> i \<noteq> j \<Longrightarrow> set (f i) \<inter> set (f j) = {}"
  shows "delete_slots ps h = Some (Inr (\<lambda>q. if \<exists>i < length ps. q \<in> set (f i) then None else h q))"
  using assms
proof (induction ps arbitrary: f h)
  case Nil
  then show ?case
    by simp
next
  case (Cons p ps)
  let ?h = "\<lambda>q. if q \<in> set (f 0) then None else h q"
  have one: "delete_chain p h = Some (Inr ?h)"
    using delete_chain_ok [of h 0 p "f 0"] Cons.prems(1) [of 0] by simp
  have "dseg ?h 0 (ps ! i) (f (Suc i)) 0 \<and> distinct (f (Suc i))" if i: "i < length ps" for i
  proof -
    have d: "dseg h 0 (ps ! i) (f (Suc i)) 0" "distinct (f (Suc i))" "set (f 0) \<inter> set (f (Suc i)) = {}"
      using Cons.prems(1) [of "Suc i"] Cons.prems(2) [of 0 "Suc i"] i by simp_all
    have "dseg ?h 0 (ps ! i) (f (Suc i)) 0"
      by (rule dseg_frame [OF d(1)]) (use d(3) in auto)
    then show ?thesis
      using d(2) by simp
  qed
  then have "delete_slots ps ?h = Some (Inr (\<lambda>q. if \<exists>i < length ps. q \<in> set (f (Suc i)) then None else ?h q))"
    using Cons.IH [of ?h "\<lambda>i. f (Suc i)"] Cons.prems(2) by simp
  moreover have "(\<lambda>q. if \<exists>i < length ps. q \<in> set (f (Suc i)) then None else ?h q)
      = (\<lambda>q. if \<exists>i < length (p # ps). q \<in> set (f i) then None else h q)"
    by (auto simp: fun_eq_iff less_Suc_eq_0_disj)
  ultimately show ?case
    using one by simp
qed

lemma destructor_ok:
  assumes "wheel_ok w"
  shows "TimerWheel_destructor w = Some (Inr (\<lambda>_. None))"
proof -
  obtain ls where core: "wheel_core w ls"
    using assms by (auto simp: wheel_ok_def)
  note c = wheel_coreD(5) [OF core]
  note D = chainsD [OF c]
  have "set (ls i) \<inter> set (ls j) = {}" if "i < slot_count w" "j < slot_count w" "i \<noteq> j" for i j
    using D(4) that in_slot_disjoint [OF that(3)] by simp
  then have "TimerWheel_destructor w
      = Some (Inr (\<lambda>q. if \<exists>i < length (slots w). q \<in> set (ls i) then None else wheel_heap w q))"
    unfolding TimerWheel_destructor_def using D(1-3) by (intro delete_slots_ok) auto
  moreover have "(if \<exists>i < length (slots w). q \<in> set (ls i) then None else wheel_heap w q) = None" for q
    using chains_node(1,2) [OF c, of q] D(1) by (cases "wheel_heap w q") auto
  ultimately show ?thesis
    by simp
qed

section \<open>Properties of the wheel\<close>

lemma agenda_fires:
  assumes "agenda_steps ss a b" "pending a p = Some (d, Some cb, 0)" "now a \<le> d" "\<forall>i. Call (Cencel i) \<in> set ss \<longrightarrow> cid_timer i \<noteq> p"
  shows "\<exists>es. made b = made a @ es \<and>
    (if now b \<le> d then pending b p = Some (d, Some cb, 0) \<and> p \<notin> snd ` set es
     else find (\<lambda>x. snd x = p) es = Some (d, p))"
  using assms
proof (induction rule: agenda_steps.induct)
  case (none a)
  then show ?case
    by simp
next
  case (more_steps s a b ss c)
  have mono: "\<exists>es. made c' = made b' @ es" if "agenda_steps ss' b' c'" for ss' b' c'
    using that by induction (auto elim: agenda_step.cases)
  have step: "pending b p = Some (d, Some cb, 0) \<and> now b \<le> d \<and> (\<exists>es. made b = made a @ es \<and> p \<notin> snd ` set es)
    \<or> d < now b \<and> (\<exists>es. made b = made a @ es \<and> find (\<lambda>x. snd x = p) es = Some (d, p))"
    using more_steps.hyps(1)
  proof cases
    case (cancel i)
    then have "p \<noteq> cid_timer i"
      using more_steps.prems(3) by auto
    then show ?thesis
      using cancel more_steps.prems by simp
  next
    case (tick ps fs L)
    have sub: "set fs \<subseteq> set ps" "q \<in> set ps \<Longrightarrow> object_of a q = 0 \<Longrightarrow> q \<in> set fs" for q
      using served_set [OF tick(5)] by auto
    have f: "find (\<lambda>x. snd x = p) (map (Pair (now a)) fs) = (if p \<in> set fs then Some (now a, p) else None)"
      by (induction fs) auto
    show ?thesis
    proof (cases "d = now a")
      case True
      then have "p \<in> set fs"
        using tick(4) [of p] sub(2) [of p] more_steps.prems(1) by (simp add: object_of_def)
      then show ?thesis
        using tick(2) f True by simp
    next
      case False
      then have "p \<notin> set fs"
        using tick(4) [of p] sub(1) more_steps.prems(1) by auto
      then show ?thesis
        using tick(2) more_steps.prems(1,2) False by (auto simp: after_now_def)
    qed
  qed (use more_steps.prems in auto)
  from step show ?case
  proof
    assume l: "pending b p = Some (d, Some cb, 0) \<and> now b \<le> d \<and> (\<exists>es. made b = made a @ es \<and> p \<notin> snd ` set es)"
    then obtain es where es: "made b = made a @ es" "p \<notin> snd ` set es"
      by blast
    have none: "find (\<lambda>x. snd x = p) es = None"
      using es(2) by (force simp: find_None_iff)
    have app: "find (\<lambda>x. snd x = p) (es @ es') = find (\<lambda>x. snd x = p) es'" for es'
      using none by (induction es) (auto split: if_splits)
    obtain es' where "made c = made b @ es'"
      "if now c \<le> d then pending c p = Some (d, Some cb, 0) \<and> p \<notin> snd ` set es' else find (\<lambda>x. snd x = p) es' = Some (d, p)"
      using more_steps.IH l more_steps.prems(3) by auto
    then show ?thesis
      using es app by (intro exI [of _ "es @ es'"]) (auto split: if_splits)
  next
    assume r: "d < now b \<and> (\<exists>es. made b = made a @ es \<and> find (\<lambda>x. snd x = p) es = Some (d, p))"
    then obtain es where es: "made b = made a @ es" "find (\<lambda>x. snd x = p) es = Some (d, p)"
      by blast
    obtain es' where "made c = made b @ es'"
      using mono [OF more_steps.hyps(2)] by blast
    moreover have "now b \<le> now c"
      using more_steps.hyps(2) by induction (auto elim!: agenda_step.cases)
    moreover have "find (\<lambda>x. snd x = p) (es @ es') = Some (d, p)"
      using es(2) by (induction es) (auto split: if_splits)
    ultimately show ?thesis
      using es(1) r by (intro exI [of _ "es @ es'"]) auto
  qed
qed

lemma agenda_ticks_out:
  assumes "agenda_steps (replicate k Tick) a b" "pending a p = None \<or> (\<exists>x. pending a p = Some x \<and> fst x < now a + k)"
    and "\<And>x. pending a p = Some x \<Longrightarrow> now a \<le> fst x"
  shows "pending b p = None"
  using assms
proof (induction k arbitrary: a)
  case 0
  then show ?case
    by (auto elim: agenda_steps_Nil)
next
  case (Suc k)
  from Suc.prems(1) obtain c where c: "agenda_step Tick a c" "agenda_steps (replicate k Tick) c b"
    by (auto elim: agenda_steps_Cons)
  from c(1) have n: "now c = Suc (now a)" and p: "pending c p = after_now a p"
    by (auto elim!: agenda_tick)
  show ?case
  proof (rule Suc.IH [OF c(2)])
    show "pending c p = None \<or> (\<exists>x. pending c p = Some x \<and> fst x < now c + k)"
      unfolding n p using Suc.prems(2) by (cases "fst (the (pending a p)) = now a") (auto simp: after_now_def)
    show "now c \<le> fst x" if "pending c p = Some x" for x
      using Suc.prems(3) that unfolding n p by (fastforce simp: after_now_def split: option.splits if_splits)
  qed
qed

lemma slot_at_mutex: "slot_at i (w\<lparr>mutex := m\<rparr>) = slot_at i w"
  by (simp add: slot_at_def)

lemma reachable_wheel_ok:
  assumes "0 < unat n" "unat n < 2 ^ 31" "0 \<le> pos0" "pos0 < int (unat n)" "alloc_ok alloc" "quiet behave"
    and "legal_steps alloc behave ss (TimerWheel_new pos0 n b objs)"
    and "wheel_steps alloc behave ss (TimerWheel_new pos0 n b objs) = Some (Inr w)"
  shows "wheel_ok w"
  using steps_refine [OF new_wheel_ok [OF assms(1-4)] assms(5-7)] assms(8) by auto

lemma add_entry:
  assumes ok: "wheel_ok w" and alloc: "alloc_ok alloc" and l: "legal (Call (Add t obj cb)) w"
    and add: "TimerWheel_addTimer alloc t obj cb w = Inr (i, w1)"
  shows "wheel_ok w1" "pending (agenda w1) (cid_timer i) = Some (ticks w + max 1 (unat t), cb, obj)" "ticks w1 = ticks w"
    "cid_timer i \<noteq> 0"
proof -
  obtain ls where core: "wheel_core w ls" and m: "mutex w = None \<or> mutex w = Some False"
    by (rule wheel_okD [OF ok])
  let ?w = "if mutex w = None then w else w\<lparr>mutex := Some True\<rparr>"
  have same: "agenda ?w = agenda w" "ticks ?w = ticks w"
    by simp_all
  obtain v where v: "addTimerUnlock alloc t obj cb ?w = Inr (i, v)"
    "w1 = (if mutex w = None then v else v\<lparr>mutex := Some False\<rparr>)"
    using add m by (auto simp: TimerWheel_addTimer_def locked_def rbind_eq_Inr)
  have "wheel_core ?w ls" "unat t div slot_count ?w < 2 ^ 31"
    using core l by simp_all
  then obtain ls' where v': "wheel_core v ls'" "mutex v = mutex ?w" "cid_timer i \<noteq> 0"
    "agenda v = agenda ?w\<lparr>pending := (pending (agenda ?w))(cid_timer i \<mapsto> (ticks ?w + max 1 (unat t), cb, obj))\<rparr>"
    using addTimerUnlock_ok [OF _ alloc, of ?w ls t obj cb] v(1) by auto
  have a: "agenda w1 = agenda v"
    using v(2) by simp
  show "wheel_ok w1"
    using v(2) v'(1,2) by (auto simp: wheel_ok_def)
  show "pending (agenda w1) (cid_timer i) = Some (ticks w + max 1 (unat t), cb, obj)"
    unfolding a v'(4) same by simp
  have "now (agenda w1) = now (agenda w)"
    unfolding a v'(4) same by simp
  then show "ticks w1 = ticks w"
    by (simp add: agenda_def)
  show "cid_timer i \<noteq> 0"
    by (rule v'(3))
qed

text \<open>C16. A run of the wheel follows the agenda: an addition with timeout \<open>t\<close> enters the timer
  \<open>max 1 t\<close> ticks ahead, a cancellation removes it, and a tick runs exactly the timers with a callback
  entered for it, each once, a timer tied to an object if and only if the object lives when its turn comes.
  This is for \<open>0 < n < 2^31\<close> slots; a first \<open>currentSlotPos_\<close> inside them (no constructor sets it);
  timeouts that fit an \<open>int\<close> number of turns; cancellations of pending timers only; and callbacks that may
  drop objects but neither add nor cancel a timer (on a wheel with a mutex those block).\<close>

theorem TimerWheel_refines_agenda:
  assumes "0 < unat n" "unat n < 2 ^ 31" "0 \<le> pos0" "pos0 < int (unat n)" "alloc_ok alloc" "quiet behave"
    and "legal_steps alloc behave ss (TimerWheel_new pos0 n b objs)"
    and "wheel_steps alloc behave ss (TimerWheel_new pos0 n b objs) = Some (Inr w)"
  shows "agenda_steps ss \<lparr>now = 0, pending = (\<lambda>_. None), living = set objs, made = []\<rparr> (agenda w)"
proof -
  have "agenda (TimerWheel_new pos0 n b objs) = \<lparr>now = 0, pending = (\<lambda>_. None), living = set objs, made = []\<rparr>"
    by (simp add: agenda_def TimerWheel_new_def)
  then show ?thesis
    using steps_refine [OF new_wheel_ok [OF assms(1-4)] assms(5-7)] assms(8) by auto
qed

text \<open>C17. Under the conditions of the agenda (\<open>0 < n < 2^31\<close> slots, with \<open>slots_\<close> taken as an array of \<open>n\<close>, the first \<open>currentSlotPos_\<close> inside
  them, timeouts that fit an \<open>int\<close> number of turns, cancellations of pending timers only, callbacks that
  neither add nor cancel) a run uses no deleted node, stays inside the slots and does not block; its loops
  end; it can fail only for want of memory; and the destructor afterwards deletes every node once.\<close>

theorem TimerWheel_never_faults:
  assumes "0 < unat n" "unat n < 2 ^ 31" "0 \<le> pos0" "pos0 < int (unat n)" "alloc_ok alloc" "quiet behave"
    and "legal_steps alloc behave ss (TimerWheel_new pos0 n b objs)"
  shows "case wheel_steps alloc behave ss (TimerWheel_new pos0 n b objs) of
      None \<Rightarrow> False
    | Some (Inl e) \<Rightarrow> e = BadAlloc
    | Some (Inr w) \<Rightarrow> TimerWheel_destructor w = Some (Inr (\<lambda>_. None))"
  using steps_refine [OF new_wheel_ok [OF assms(1-4)] assms(5-7)] destructor_ok by (auto split: option.split sum.split)

text \<open>C18. Under the same conditions a timer with a callback that is tied to no object and is not cancelled
  fires at the tick with number \<open>max 1 t\<close> after the next one, and not before, whatever additions,
  cancellations and ticks, and whichever other timers with callbacks that neither add nor cancel, come in
  between.\<close>

theorem TimerWheel_fires_exactly:
  assumes "0 < unat n" "unat n < 2 ^ 31" "0 \<le> pos0" "pos0 < int (unat n)" "alloc_ok alloc" "quiet behave"
    and "legal_steps alloc behave ss (TimerWheel_new pos0 n b objs)"
    and "wheel_steps alloc behave ss (TimerWheel_new pos0 n b objs) = Some (Inr w)"
    and "legal (Call (Add t 0 (Some cb))) w" "TimerWheel_addTimer alloc t 0 (Some cb) w = Inr (i, w1)"
    and "legal_steps alloc behave ss' w1" "wheel_steps alloc behave ss' w1 = Some (Inr w2)"
    and "\<forall>j. Call (Cencel j) \<in> set ss' \<longrightarrow> cid_timer j \<noteq> cid_timer i"
  shows "\<exists>es. fired w2 = fired w1 @ es \<and>
    (if ticks w2 \<le> ticks w + max 1 (unat t) then cid_timer i \<notin> snd ` set es
     else find (\<lambda>x. snd x = cid_timer i) es = Some (ticks w + max 1 (unat t), cid_timer i))"
proof -
  have ok: "wheel_ok w"
    by (rule reachable_wheel_ok [OF assms(1-8)])
  note add = add_entry [OF ok assms(5,9,10)]
  have "agenda_steps ss' (agenda w1) (agenda w2)"
    using steps_refine [OF add(1) assms(5,6,11)] assms(12) by auto
  then show ?thesis
    using agenda_fires [OF _ add(2) _ assms(13)] add(3) by (fastforce simp: agenda_def split: if_splits)
qed

text \<open>A \<open>CancelId\<close> is of no use once its timer has fired: \<open>cencel\<close> then reads the deleted
  node.\<close>

lemma TimerWheel_cancel_after_fire:
  assumes "0 < unat n" "unat n < 2 ^ 31" "0 \<le> pos0" "pos0 < int (unat n)" "alloc_ok alloc" "quiet behave"
    and "legal_steps alloc behave ss (TimerWheel_new pos0 n b objs)"
    and "wheel_steps alloc behave ss (TimerWheel_new pos0 n b objs) = Some (Inr w)"
    and "legal (Call (Add t obj cb)) w" "TimerWheel_addTimer alloc t obj cb w = Inr (i, w1)"
    and "wheel_steps alloc behave (replicate (Suc (max 1 (unat t))) Tick) w1 = Some (Inr w2)"
  shows "TimerWheel_cencel i w2 = Inl UseAfterFree"
proof -
  have ok: "wheel_ok w"
    by (rule reachable_wheel_ok [OF assms(1-8)])
  note add = add_entry [OF ok assms(5,9,10)]
  have l: "legal_steps alloc behave (replicate k Tick) v" for k v
    by (induction k arbitrary: v) (auto split: option.split sum.split)
  have r: "agenda_steps (replicate (Suc (max 1 (unat t))) Tick) (agenda w1) (agenda w2)" "wheel_ok w2"
    using steps_refine [OF add(1) assms(5,6) l [of "Suc (max 1 (unat t))"]] unfolding assms(11) by simp_all
  have "pending (agenda w2) (cid_timer i) = None"
    by (rule agenda_ticks_out [OF r(1)]) (use add(2,3) in \<open>auto simp: agenda_def\<close>)
  then have "wheel_heap w2 (cid_timer i) = None"
    by (simp add: agenda_def)
  then have "cencelUnlock i v = Inl UseAfterFree" if "wheel_heap v = wheel_heap w2" for v
    using that add(4) by (simp add: cencelUnlock_def deref_def Let_def)
  then show ?thesis
    using r(2) by (auto simp: TimerWheel_cencel_def locked_def wheel_ok_def split: option.split bool.split)
qed

text \<open>On a wheel with a mutex, the default, a callback that adds or cancels a timer blocks
  for ever: \<open>tick\<close> holds the mutex while it runs the callbacks.\<close>

lemma TimerWheel_reentry_deadlocks:
  assumes "mutex w = Some False" "slot_at (currentSlotPos w) w = Inr p" "p \<noteq> 0" "wheel_heap w p = Some e"
    and "rotation e = 0" "ev_callback e = Some cb" "\<not> tied e"
    and "\<And>v. \<exists>c cs. behave cb v = c # cs \<and> c \<notin> range Release"
  shows "TimerWheel_tick alloc behave w = Some (Inl Deadlock)"
proof -
  have run: "run_calls alloc (behave cb v) v = Inl Deadlock" if "mutex v = Some True" for v
  proof -
    obtain c cs where "behave cb v = c # cs" "c \<notin> range Release"
      using assms(8) by blast
    then show ?thesis
      using that by (cases c) (auto simp: TimerWheel_addTimer_def TimerWheel_cencel_def locked_def)
  qed
  then have "tick_event alloc behave p (w\<lparr>mutex := Some True\<rparr>) = Inl Deadlock"
    using assms(4-7) by (simp add: tick_event_def TimerEvent_run_def Let_def)
  then have "tick_loop alloc behave p (w\<lparr>mutex := Some True\<rparr>) = Some (Inl Deadlock)"
    using assms(3) by (subst tick_loop.simps) simp
  moreover have "slot_at (currentSlotPos w) (w\<lparr>mutex := Some True\<rparr>) = Inr p"
    using assms(2) slot_at_mutex by simp
  ultimately show ?thesis
    using assms(1) by (simp add: TimerWheel_tick_def tickUnlock_def)
qed

text \<open>A wheel of four slots, with timers for 2 and 5 ticks and one that is cancelled.\<close>

definition demo_inputs :: "wheel_input list" where
  "demo_inputs = [Call (Add 2 0 (Some 7)), Call (Add 5 9 (Some 8)), Call (Add 2 0 (Some 6)), Tick,
     Call (Cencel \<lparr>cid_sequence = 3, cid_timer = 3\<rparr>), Tick, Tick]"

abbreviation idle :: behaviour where
  "idle \<equiv> \<lambda>_ _. []"

lemma idle_quiet: "quiet idle"
  by (simp add: quiet_def)

lemma demo_size: "0 < unat (4 :: int32)" "unat (4 :: int32) < 2 ^ 31" "(0::int) \<le> 3" "(3::int) < int (unat (4 :: int32))"
  by simp_all

lemma tick_loop_0: "tick_loop alloc behave 0 w = Some (Inr w)"
  by (subst tick_loop.simps) simp

lemma tick_loop_next:
  "p \<noteq> 0 \<Longrightarrow> tick_event alloc behave p w = Inr (p', w') \<Longrightarrow> tick_loop alloc behave p w = tick_loop alloc behave p' w'"
  by (subst tick_loop.simps) simp

lemmas wheel_evals = demo_inputs_def TimerWheel_new_def TimerWheel_addTimer_def locked_def addTimerUnlock_def Let_def
  ts_def heap_new_def first_free_def new_event_def slot_at_def set_slot_def TimerWheel_tick_def tickUnlock_def
  tick_loop_0 tick_loop_next tick_event_def TimerEvent_run_def TimerWheel_cencel_def cencelUnlock_def
  write_next_def write_prev_def

lemma demo_legal: "legal_steps first_free idle demo_inputs (TimerWheel_new 3 4 True [9])"
  by (simp add: wheel_evals)

lemma demo_run:
  "case wheel_steps first_free idle demo_inputs (TimerWheel_new 3 4 True [9]) of None \<Rightarrow> False | Some (Inl e) \<Rightarrow> False
   | Some (Inr w) \<Rightarrow> fired w = [(2, 1)] \<and> ticks w = 3 \<and> wheel_heap w 1 = None \<and> wheel_heap w 2 \<noteq> None
       \<and> wheel_heap w 3 = None \<and> legal (Call (Add 1 0 (Some 5))) w"
  by (simp add: wheel_evals)

lemma TimerWheel_refines_agenda_witness:
  "\<exists>w. wheel_steps first_free idle demo_inputs (TimerWheel_new 3 4 True [9]) = Some (Inr w) \<and> fired w = [(2, 1)]
     \<and> agenda_steps demo_inputs \<lparr>now = 0, pending = (\<lambda>_. None), living = {9}, made = []\<rparr> (agenda w)"
proof -
  obtain w where w: "wheel_steps first_free idle demo_inputs (TimerWheel_new 3 4 True [9]) = Some (Inr w)" "fired w = [(2, 1)]"
    using case_OptInrD [OF demo_run] by blast
  show ?thesis
    using w TimerWheel_refines_agenda [OF demo_size first_free_ok idle_quiet demo_legal w(1)]
    by (intro exI [of _ w] conjI) simp_all
qed

lemma TimerWheel_never_faults_witness:
  "case wheel_steps first_free idle demo_inputs (TimerWheel_new 3 4 True [9]) of
      None \<Rightarrow> False
    | Some (Inl e) \<Rightarrow> e = BadAlloc
    | Some (Inr w) \<Rightarrow> TimerWheel_destructor w = Some (Inr (\<lambda>_. None))"
  by (rule TimerWheel_never_faults [OF demo_size first_free_ok idle_quiet demo_legal])

definition demo_later :: "wheel_input list" where
  "demo_later = [Call (Add 5 0 (Some 8)), Tick, Tick, Tick]"

lemma demo_add:
  "case TimerWheel_addTimer first_free 2 0 (Some 7) (TimerWheel_new 3 4 True [9]) of Inl e \<Rightarrow> False
   | Inr (i, w1) \<Rightarrow> cid_timer i = 1 \<and> fired w1 = [] \<and> legal_steps first_free idle demo_later w1
      \<and> (case wheel_steps first_free idle demo_later w1 of None \<Rightarrow> False | Some (Inl e) \<Rightarrow> False
         | Some (Inr w2) \<Rightarrow> ticks w2 = 3)
      \<and> (case wheel_steps first_free idle [Tick, Tick, Tick] w1 of None \<Rightarrow> False | Some (Inl e) \<Rightarrow> False
         | Some (Inr w2) \<Rightarrow> True)"
  by (simp add: wheel_evals demo_later_def)

lemma demo_start:
  "legal_steps first_free idle [] (TimerWheel_new 3 4 True [9])"
  "wheel_steps first_free idle [] (TimerWheel_new 3 4 True [9]) = Some (Inr (TimerWheel_new 3 4 True [9]))"
  "legal (Call (Add 2 0 (Some 7))) (TimerWheel_new 3 4 True [9])"
  by (simp_all add: TimerWheel_new_def)

lemma TimerWheel_fires_exactly_witness:
  "\<exists>i w1 w2. TimerWheel_addTimer first_free 2 0 (Some 7) (TimerWheel_new 3 4 True [9]) = Inr (i, w1)
     \<and> wheel_steps first_free idle demo_later w1 = Some (Inr w2)
     \<and> find (\<lambda>x. snd x = cid_timer i) (fired w2) = Some (2, cid_timer i)"
proof -
  obtain i w1 w2 where w: "TimerWheel_addTimer first_free 2 0 (Some 7) (TimerWheel_new 3 4 True [9]) = Inr (i, w1)"
    "fired w1 = []" "legal_steps first_free idle demo_later w1" "wheel_steps first_free idle demo_later w1 = Some (Inr w2)"
    "ticks w2 = 3"
    using demo_add by (auto dest!: case_InrD case_OptInrD)
  have "\<forall>j. Call (Cencel j) \<in> set demo_later \<longrightarrow> cid_timer j \<noteq> cid_timer i"
    by (simp add: demo_later_def)
  from TimerWheel_fires_exactly [OF demo_size first_free_ok idle_quiet demo_start w(1,3,4) this]
  show ?thesis
    using w by (auto simp: TimerWheel_new_def)
qed

lemma TimerWheel_cancel_after_fire_witness:
  "\<exists>i w1 w2. TimerWheel_addTimer first_free 2 0 (Some 7) (TimerWheel_new 3 4 True [9]) = Inr (i, w1)
     \<and> wheel_steps first_free idle [Tick, Tick, Tick] w1 = Some (Inr w2) \<and> TimerWheel_cencel i w2 = Inl UseAfterFree"
proof -
  obtain i w1 w2 where w: "TimerWheel_addTimer first_free 2 0 (Some 7) (TimerWheel_new 3 4 True [9]) = Inr (i, w1)"
    "wheel_steps first_free idle [Tick, Tick, Tick] w1 = Some (Inr w2)"
    using demo_add by (auto dest!: case_InrD case_OptInrD)
  moreover have "wheel_steps first_free idle (replicate (Suc (max 1 (unat (2 :: int32)))) Tick) w1 = Some (Inr w2)"
  proof -
    have "Suc (max 1 (unat (2 :: int32))) = 3"
      by simp
    then show ?thesis
      using w(2) by (simp only: numeral_3_eq_3 replicate_Suc replicate_0)
  qed
  ultimately show ?thesis
    using TimerWheel_cancel_after_fire [OF demo_size first_free_ok idle_quiet demo_start] by blast
qed

text \<open>A wheel whose only timer is at hand.\<close>

definition due_wheel :: TimerWheel where
  "due_wheel = \<lparr>slotsNum = 4, currentSlotPos = 0, mutex = Some False, slots = [1, 0, 0, 0],
     wheel_heap = [1 \<mapsto> new_event 0 0 (Some 7) 0 0], s_numCreated = 1, alive = [], ticks = 1, fired = []\<rparr>"

lemma TimerWheel_reentry_deadlocks_witness:
  "TimerWheel_tick first_free (\<lambda>_ _. [Add 1 0 (Some 7)]) due_wheel = Some (Inl Deadlock)"
  by (rule TimerWheel_reentry_deadlocks [of _ 1 "new_event 0 0 (Some 7) 0 0" 7])
    (auto simp: due_wheel_def slot_at_def new_event_def)

end
