(* ===== verification/IOLoop.thy ===== *)
theory IOLoop
  imports TimerQueue
begin

text \<open>
  \<open>IOLoop.h\<close>, \<open>IOLoop.cpp\<close>: a loop belongs to the thread that creates it and runs the
  functions posted to it one after the other, until \<open>quit\<close>. The lemmas show which functions a
  loop runs and in which order, that only its own thread may run it, and that a thread can
  have one loop in its life.
\<close>

section \<open>State\<close>

text \<open>
  The functions that wait in \<open>ioContext_\<close>; \<open>quit\<close> posts \<open>quitInThisThread\<close> behind them. The
  thread-local \<open>t_inThisThreadLoop\<close> is the set of threads in which it is not null. Threads are
  numbered.
\<close>

datatype 't loop_task = UserTask 't | QuitTask

record 't IOLoop =
  threadId :: nat
  loop_tasks :: "'t loop_task list"
  work :: bool
  stopped :: bool
  quitting :: bool

definition IOLoop_new :: "nat \<Rightarrow> nat set \<Rightarrow> ('t IOLoop \<times> nat set) result" where
  "IOLoop_new tid t_inThisThreadLoop =
     (if tid \<in> t_inThisThreadLoop then Inl LogFatal
      else Inr (\<lparr>threadId = tid, loop_tasks = [], work = True, stopped = False, quitting = False\<rparr>,
                insert tid t_inThisThreadLoop))"

definition IOLoop_isInLoopThread :: "nat \<Rightarrow> 't IOLoop \<Rightarrow> bool" where
  "IOLoop_isInLoopThread tid l \<longleftrightarrow> tid = threadId l"

definition IOLoop_abortNotInLoopThread :: "unit result" where
  [simp]: "IOLoop_abortNotInLoopThread = Inl LogFatal"

definition IOLoop_assertInLoopThread :: "nat \<Rightarrow> 't IOLoop \<Rightarrow> unit result" where
  "IOLoop_assertInLoopThread tid l = (if \<not> IOLoop_isInLoopThread tid l then IOLoop_abortNotInLoopThread else Inr ())"

definition IOLoop_post :: "'t loop_task \<Rightarrow> 't IOLoop \<Rightarrow> 't IOLoop" where
  "IOLoop_post t l = l\<lparr>loop_tasks := loop_tasks l @ [t]\<rparr>"

text \<open>\<open>dispatch\<close> gives the function that is to be called at once, if any.\<close>

definition IOLoop_dispatch :: "nat \<Rightarrow> 't \<Rightarrow> 't IOLoop \<Rightarrow> 't option \<times> 't IOLoop" where
  "IOLoop_dispatch tid f l =
     (if IOLoop_isInLoopThread tid l then (Some f, l) else (None, IOLoop_post (UserTask f) l))"

definition IOLoop_quit :: "'t IOLoop \<Rightarrow> 't IOLoop" where
  "IOLoop_quit l = IOLoop_post QuitTask (l\<lparr>quitting := True\<rparr>)"

definition IOLoop_quitInThisThread :: "nat \<Rightarrow> 't IOLoop \<Rightarrow> 't IOLoop result" where
  "IOLoop_quitInThisThread tid l =
     rbind (IOLoop_assertInLoopThread tid l) (\<lambda>_. Inr (l\<lparr>work := False, stopped := True\<rparr>))"

definition IOLoop_destructor :: "'t IOLoop \<Rightarrow> 't IOLoop" where
  "IOLoop_destructor l = (if \<not> quitting l then IOLoop_quit l else l)"

section \<open>Timers\<close>

definition IOLoop_runAt ::
    "Timer allocator \<Rightarrow> bool \<Rightarrow> Timestamp \<Rightarrow> nat option \<Rightarrow> TimerQueue \<Rightarrow> (TimerId \<times> TimerQueue) result" where
  "IOLoop_runAt alloc in_loop when cb q = TimerQueue_addTimer alloc in_loop cb when \<lparr>positive = False, micros = 0\<rparr> q"

definition IOLoop_runAfter ::
    "Timer allocator \<Rightarrow> bool \<Rightarrow> seconds \<Rightarrow> nat option \<Rightarrow> TimerQueue \<Rightarrow> (TimerId \<times> TimerQueue) result" where
  "IOLoop_runAfter alloc in_loop delay cb q =
     (let time = addTime (clock q) delay in IOLoop_runAt alloc in_loop time cb q)"

definition IOLoop_runEvery ::
    "Timer allocator \<Rightarrow> bool \<Rightarrow> seconds \<Rightarrow> nat option \<Rightarrow> TimerQueue \<Rightarrow> (TimerId \<times> TimerQueue) result" where
  "IOLoop_runEvery alloc in_loop every cb q =
     (let time = addTime (clock q) every in TimerQueue_addTimer alloc in_loop cb time every q)"

definition IOLoop_cancel :: "bool \<Rightarrow> TimerId \<Rightarrow> TimerQueue \<Rightarrow> TimerQueue result" where
  "IOLoop_cancel in_loop timerId q = TimerQueue_cancel in_loop timerId q"

section \<open>Running\<close>

text \<open>
  \<open>io_context::run\<close> calls the waiting functions in order until it is stopped or out of work.
  What a function does to the rest of the program, and which functions it posts to the loop, is
  the parameter \<open>exec\<close>. \<open>Waiting\<close> is the point where \<open>run\<close> sleeps for lack of a function.
\<close>

datatype loop_outcome = Returned | Waiting

partial_function (option) io_run ::
    "('t \<Rightarrow> 's \<Rightarrow> ('s \<times> 't list) result) \<Rightarrow> nat \<Rightarrow> 't IOLoop \<Rightarrow> 's \<Rightarrow> (loop_outcome \<times> 't IOLoop \<times> 's) result option" where
  "io_run exec tid l s =
     (if stopped l then Some (Inr (Returned, l, s))
      else
        (case loop_tasks l of
           [] \<Rightarrow> Some (Inr (if work l then Waiting else Returned, l, s))
         | QuitTask # ts \<Rightarrow>
             (case IOLoop_quitInThisThread tid (l\<lparr>loop_tasks := ts\<rparr>) of
                Inl e \<Rightarrow> Some (Inl e)
              | Inr l' \<Rightarrow> io_run exec tid l' s)
         | UserTask t # ts \<Rightarrow>
             (case exec t s of
                Inl e \<Rightarrow> Some (Inl e)
              | Inr (s', ps) \<Rightarrow> io_run exec tid (l\<lparr>loop_tasks := ts @ map UserTask ps\<rparr>) s')))"

definition IOLoop_loop ::
    "('t \<Rightarrow> 's \<Rightarrow> ('s \<times> 't list) result) \<Rightarrow> nat \<Rightarrow> 't IOLoop \<Rightarrow> 's \<Rightarrow> (loop_outcome \<times> 't IOLoop \<times> 's) result option" where
  "IOLoop_loop exec tid l s =
     (case IOLoop_assertInLoopThread tid l of
        Inl e \<Rightarrow> Some (Inl e)
      | Inr _ \<Rightarrow> io_run exec tid l s)"

text \<open>The functions \<open>us\<close> one after the other, with what they post.\<close>

fun exec_all :: "('t \<Rightarrow> 's \<Rightarrow> ('s \<times> 't list) result) \<Rightarrow> 't list \<Rightarrow> 's \<Rightarrow> ('s \<times> 't list) result" where
  "exec_all exec [] s = Inr (s, [])"
| "exec_all exec (t # ts) s =
     rbind (exec t s) (\<lambda>(s1, ps). rbind (exec_all exec ts s1) (\<lambda>(s2, qs). Inr (s2, ps @ qs)))"

lemma io_run_until_quit:
  assumes "loop_tasks l = map UserTask us @ QuitTask # rest" "\<not> stopped l" "threadId l = tid"
  shows "io_run exec tid l s =
    (case exec_all exec us s of
       Inl e \<Rightarrow> Some (Inl e)
     | Inr (s', ps) \<Rightarrow>
         Some (Inr (Returned, l\<lparr>loop_tasks := rest @ map UserTask ps, work := False, stopped := True\<rparr>, s')))"
  using assms
proof (induction us arbitrary: l s rest)
  case Nil
  have "IOLoop_quitInThisThread tid (l\<lparr>loop_tasks := rest\<rparr>) = Inr (l\<lparr>loop_tasks := rest, work := False, stopped := True\<rparr>)"
    using Nil.prems(3) by (simp add: IOLoop_quitInThisThread_def IOLoop_assertInLoopThread_def IOLoop_isInLoopThread_def)
  moreover have "io_run exec tid (l\<lparr>loop_tasks := rest, work := False, stopped := True\<rparr>) s
      = Some (Inr (Returned, l\<lparr>loop_tasks := rest, work := False, stopped := True\<rparr>, s))"
    by (subst io_run.simps) simp
  ultimately show ?case
    using Nil.prems by (subst io_run.simps) simp
next
  case (Cons u us)
  show ?case
  proof (cases "exec u s")
    case (Inl e)
    then show ?thesis
      using Cons.prems by (subst io_run.simps) simp
  next
    case (Inr r)
    obtain s1 ps where r: "r = (s1, ps)"
      by (cases r)
    let ?l = "l\<lparr>loop_tasks := map UserTask us @ QuitTask # rest @ map UserTask ps\<rparr>"
    have "io_run exec tid l s = io_run exec tid ?l s1"
      using Cons.prems Inr r by (subst io_run.simps) simp
    then show ?thesis
      using Cons.IH [of ?l "rest @ map UserTask ps" s1] Cons.prems Inr r
      by (simp split: sum.split prod.split)
  qed
qed

text \<open>C32. In its own thread \<open>loop\<close> runs the functions posted before \<open>quit\<close>, each once and in the
  order in which they were posted, and returns; what is posted behind \<open>quit\<close>, by these functions
  or by others, is not run. In another thread \<open>loop\<close> ends the process.\<close>

theorem IOLoop_runs_until_quit:
  assumes "loop_tasks l = map UserTask us" "\<not> stopped l" "exec_all exec us s = Inr (s', ps)"
  shows "IOLoop_loop exec tid ((IOLoop_quit l)\<lparr>loop_tasks := loop_tasks (IOLoop_quit l) @ rest\<rparr>) s =
    (if tid = threadId l then
       Some (Inr (Returned, l\<lparr>quitting := True, loop_tasks := rest @ map UserTask ps, work := False, stopped := True\<rparr>, s'))
     else Some (Inl LogFatal))"
  using io_run_until_quit [of "(IOLoop_quit l)\<lparr>loop_tasks := loop_tasks (IOLoop_quit l) @ rest\<rparr>" us rest tid exec s] assms
  by (cases "tid = threadId l") (simp_all add: IOLoop_quit_def IOLoop_post_def IOLoop_loop_def IOLoop_assertInLoopThread_def IOLoop_isInLoopThread_def)

lemma IOLoop_runs_until_quit_witness:
  "case IOLoop_new 7 {} of Inl _ \<Rightarrow> False
   | Inr (l, _) \<Rightarrow>
      IOLoop_loop (\<lambda>t s. Inr (s @ [t], [t + 10])) 7
        ((IOLoop_quit (l\<lparr>loop_tasks := [UserTask 1, UserTask (2::nat)]\<rparr>))\<lparr>loop_tasks := [UserTask 1, UserTask 2, QuitTask, UserTask 3]\<rparr>) []
      = Some (Inr (Returned, l\<lparr>loop_tasks := [UserTask 3, UserTask 11, UserTask 12], quitting := True, work := False, stopped := True\<rparr>, [1, 2]))"
  using IOLoop_runs_until_quit [of "\<lparr>threadId = 7, loop_tasks = [UserTask 1, UserTask 2], work = True, stopped = False, quitting = False\<rparr>"
      "[1, 2 :: nat]" "\<lambda>t s. Inr (s @ [t], [t + 10])" "[]" "[1, 2]" "[11, 12]" 7 "[UserTask 3]"]
  by (simp add: IOLoop_new_def IOLoop_quit_def IOLoop_post_def)

text \<open>A second loop in the same thread, even after the first is gone, ends the process:
  nothing resets \<open>t_inThisThreadLoop\<close>.\<close>

lemma IOLoop_once_per_thread:
  "IOLoop_new tid loops = Inr (l, loops1) \<Longrightarrow> IOLoop_new tid loops1 = Inl LogFatal"
  by (auto simp: IOLoop_new_def split: if_splits)

end
