(* ===== verification/IOLoopThreadPool.thy ===== *)
theory IOLoopThreadPool
  imports Prelude
begin

text \<open>
  \<open>IOLoopThreadPool.h\<close>, \<open>IOLoopThreadPool.cpp\<close>: the loops over which a server spreads its
  connections. Loops are numbered; the loop of the \<open>i\<close>-th thread that \<open>run\<close> starts has the
  number \<open>i + 1\<close>. The lemmas show that no index is out of bounds and that the loops are handed
  out in turn.
\<close>

record IOLoopThreadPool =
  baseLoop :: nat
  io_contexts :: "nat list"
  "next" :: int32
  pool_started :: bool
  numThreads :: int32

definition IOLoopThreadPool_new :: "nat \<Rightarrow> IOLoopThreadPool" where
  "IOLoopThreadPool_new loop =
     \<lparr>baseLoop = loop, io_contexts = [], next = 0, pool_started = False, numThreads = 0\<rparr>"

definition IOLoopThreadPool_setThreadNum :: "int \<Rightarrow> IOLoopThreadPool \<Rightarrow> IOLoopThreadPool" where
  "IOLoopThreadPool_setThreadNum n p = p\<lparr>numThreads := word_of_int n\<rparr>"

definition IOLoopThreadPool_run :: "IOLoopThreadPool \<Rightarrow> IOLoopThreadPool result" where
  "IOLoopThreadPool_run p =
     (if pool_started p then Inl AssertFailed
      else
        Inr (p\<lparr>pool_started := True, io_contexts := io_contexts p @ map Suc [0..<unat (numThreads p)]\<rparr>))"

definition IOLoopThreadPool_getNextIOLoop :: "IOLoopThreadPool \<Rightarrow> (nat \<times> IOLoopThreadPool) result" where
  "IOLoopThreadPool_getNextIOLoop p =
     (if \<not> pool_started p then Inl AssertFailed
      else if io_contexts p \<noteq> [] then
        (if unat (next p) < length (io_contexts p) then
           (let ios = io_contexts p ! unat (next p);
                n = next p + 1 in
            Inr (ios, p\<lparr>next := (if length (io_contexts p) \<le> unat n then 0 else n)\<rparr>))
         else Inl OutOfBounds)
      else Inr (baseLoop p, p))"

definition IOLoopThreadPool_getAllIOContext :: "IOLoopThreadPool \<Rightarrow> nat list result" where
  "IOLoopThreadPool_getAllIOContext p =
     (if \<not> pool_started p then Inl AssertFailed
      else if io_contexts p = [] then Inr (replicate 1 (baseLoop p))
      else Inr (io_contexts p))"

text \<open>A pool whose threads run: the index is that of the next loop.\<close>

definition pool_ok :: "IOLoopThreadPool \<Rightarrow> bool" where
  "pool_ok p \<longleftrightarrow> pool_started p \<and> length (io_contexts p) < 2 ^ 32
     \<and> (io_contexts p \<noteq> [] \<longrightarrow> unat (next p) < length (io_contexts p))"

text \<open>The loop that serves the \<open>k\<close>-th request after the pool was started.\<close>

definition loop_in_turn :: "IOLoopThreadPool \<Rightarrow> nat \<Rightarrow> nat" where
  "loop_in_turn p k =
     (if io_contexts p = [] then baseLoop p else io_contexts p ! ((unat (next p) + k) mod length (io_contexts p)))"

lemma run_pool_ok:
  assumes "IOLoopThreadPool_run p = Inr q" "io_contexts p = []" "next p = 0"
  shows "pool_ok q" "next q = 0" "io_contexts q = map Suc [0..<unat (numThreads p)]" "baseLoop q = baseLoop p"
  using assms unsigned_less [of "numThreads p", where 'a = nat] by (auto simp: IOLoopThreadPool_run_def pool_ok_def split: if_splits)

lemma unat_Suc32: "unat (x :: int32) + 1 < 2 ^ 32 \<Longrightarrow> unat (x + 1) = unat x + 1"
  by (subst unat_add_lem [THEN iffD1]) simp_all

lemma getNextIOLoop_ok:
  assumes ok: "pool_ok p"
  obtains q where "IOLoopThreadPool_getNextIOLoop p = Inr (loop_in_turn p 0, q)" "pool_ok q"
    "io_contexts q = io_contexts p" "baseLoop q = baseLoop p" "\<And>k. loop_in_turn q k = loop_in_turn p (Suc k)"
proof (cases "io_contexts p = []")
  case True
  then show ?thesis
    using ok that [of p] by (simp add: IOLoopThreadPool_getNextIOLoop_def loop_in_turn_def pool_ok_def)
next
  case False
  let ?n = "length (io_contexts p)" and ?i = "unat (next p)"
  let ?next = "if ?n \<le> unat (next p + 1) then 0 else next p + 1"
  let ?q = "p\<lparr>next := ?next\<rparr>"
  have i: "?i < ?n" "?n < 2 ^ 32"
    using ok False by (simp_all add: pool_ok_def)
  have "?i + 1 < 2 ^ 32 \<or> ?i + 1 = ?n \<and> False"
    using i by simp
  then have s: "unat (next p + 1) = ?i + 1"
    using unat_Suc32 by blast
  have u: "unat ?next = Suc ?i mod ?n"
    using i(1) s by (simp add: mod_Suc)
  have "IOLoopThreadPool_getNextIOLoop p = Inr (loop_in_turn p 0, ?q)"
    using ok False i(1) by (simp add: IOLoopThreadPool_getNextIOLoop_def loop_in_turn_def pool_ok_def Let_def)
  moreover have "pool_ok ?q"
    unfolding pool_ok_def using ok i(2) u False by (simp add: pool_ok_def)
  moreover have "loop_in_turn ?q k = loop_in_turn p (Suc k)" for k
  proof -
    have "(unat ?next + k) mod ?n = (?i + Suc k) mod ?n"
      unfolding u by (simp add: mod_add_left_eq)
    then show ?thesis
      using False by (simp add: loop_in_turn_def)
  qed
  ultimately show ?thesis
    using that [of ?q] by simp
qed

text \<open>\<open>k\<close> requests.\<close>

fun take_loops :: "nat \<Rightarrow> IOLoopThreadPool \<Rightarrow> (nat list \<times> IOLoopThreadPool) result" where
  "take_loops 0 p = Inr ([], p)"
| "take_loops (Suc k) p =
     rbind (IOLoopThreadPool_getNextIOLoop p) (\<lambda>(l, p1).
     rbind (take_loops k p1) (\<lambda>(ls, p2). Inr (l # ls, p2)))"

lemma take_loops_ok:
  assumes "pool_ok p"
  shows "\<exists>q. take_loops k p = Inr (map (loop_in_turn p) [0..<k], q) \<and> pool_ok q"
  using assms
proof (induction k arbitrary: p)
  case 0
  then show ?case
    by simp
next
  case (Suc k)
  obtain q where q: "IOLoopThreadPool_getNextIOLoop p = Inr (loop_in_turn p 0, q)" "pool_ok q"
    "\<And>k. loop_in_turn q k = loop_in_turn p (Suc k)"
    by (rule getNextIOLoop_ok [OF Suc.prems]) (rule that)
  have "map (loop_in_turn p) [0..<Suc k] = loop_in_turn p 0 # map (loop_in_turn q) [0..<k]"
    unfolding q(3) by (simp add: upt_conv_Cons map_Suc_upt [symmetric] del: upt_Suc)
  then show ?case
    using Suc.IH [OF q(2)] q(1) by auto
qed

text \<open>A pool with \<open>n\<close> threads hands out its loops in turn, each every \<open>n\<close> requests, and never
  reads outside its vector; without threads it hands out the base loop.\<close>

lemma IOLoopThreadPool_round_robin:
  assumes "IOLoopThreadPool_run (IOLoopThreadPool_setThreadNum n (IOLoopThreadPool_new base)) = Inr p"
  shows "\<exists>q. take_loops k p = Inr (map (\<lambda>i. if n mod 2 ^ 32 = 0 then base else Suc (i mod nat (n mod 2 ^ 32))) [0..<k], q)"
proof -
  have u: "unat (word_of_int n :: int32) = nat (n mod 2 ^ 32)"
    by (simp only: unat_eq_nat_uint uint_word_of_int) simp
  have p: "pool_ok p" "next p = 0" "io_contexts p = map Suc [0..<nat (n mod 2 ^ 32)]" "baseLoop p = base"
    using run_pool_ok [OF assms] u by (simp_all add: IOLoopThreadPool_setThreadNum_def IOLoopThreadPool_new_def)
  have "0 \<le> n mod 2 ^ 32"
    by simp
  then have "loop_in_turn p i = (if n mod 2 ^ 32 = 0 then base else Suc (i mod nat (n mod 2 ^ 32)))" for i
    unfolding loop_in_turn_def p(2-4) by auto
  then have "loop_in_turn p = (\<lambda>i. if n mod 2 ^ 32 = 0 then base else Suc (i mod nat (n mod 2 ^ 32)))"
    by blast
  then show ?thesis
    using take_loops_ok [OF p(1), of k] by auto
qed

lemma IOLoopThreadPool_round_robin_witness:
  "\<exists>p q. IOLoopThreadPool_run (IOLoopThreadPool_setThreadNum 3 (IOLoopThreadPool_new 0)) = Inr p
     \<and> take_loops 5 p = Inr ([1, 2, 3, 1, 2], q)"
proof -
  obtain p where p: "IOLoopThreadPool_run (IOLoopThreadPool_setThreadNum 3 (IOLoopThreadPool_new 0)) = Inr p"
    by (simp add: IOLoopThreadPool_run_def IOLoopThreadPool_setThreadNum_def IOLoopThreadPool_new_def)
  have "map (\<lambda>i. if (3 :: int) mod 2 ^ 32 = 0 then 0 else Suc (i mod nat (3 mod 2 ^ 32))) [0..<5] = [1, 2, 3, 1, 2]"
    by code_simp
  then show ?thesis
    using IOLoopThreadPool_round_robin [OF p, of 5] p by metis
qed

end
