(* ===== verification/TcpServer.thy ===== *)
theory TcpServer
  imports TcpConnection IOLoop IOLoopThreadPool "HOL-Library.Char_ord" "HOL-Library.List_Lexorder"
begin

text \<open>
  \<open>TcpServer.h\<close>, \<open>TcpServer.cpp\<close>, \<open>Accept.h\<close>, \<open>Accept.cpp\<close>: a server, its acceptor, the loops of
  its pool and all its connections. Each connection is a \<open>TcpConnection\<close> with the steps of that
  theory; what its close callback does is \<open>removeConnection\<close> here. The lemmas show that the map
  of connections holds exactly those that are not closed, under different names, that none of
  the server's own assertions fails, and that connections go to the loops in turn.
\<close>

section \<open>State\<close>

text \<open>
  The functions that the server posts. A connection is known by its number, in the order of
  acceptance; the objects of closed connections are kept.
\<close>

datatype server_task = Establish nat | RemoveConn nat | Destroy nat

record ServerConn =
  sc_name :: string
  sc_loop :: nat
  sc_conn :: TcpConnection

record TcpServer =
  threadPool :: IOLoopThreadPool
  nextConnId :: int32
  ipPort :: string
  started :: bool
  accepting :: bool
  connections :: "string \<Rightarrow> nat option"
  conns :: "ServerConn list"
  loops :: "nat \<Rightarrow> server_task IOLoop"

text \<open>The base loop has the number 0; loop \<open>i\<close> runs in thread \<open>i\<close>.\<close>

definition TcpServer_new :: "string \<Rightarrow> TcpServer" where
  "TcpServer_new ip =
     \<lparr>threadPool = IOLoopThreadPool_new 0, nextConnId = 1, ipPort = ip, started = False, accepting = False,
      connections = (\<lambda>_. None), conns = [],
      loops = (\<lambda>i. \<lparr>threadId = i, loop_tasks = [], work = True, stopped = False, quitting = False\<rparr>)\<rparr>"

definition TcpServer_setThreadNum :: "int \<Rightarrow> TcpServer \<Rightarrow> TcpServer" where
  "TcpServer_setThreadNum n s = s\<lparr>threadPool := IOLoopThreadPool_setThreadNum n (threadPool s)\<rparr>"

definition Acceptor_start :: "TcpServer \<Rightarrow> TcpServer" where
  "Acceptor_start s = s\<lparr>accepting := True\<rparr>"

definition Acceptor_destructor :: "TcpServer \<Rightarrow> TcpServer" where
  "Acceptor_destructor s = s\<lparr>accepting := False\<rparr>"

definition TcpServer_start :: "TcpServer \<Rightarrow> TcpServer result" where
  "TcpServer_start s =
     (if \<not> started s then
        rbind (IOLoopThreadPool_run (threadPool s)) (\<lambda>p. Inr (Acceptor_start (s\<lparr>started := True, threadPool := p\<rparr>)))
      else Inr s)"

section \<open>Names\<close>

text \<open>The buffer of \<open>snprintf\<close> holds 63 characters.\<close>

definition conn_name :: "string \<Rightarrow> int32 \<Rightarrow> string" where
  "conn_name ip n = take 63 (''-'' @ ip @ ''#'' @ print_d (sint n))"

section \<open>Operations\<close>

definition set_conn :: "nat \<Rightarrow> TcpConnection \<Rightarrow> TcpServer \<Rightarrow> TcpServer" where
  "set_conn k c s = s\<lparr>conns := (conns s)[k := (conns s ! k)\<lparr>sc_conn := c\<rparr>]\<rparr>"

text \<open>\<open>IOLoop::dispatch\<close> from thread \<open>tid\<close>: \<open>now\<close> is what the function does when called at once.\<close>

definition server_dispatch :: "nat \<Rightarrow> nat \<Rightarrow> server_task \<Rightarrow> (TcpServer \<Rightarrow> TcpServer result) \<Rightarrow> TcpServer \<Rightarrow> TcpServer result" where
  "server_dispatch tid loop t now s =
     (case IOLoop_dispatch tid t (loops s loop) of
        (Some _, _) \<Rightarrow> now s
      | (None, l) \<Rightarrow> Inr (s\<lparr>loops := (loops s)(loop := l)\<rparr>))"

definition server_post :: "nat \<Rightarrow> server_task \<Rightarrow> TcpServer \<Rightarrow> TcpServer" where
  "server_post loop t s = s\<lparr>loops := (loops s)(loop := IOLoop_post (UserTask t) (loops s loop))\<rparr>"

definition TcpServer_removeConnectionInThisThread :: "nat \<Rightarrow> nat \<Rightarrow> TcpServer \<Rightarrow> TcpServer result" where
  "TcpServer_removeConnectionInThisThread tid conn s =
     rbind (IOLoop_assertInLoopThread tid (loops s 0)) (\<lambda>_.
     let name = sc_name (conns s ! conn);
         n = (if connections s name = None then 0 else 1 :: nat);
         s1 = s\<lparr>connections := (connections s)(name := None)\<rparr> in
     if n \<noteq> 1 then Inl AssertFailed
     else Inr (server_post (sc_loop (conns s ! conn)) (Destroy conn) s1))"

definition TcpServer_removeConnection :: "nat \<Rightarrow> nat \<Rightarrow> TcpServer \<Rightarrow> TcpServer result" where
  "TcpServer_removeConnection tid conn s =
     server_dispatch tid 0 (RemoveConn conn) (TcpServer_removeConnectionInThisThread tid conn) s"

text \<open>
  A step of a connection, in the thread of its loop. The close callback is the last thing that
  \<open>handleClose\<close> and the handlers that call it do, so its effect comes after the step in which it
  is made.
\<close>

definition server_conn_step :: "callbacks \<Rightarrow> socket_ops \<Rightarrow> nat \<Rightarrow> conn_step \<Rightarrow> TcpServer \<Rightarrow> TcpServer result" where
  "server_conn_step user so k st s =
     (let c = sc_conn (conns s ! k) in
      rbind (tcp_step (owner_callbacks user) so st c) (\<lambda>c'.
      if closes c < closes c' then TcpServer_removeConnection (sc_loop (conns s ! k)) k (set_conn k c' s)
      else Inr (set_conn k c' s)))"

definition TcpServer_newConnection :: "callbacks \<Rightarrow> socket_ops \<Rightarrow> nat \<Rightarrow> TcpServer \<Rightarrow> TcpServer result" where
  "TcpServer_newConnection user so tid s =
     rbind (IOLoop_assertInLoopThread tid (loops s 0)) (\<lambda>_.
     rbind (IOLoopThreadPool_getNextIOLoop (threadPool s)) (\<lambda>(ioLoop, p).
     let buf = conn_name (ipPort s) (nextConnId s) in
     rbind TcpConnection_new (\<lambda>c.
     let k = length (conns s);
         s1 = s\<lparr>threadPool := p, nextConnId := nextConnId s + 1,
                conns := conns s @ [\<lparr>sc_name = buf, sc_loop = ioLoop, sc_conn = c\<rparr>],
                connections := (connections s)(buf \<mapsto> k)\<rparr> in
     server_dispatch tid ioLoop (Establish k) (server_conn_step user so k Established) s1)))"

text \<open>The handler of \<open>async_accept\<close>; the server has set the new connection callback.\<close>

definition on_accept :: "callbacks \<Rightarrow> socket_ops \<Rightarrow> bool \<Rightarrow> TcpServer \<Rightarrow> TcpServer result" where
  "on_accept user so error s =
     rbind (if \<not> error then TcpServer_newConnection user so 0 (s\<lparr>accepting := False\<rparr>) else Inr (s\<lparr>accepting := False\<rparr>))
       (\<lambda>s'. Inr (Acceptor_start s'))"

text \<open>\<open>connectEstablished\<close> and \<open>connectDestroyed\<close> begin with the assertion that they run in the thread of
  the connection's own loop.\<close>

fun run_server_task :: "callbacks \<Rightarrow> socket_ops \<Rightarrow> nat \<Rightarrow> server_task \<Rightarrow> TcpServer \<Rightarrow> TcpServer result" where
  "run_server_task user so tid (Establish k) s =
     rbind (IOLoop_assertInLoopThread tid (loops s (sc_loop (conns s ! k)))) (\<lambda>_. server_conn_step user so k Established s)"
| "run_server_task user so tid (RemoveConn k) s = TcpServer_removeConnectionInThisThread tid k s"
| "run_server_task user so tid (Destroy k) s =
     rbind (IOLoop_assertInLoopThread tid (loops s (sc_loop (conns s ! k)))) (\<lambda>_. server_conn_step user so k Destroyed s)"

text \<open>The destructor, in the base loop's thread: every connection is destroyed in its own loop, in the
  order of the names, then the members go, the acceptor among them (for the pool see
  \<open>IOLoopThread\<close>).\<close>

fun destroy_all :: "callbacks \<Rightarrow> socket_ops \<Rightarrow> nat list \<Rightarrow> TcpServer \<Rightarrow> TcpServer result" where
  "destroy_all user so [] s = Inr s"
| "destroy_all user so (k # ks) s =
     rbind (server_dispatch 0 (sc_loop (conns s ! k)) (Destroy k) (server_conn_step user so k Destroyed) s)
       (destroy_all user so ks)"

definition TcpServer_destructor :: "callbacks \<Rightarrow> socket_ops \<Rightarrow> nat \<Rightarrow> TcpServer \<Rightarrow> TcpServer result" where
  "TcpServer_destructor user so tid s =
     rbind (IOLoop_assertInLoopThread tid (loops s 0)) (\<lambda>_.
     rbind
       (destroy_all user so
         (sort_key (\<lambda>k. sc_name (conns s ! k))
           (filter (\<lambda>k. connections s (sc_name (conns s ! k)) = Some k) [0..<length (conns s)]))
         (s\<lparr>connections := (\<lambda>_. None)\<rparr>))
       (\<lambda>s1. Inr (Acceptor_destructor s1)))"

section \<open>Runs\<close>

text \<open>\<open>RunLoop l\<close>: loop \<open>l\<close> runs the oldest function posted to it.\<close>

datatype server_input = Start | Accepted bool | ConnInput nat conn_step | RunLoop nat

fun server_step :: "callbacks \<Rightarrow> socket_ops \<Rightarrow> server_input \<Rightarrow> TcpServer \<Rightarrow> TcpServer result" where
  "server_step user so Start s = TcpServer_start s"
| "server_step user so (Accepted error) s = on_accept user so error s"
| "server_step user so (ConnInput k st) s = server_conn_step user so k st s"
| "server_step user so (RunLoop l) s =
     (case loop_tasks (loops s l) of
        UserTask t # ts \<Rightarrow> run_server_task user so l t (s\<lparr>loops := (loops s)(l := (loops s l)\<lparr>loop_tasks := ts\<rparr>)\<rparr>)
      | _ \<Rightarrow> Inr s)"

fun server_enabled :: "server_input \<Rightarrow> TcpServer \<Rightarrow> bool" where
  "server_enabled Start s \<longleftrightarrow> True"
| "server_enabled (Accepted error) s \<longleftrightarrow> accepting s"
| "server_enabled (ConnInput k st) s \<longleftrightarrow>
     k < length (conns s) \<and> st \<notin> {Established, Destroyed} \<and> enabled st (sc_conn (conns s ! k))"
| "server_enabled (RunLoop l) s \<longleftrightarrow> loop_tasks (loops s l) \<noteq> []"

inductive server_reach :: "callbacks \<Rightarrow> socket_ops \<Rightarrow> TcpServer \<Rightarrow> TcpServer \<Rightarrow> bool" for user so s0 where
  srv_start: "server_reach user so s0 s0"
| srv_step: "server_reach user so s0 s \<Longrightarrow> server_enabled i s \<Longrightarrow> server_step user so i s = Inr s' \<Longrightarrow> server_reach user so s0 s'"

section \<open>Names are unique\<close>

lemma conn_name_inj:
  assumes "conn_name ip n = conn_name ip m" "length ip \<le> 45"
  shows "n = m"
proof -
  have "conn_name ip x = ''-'' @ ip @ ''#'' @ print_d (sint x)" for x :: int32
    using length_print_d [of x] assms(2) by (simp add: conn_name_def)
  then have "print_d (sint n) = print_d (sint m)"
    using assms(1) by simp
  then have "sint n = sint m"
    by (rule print_d_inj)
  then show ?thesis
    using word_eq_iff_signed by blast
qed

section \<open>Invariant\<close>

abbreviation conn_at :: "TcpServer \<Rightarrow> nat \<Rightarrow> TcpConnection" where
  "conn_at s k \<equiv> sc_conn (conns s ! k)"

abbreviation queue_of :: "TcpServer \<Rightarrow> nat \<Rightarrow> server_task loop_task list" where
  "queue_of s l \<equiv> loop_tasks (loops s l)"

text \<open>A connection is in the map until the function that removes it has run.\<close>

definition present :: "TcpServer \<Rightarrow> nat \<Rightarrow> bool" where
  "present s k \<longleftrightarrow> \<not> closed (conn_at s k) \<or> UserTask (RemoveConn k) \<in> set (queue_of s 0)"

definition task_ok :: "TcpServer \<Rightarrow> nat \<Rightarrow> server_task loop_task \<Rightarrow> nat \<Rightarrow> bool" where
  "task_ok s l t k \<longleftrightarrow> k < length (conns s) \<and>
     (t = UserTask (Establish k) \<and> l = sc_loop (conns s ! k) \<and> not_begun (conn_at s k)
      \<or> t = UserTask (RemoveConn k) \<and> l = 0 \<and> closed (conn_at s k)
      \<or> t = UserTask (Destroy k) \<and> l = sc_loop (conns s ! k) \<and> \<not> present s k)"

definition pool_inv :: "TcpServer \<Rightarrow> bool" where
  "pool_inv s \<longleftrightarrow> started s = pool_started (threadPool s) \<and> (accepting s \<longrightarrow> started s)
     \<and> (if started s then pool_ok (threadPool s) else io_contexts (threadPool s) = [] \<and> next (threadPool s) = 0)"

definition server_inv :: "TcpServer \<Rightarrow> bool" where
  "server_inv s \<longleftrightarrow> pool_inv s
     \<and> (\<forall>l. threadId (loops s l) = l \<and> distinct (queue_of s l) \<and> (\<forall>t \<in> set (queue_of s l). \<exists>k. task_ok s l t k))
     \<and> nextConnId s = of_nat (Suc (length (conns s)))
     \<and> (\<forall>k < length (conns s). sc_name (conns s ! k) = conn_name (ipPort s) (of_nat (Suc k))
          \<and> lifecycle_ok (conn_state (conn_at s k)) (lifecycle (conn_at s k)))
     \<and> (\<forall>n k. connections s n = Some k \<longleftrightarrow> k < length (conns s) \<and> n = sc_name (conns s ! k) \<and> present s k)"

lemma server_invD:
  assumes "server_inv s"
  shows "pool_inv s" "threadId (loops s l) = l" "distinct (queue_of s l)"
    "t \<in> set (queue_of s l) \<Longrightarrow> \<exists>k. task_ok s l t k"
    "nextConnId s = of_nat (Suc (length (conns s)))"
    "k < length (conns s) \<Longrightarrow> sc_name (conns s ! k) = conn_name (ipPort s) (of_nat (Suc k))"
    "k < length (conns s) \<Longrightarrow> lifecycle_ok (conn_state (conn_at s k)) (lifecycle (conn_at s k))"
    "connections s n = Some k \<longleftrightarrow> k < length (conns s) \<and> n = sc_name (conns s ! k) \<and> present s k"
  using assms unfolding server_inv_def by auto

text \<open>An update of one connection that neither opens nor closes it for the server.\<close>

lemma set_conn_nth [simp]:
  "sc_name (conns (set_conn k c s) ! j) = sc_name (conns s ! j)"
  "sc_loop (conns (set_conn k c s) ! j) = sc_loop (conns s ! j)"
  by (cases "k < length (conns s)"; cases "j = k"; simp add: set_conn_def list_update_beyond not_less)+

lemma set_conn_simps [simp]:
  "queue_of (set_conn k c s) l = queue_of s l" "threadId (loops (set_conn k c s) l) = threadId (loops s l)"
  "length (conns (set_conn k c s)) = length (conns s)" "connections (set_conn k c s) = connections s"
  "nextConnId (set_conn k c s) = nextConnId s" "ipPort (set_conn k c s) = ipPort s"
  "pool_inv (set_conn k c s) = pool_inv s" "threadPool (set_conn k c s) = threadPool s" "loops (set_conn k c s) = loops s"
  by (simp_all add: set_conn_def pool_inv_def)

lemma set_conn_at: "k < length (conns s) \<Longrightarrow> conn_at (set_conn k c s) j = (if j = k then c else conn_at s j)"
  by (simp add: set_conn_def nth_list_update)

lemma set_conn_inv:
  assumes inv: "server_inv s" and k: "k < length (conns s)"
    and c: "lifecycle_ok (conn_state c) (lifecycle c)" "closed c \<longleftrightarrow> closed (conn_at s k)"
    and e: "\<And>l. UserTask (Establish k) \<in> set (queue_of s l) \<Longrightarrow> not_begun c"
  shows "server_inv (set_conn k c s)"
proof -
  note D = server_invD [OF inv]
  let ?s = "set_conn k c s"
  have p: "present ?s j = present s j" for j
    using c(2) by (simp add: present_def set_conn_at [OF k])
  have "\<exists>j. task_ok ?s l t j" if t: "t \<in> set (queue_of s l)" for t l
  proof -
    obtain j where "task_ok s l t j"
      using D(4) [OF t] by blast
    then have "task_ok ?s l t j"
      using e [of l] t c(2) unfolding task_ok_def p by (auto simp: set_conn_at [OF k])
    then show ?thesis
      by blast
  qed
  moreover have "lifecycle_ok (conn_state (conn_at ?s j)) (lifecycle (conn_at ?s j))" if "j < length (conns s)" for j
    using D(7) [OF that] c(1) by (simp add: set_conn_at [OF k])
  ultimately show ?thesis
    using D(1-3,5,6,8) unfolding server_inv_def set_conn_simps p by auto
qed

lemma of_nat32_inj:
  assumes "(of_nat a :: int32) = of_nat b" "a < 2 ^ 32" "b < 2 ^ 32"
  shows "Suc m = a \<Longrightarrow> Suc n = b \<Longrightarrow> m = n"
proof -
  have "unat (of_nat a :: int32) = unat (of_nat b :: int32)"
    using assms(1) by simp
  then have "a = b"
    using assms(2,3) by (simp add: unat_of_nat take_bit_nat_eq_self)
  then show "Suc m = a \<Longrightarrow> Suc n = b \<Longrightarrow> m = n"
    by simp
qed

section \<open>Every step keeps the invariant\<close>

lemma names_inj:
  assumes "server_inv s" "length (ipPort s) \<le> 45" "i < length (conns s)" "j < length (conns s)" "length (conns s) < 2 ^ 32"
    and "sc_name (conns s ! i) = sc_name (conns s ! j)"
  shows "i = j"
proof -
  have "(of_nat (Suc i) :: int32) = of_nat (Suc j)"
    using server_invD(6) [OF assms(1)] assms(2-4,6) conn_name_inj [of "ipPort s"] by metis
  moreover have "Suc i < 2 ^ 32" "Suc j < 2 ^ 32"
    using assms(3-5) by auto
  ultimately show ?thesis
    using of_nat32_inj by blast
qed

lemma server_post_simps [simp]:
  "queue_of (server_post l t s) l' = (if l' = l then queue_of s l @ [UserTask t] else queue_of s l')"
  "threadId (loops (server_post l t s) l') = threadId (loops s l')"
  "conns (server_post l t s) = conns s" "connections (server_post l t s) = connections s"
  "nextConnId (server_post l t s) = nextConnId s" "ipPort (server_post l t s) = ipPort s"
  "pool_inv (server_post l t s) = pool_inv s" "threadPool (server_post l t s) = threadPool s"
  by (simp_all add: server_post_def IOLoop_post_def pool_inv_def)

lemma connections_update_simps [simp]:
  "queue_of (s\<lparr>connections := m\<rparr>) l = queue_of s l" "pool_inv (s\<lparr>connections := m\<rparr>) = pool_inv s"
  by (simp_all add: pool_inv_def)

text \<open>Removing a closed connection that is not waiting for its removal in a queue.\<close>

definition about_to_leave :: "TcpServer \<Rightarrow> nat \<Rightarrow> bool" where
  "about_to_leave s k \<longleftrightarrow> pool_inv s \<and> k < length (conns s) \<and> closed (conn_at s k) \<and> UserTask (RemoveConn k) \<notin> set (queue_of s 0)
     \<and> (\<forall>l. threadId (loops s l) = l \<and> distinct (queue_of s l)
          \<and> (\<forall>t \<in> set (queue_of s l). t \<noteq> UserTask (Destroy k) \<and> (\<exists>j. task_ok s l t j)))
     \<and> nextConnId s = of_nat (Suc (length (conns s)))
     \<and> (\<forall>k < length (conns s). sc_name (conns s ! k) = conn_name (ipPort s) (of_nat (Suc k))
          \<and> lifecycle_ok (conn_state (conn_at s k)) (lifecycle (conn_at s k)))
     \<and> (\<forall>n j. connections s n = Some j \<longleftrightarrow> j < length (conns s) \<and> n = sc_name (conns s ! j) \<and> (j = k \<or> present s j))"

lemma removeConnectionInThisThread_ok:
  assumes a: "about_to_leave s k" and small: "length (ipPort s) \<le> 45" "length (conns s) < 2 ^ 32"
  obtains s' where "TcpServer_removeConnectionInThisThread 0 k s = Inr s'" "server_inv s'" "conns s' = conns s" "ipPort s' = ipPort s"
    "threadPool s' = threadPool s" "connections s' = (connections s)(sc_name (conns s ! k) := None)"
proof -
  let ?m = "(connections s)(sc_name (conns s ! k) := None)"
  let ?s = "server_post (sc_loop (conns s ! k)) (Destroy k) (s\<lparr>connections := ?m\<rparr>)"
  have k: "k < length (conns s)" "connections s (sc_name (conns s ! k)) = Some k" "threadId (loops s 0) = 0"
    using a by (auto simp: about_to_leave_def)
  have eq: "TcpServer_removeConnectionInThisThread 0 k s = Inr ?s"
    using k by (simp add: TcpServer_removeConnectionInThisThread_def IOLoop_assertInLoopThread_def IOLoop_isInLoopThread_def)
  have absent: "\<not> present s k"
    using a by (simp add: about_to_leave_def present_def)
  have p: "present ?s j = present s j" for j
    by (auto simp: present_def)
  have inj: "i = k" if "i < length (conns s)" "sc_name (conns s ! i) = sc_name (conns s ! k)" for i
  proof -
    have "(of_nat (Suc i) :: int32) = of_nat (Suc k)"
      using a that k(1) small(1) conn_name_inj [of "ipPort s"] unfolding about_to_leave_def by metis
    moreover have "Suc i < 2 ^ 32" "Suc k < 2 ^ 32"
      using that(1) k(1) small(2) by auto
    ultimately show ?thesis
      using of_nat32_inj by blast
  qed
  have tasks: "\<exists>j. task_ok ?s l t j" if "t \<in> set (queue_of ?s l)" for l t
  proof (cases "t \<in> set (queue_of s l)")
    case True
    then obtain j where "task_ok s l t j"
      using a unfolding about_to_leave_def by blast
    then have "task_ok ?s l t j"
      unfolding task_ok_def p by simp
    then show ?thesis
      by blast
  next
    case False
    then have "task_ok ?s l t k"
      using that k(1) absent unfolding task_ok_def p by (auto split: if_splits)
    then show ?thesis
      by blast
  qed
  have dist: "distinct (queue_of ?s l)" for l
    using a unfolding about_to_leave_def by auto
  have conn: "connections ?s n = Some j \<longleftrightarrow> j < length (conns ?s) \<and> n = sc_name (conns ?s ! j) \<and> present ?s j" for n j
    using a absent inj unfolding about_to_leave_def p by auto
  have "server_inv ?s"
    unfolding server_inv_def using tasks dist conn a unfolding about_to_leave_def by auto
  then show ?thesis
    using that [OF eq] by simp
qed

text \<open>What a step of the server leaves alone in the connections it has.\<close>

definition same_places :: "TcpServer \<Rightarrow> TcpServer \<Rightarrow> bool" where
  "same_places s s' \<longleftrightarrow> length (conns s') = length (conns s) \<and> ipPort s' = ipPort s \<and> threadPool s' = threadPool s
     \<and> (\<forall>j. sc_loop (conns s' ! j) = sc_loop (conns s ! j))"

lemma removeConnection_ok:
  assumes a: "about_to_leave s k" and small: "length (ipPort s) \<le> 45" "length (conns s) < 2 ^ 32"
  obtains s' where "TcpServer_removeConnection (sc_loop (conns s ! k)) k s = Inr s'" "server_inv s'" "same_places s s'"
proof (cases "sc_loop (conns s ! k) = 0")
  case True
  obtain s' where s': "TcpServer_removeConnectionInThisThread 0 k s = Inr s'" "server_inv s'" "conns s' = conns s"
    "ipPort s' = ipPort s" "threadPool s' = threadPool s"
    by (rule removeConnectionInThisThread_ok [OF a small])
  have "threadId (loops s 0) = 0"
    using a by (simp add: about_to_leave_def)
  then have "TcpServer_removeConnection (sc_loop (conns s ! k)) k s = Inr s'"
    using True s'(1) by (simp add: TcpServer_removeConnection_def server_dispatch_def IOLoop_dispatch_def IOLoop_isInLoopThread_def)
  then show ?thesis
    by (rule that) (use s' in \<open>simp_all add: same_places_def\<close>)
next
  case False
  let ?s = "server_post 0 (RemoveConn k) s"
  have id: "threadId (loops s 0) = 0"
    using a by (simp add: about_to_leave_def)
  have eq: "TcpServer_removeConnection (sc_loop (conns s ! k)) k s = Inr ?s"
    using False id by (simp add: TcpServer_removeConnection_def server_dispatch_def IOLoop_dispatch_def
        IOLoop_isInLoopThread_def server_post_def)
  have p: "present ?s j \<longleftrightarrow> j = k \<or> present s j" for j
    by (auto simp: present_def)
  have tasks: "\<exists>j. task_ok ?s l t j" if t: "t \<in> set (queue_of ?s l)" for l t
  proof (cases "t \<in> set (queue_of s l)")
    case True
    then obtain j where j: "task_ok s l t j" "t \<noteq> UserTask (Destroy k)"
      using a unfolding about_to_leave_def by blast
    then have "task_ok ?s l t j"
      unfolding task_ok_def p by auto
    then show ?thesis
      by blast
  next
    case False
    then have "task_ok ?s l t k"
      using t a unfolding task_ok_def about_to_leave_def by (auto split: if_splits)
    then show ?thesis
      by blast
  qed
  have dist: "distinct (queue_of ?s l)" for l
    using a unfolding about_to_leave_def by auto
  have "server_inv ?s"
    unfolding server_inv_def p using tasks dist a unfolding about_to_leave_def by auto
  then show ?thesis
    using that [OF eq] by (simp add: same_places_def)
qed

lemma conn_step_ok:
  assumes inv: "server_inv s" and k: "k < length (conns s)" and cb: "connectionCallback user \<noteq> None"
    and small: "length (ipPort s) \<le> 45" "length (conns s) < 2 ^ 32"
    and st: "(st \<noteq> Established \<and> st \<noteq> Destroyed \<and> enabled st (conn_at s k)) \<or> (\<forall>l. UserTask (Establish k) \<notin> set (queue_of s l))"
  shows "(\<exists>e. tcp_step (owner_callbacks user) so st (conn_at s k) = Inl e \<and> server_conn_step user so k st s = Inl e)
    \<or> (\<exists>s'. server_conn_step user so k st s = Inr s' \<and> server_inv s' \<and> same_places s s')"
proof (cases "tcp_step (owner_callbacks user) so st (conn_at s k)")
  case (Inl e)
  then show ?thesis
    by (simp add: server_conn_step_def Let_def)
next
  case (Inr c)
  note D = server_invD [OF inv]
  let ?s = "set_conn k c s"
  have cb': "connectionCallback (owner_callbacks user) \<noteq> None"
    using cb by (simp add: owner_callbacks_def)
  have l: "lifecycle_ok (conn_state c) (lifecycle c)"
    by (rule tcp_step_lifecycle [OF Inr cb' D(7) [OF k]])
  have e: "not_begun c" if q: "UserTask (Establish k) \<in> set (queue_of s l)" for l
  proof -
    obtain j where "task_ok s l (UserTask (Establish k)) j"
      using D(4) [OF q] by blast
    then have "not_begun (conn_at s k)"
      by (simp add: task_ok_def)
    then show ?thesis
      using not_begun_step [OF _ _ _ _ Inr] st q by blast
  qed
  have places: "same_places s ?s"
    by (simp add: same_places_def)
  show ?thesis
  proof (cases "closes (conn_at s k) < closes c")
    case False
    have "closed c \<longleftrightarrow> closed (conn_at s k)"
      using closed_step [OF Inr D(7) [OF k]] False closes_closed [of c] closes_closed [of "conn_at s k"] by auto
    then have "server_inv ?s"
      by (rule set_conn_inv [OF inv k l _ e])
    moreover have "server_conn_step user so k st s = Inr ?s"
      using Inr False by (simp add: server_conn_step_def Let_def)
    ultimately show ?thesis
      using places by blast
  next
    case True
    have c: "closed c" "\<not> closed (conn_at s k)"
      using True closes_le [OF l] closes_closed [of c] closes_closed [of "conn_at s k"] by auto
    have there: "present s k"
      using c(2) by (simp add: present_def)
    have nr: "UserTask (RemoveConn k) \<notin> set (queue_of s l)" for l
      using D(4) [of "UserTask (RemoveConn k)" l] c(2) by (auto simp: task_ok_def)
    have p: "j \<noteq> k \<Longrightarrow> present ?s j = present s j" for j
      by (simp add: present_def set_conn_at [OF k])
    have tasks: "t \<noteq> UserTask (Destroy k) \<and> (\<exists>j. task_ok ?s l t j)" if t: "t \<in> set (queue_of s l)" for t l
    proof -
      obtain j where j: "task_ok s l t j"
        using D(4) [OF t] by blast
      then have "t \<noteq> UserTask (Destroy k)"
        using there by (auto simp: task_ok_def)
      moreover have "task_ok ?s l t j"
        using j e [of l] t there nr [of l] c(1) p unfolding task_ok_def by (auto simp: set_conn_at [OF k])
      ultimately show ?thesis
        by blast
    qed
    have "about_to_leave ?s k"
      unfolding about_to_leave_def set_conn_simps set_conn_nth
    proof (intro conjI allI impI ballI)
      show "closed (conn_at ?s k)"
        using c(1) by (simp add: set_conn_at [OF k])
      show "connections s n = Some j \<longleftrightarrow> j < length (conns s) \<and> n = sc_name (conns s ! j) \<and> (j = k \<or> present ?s j)" for n j
        using D(8) [of n j] there p [of j] by (cases "j = k") simp_all
      show "lifecycle_ok (conn_state (conn_at ?s j)) (lifecycle (conn_at ?s j))" if "j < length (conns s)" for j
        using D(7) [OF that] l by (simp add: set_conn_at [OF k])
    qed (use D k nr tasks in auto)
    then obtain s' where "TcpServer_removeConnection (sc_loop (conns s ! k)) k ?s = Inr s'" "server_inv s'" "same_places ?s s'"
      using removeConnection_ok [of ?s k] small by auto
    then show ?thesis
      using Inr True places by (auto simp: server_conn_step_def Let_def same_places_def)
  qed
qed

lemma accepting_simps [simp]:
  "present (s\<lparr>accepting := b\<rparr>) k = present s k" "task_ok (s\<lparr>accepting := b\<rparr>) = task_ok s"
  by (simp_all add: present_def task_ok_def fun_eq_iff)

lemma accepting_inv: "server_inv s \<Longrightarrow> (b \<longrightarrow> started s) \<Longrightarrow> server_inv (s\<lparr>accepting := b\<rparr>)"
  unfolding server_inv_def by (simp add: pool_inv_def)

text \<open>The state after a connection was accepted and before it is established.\<close>

definition with_conn :: "nat \<Rightarrow> IOLoopThreadPool \<Rightarrow> TcpServer \<Rightarrow> TcpServer" where
  "with_conn l p s =
     (let buf = conn_name (ipPort s) (nextConnId s) in
      s\<lparr>threadPool := p, nextConnId := nextConnId s + 1,
        conns := conns s @ [\<lparr>sc_name = buf, sc_loop = l, sc_conn = fresh_connection\<rparr>],
        connections := (connections s)(buf \<mapsto> length (conns s))\<rparr>)"

lemma with_conn_simps [simp]:
  "queue_of (with_conn l p s) i = queue_of s i" "threadId (loops (with_conn l p s) i) = threadId (loops s i)"
  "length (conns (with_conn l p s)) = Suc (length (conns s))" "ipPort (with_conn l p s) = ipPort s"
  "threadPool (with_conn l p s) = p" "nextConnId (with_conn l p s) = nextConnId s + 1" "loops (with_conn l p s) = loops s"
  "connections (with_conn l p s) = (connections s)(conn_name (ipPort s) (nextConnId s) \<mapsto> length (conns s))"
  "accepting (with_conn l p s) = accepting s" "started (with_conn l p s) = started s"
  by (simp_all add: with_conn_def Let_def)

lemma with_conn_at:
  "j < length (conns s) \<Longrightarrow> conns (with_conn l p s) ! j = conns s ! j"
  "sc_name (conns (with_conn l p s) ! length (conns s)) = conn_name (ipPort s) (nextConnId s)"
  "sc_loop (conns (with_conn l p s) ! length (conns s)) = l"
  "conn_at (with_conn l p s) (length (conns s)) = fresh_connection"
  by (simp_all add: with_conn_def Let_def nth_append)

lemma no_new_tasks:
  assumes "server_inv s"
  shows "UserTask (Establish (length (conns s))) \<notin> set (queue_of s i)" "UserTask (RemoveConn (length (conns s))) \<notin> set (queue_of s i)"
  using server_invD(4) [OF assms, of _ i] by (auto simp: task_ok_def)

lemma with_conn_inv:
  assumes inv: "server_inv s" and small: "length (ipPort s) \<le> 45" "Suc (length (conns s)) < 2 ^ 32"
    and pool: "started s" "pool_ok p" "pool_started p"
  shows "server_inv (with_conn l p s)"
proof -
  note D = server_invD [OF inv]
  let ?s = "with_conn l p s" and ?n = "length (conns s)"
  have name: "sc_name (conns ?s ! j) = conn_name (ipPort s) (of_nat (Suc j))" if "j < Suc ?n" for j
    using that D(5) D(6) [of j] with_conn_at(1) [of j s l p] with_conn_at(2) [of l p s] by (cases "j = ?n") (auto simp: less_Suc_eq)
  have present_old: "present ?s j = present s j" if "j < ?n" for j
    using with_conn_at(1) [OF that] by (simp add: present_def)
  have present_new: "present ?s ?n"
    by (simp add: present_def with_conn_at fresh_connection_facts)
  have inj: "j = i" if "j < Suc ?n" "i < Suc ?n" "sc_name (conns ?s ! j) = sc_name (conns ?s ! i)" for i j
  proof -
    have "(of_nat (Suc j) :: int32) = of_nat (Suc i)"
      using that name conn_name_inj [OF _ small(1)] by metis
    moreover have "Suc j < 2 ^ 32" "Suc i < 2 ^ 32"
      using that(1,2) small(2) by auto
    ultimately show ?thesis
      using of_nat32_inj by blast
  qed
  have tasks: "\<exists>j. task_ok ?s i t j" if t: "t \<in> set (queue_of s i)" for t i
  proof -
    obtain j where j: "task_ok s i t j"
      using D(4) [OF t] by blast
    then have "j < ?n"
      by (simp add: task_ok_def)
    then have "task_ok ?s i t j"
      using j present_old with_conn_at(1) [of j s l p] by (auto simp: task_ok_def)
    then show ?thesis
      by blast
  qed
  have map: "connections ?s n = Some k \<longleftrightarrow> k < Suc ?n \<and> n = sc_name (conns ?s ! k) \<and> present ?s k" for n k
  proof (cases "k = ?n")
    case True
    have "connections s n \<noteq> Some ?n"
      using D(8) [of n ?n] by simp
    then show ?thesis
      using True present_new by (auto simp: with_conn_at)
  next
    case False
    show ?thesis
    proof (cases "n = conn_name (ipPort s) (nextConnId s)")
      case True
      then show ?thesis
        using False inj [of k ?n] by (auto simp: with_conn_at)
    next
      case ne: False
      then have "connections ?s n = Some k \<longleftrightarrow> connections s n = Some k"
        by simp
      also have "\<dots> \<longleftrightarrow> k < Suc ?n \<and> n = sc_name (conns ?s ! k) \<and> present ?s k"
        using D(8) [of n k] False present_old [of k] with_conn_at(1) [of k s l p] by (auto simp: less_Suc_eq)
      finally show ?thesis .
    qed
  qed
  have life: "lifecycle_ok (conn_state (conn_at ?s j)) (lifecycle (conn_at ?s j))" if "j < Suc ?n" for j
    using that D(7) [of j] with_conn_at(1) [of j s l p]
    by (cases "j = ?n") (auto simp: with_conn_at fresh_connection_facts less_Suc_eq)
  have "pool_inv ?s"
    using D(1) pool by (simp add: pool_inv_def)
  then show ?thesis
    unfolding server_inv_def with_conn_simps(1-4,6) using D(2,3,5) tasks map life name by auto
qed

lemma establish_posted:
  assumes inv: "server_inv s" and k: "k < length (conns s)" "not_begun (conn_at s k)" "l = sc_loop (conns s ! k)"
    and new: "UserTask (Establish k) \<notin> set (queue_of s l)"
  shows "server_inv (server_post l (Establish k) s)"
proof -
  note D = server_invD [OF inv]
  let ?s = "server_post l (Establish k) s"
  have p: "present ?s j = present s j" for j
    by (auto simp: present_def)
  have tasks: "\<exists>j. task_ok ?s i t j" if t: "t \<in> set (queue_of ?s i)" for t i
  proof (cases "t \<in> set (queue_of s i)")
    case True
    then obtain j where "task_ok s i t j"
      using D(4) by blast
    then have "task_ok ?s i t j"
      unfolding task_ok_def p by simp
    then show ?thesis
      by blast
  next
    case False
    then have "task_ok ?s i t k"
      using t k by (auto simp: task_ok_def split: if_splits)
    then show ?thesis
      by blast
  qed
  have "distinct (queue_of ?s i)" for i
    using D(3) [of i] new by auto
  then show ?thesis
    unfolding server_inv_def p using tasks D(1,2,5-8) by auto
qed

text \<open>
  The step of a connection that an input of the server contains: that of the input itself, the
  \<open>connectEstablished\<close> of a connection that the base loop serves itself, or what a posted function does. The
  other inputs have none.
\<close>

fun conn_step_of :: "server_input \<Rightarrow> TcpServer \<Rightarrow> (conn_step \<times> TcpConnection) option" where
  "conn_step_of Start s = None"
| "conn_step_of (Accepted error) s =
     (case IOLoopThreadPool_getNextIOLoop (threadPool s) of
        Inr (l, p) \<Rightarrow> if \<not> error \<and> l = 0 then Some (Established, fresh_connection) else None
      | Inl e \<Rightarrow> None)"
| "conn_step_of (ConnInput k st) s = Some (st, sc_conn (conns s ! k))"
| "conn_step_of (RunLoop l) s =
     (case loop_tasks (loops s l) of
        UserTask (Establish k) # ts \<Rightarrow> Some (Established, sc_conn (conns s ! k))
      | UserTask (Destroy k) # ts \<Rightarrow> Some (Destroyed, sc_conn (conns s ! k))
      | _ \<Rightarrow> None)"

text \<open>That step faults; a connection that is established is waiting for it, so it is not the assertion of
  \<open>connectEstablished\<close>, and \<open>connectDestroyed\<close> does not fault.\<close>

definition conn_fault :: "callbacks \<Rightarrow> socket_ops \<Rightarrow> server_input \<Rightarrow> TcpServer \<Rightarrow> fault \<Rightarrow> bool" where
  "conn_fault user so i s e \<longleftrightarrow> (\<exists>st c. conn_step_of i s = Some (st, c) \<and> tcp_step (owner_callbacks user) so st c = Inl e
     \<and> st \<noteq> Destroyed \<and> (st = Established \<longrightarrow> conn_state c = kConnecting))"

definition grows :: "TcpServer \<Rightarrow> TcpServer \<Rightarrow> bool" where
  "grows s s' \<longleftrightarrow> ipPort s' = ipPort s \<and>
     (\<exists>p. length (conns s') = Suc (length (conns s)) \<and> IOLoopThreadPool_getNextIOLoop (threadPool s) = Inr (p, threadPool s')
       \<and> (\<forall>j < length (conns s). sc_loop (conns s' ! j) = sc_loop (conns s ! j)) \<and> sc_loop (conns s' ! length (conns s)) = p)"

lemma newConnection_ok:
  assumes inv: "server_inv s" and on: "started s" and cb: "connectionCallback user \<noteq> None"
    and small: "length (ipPort s) \<le> 45" "Suc (length (conns s)) < 2 ^ 32"
  shows "(\<exists>e. TcpServer_newConnection user so 0 s = Inl e \<and> conn_fault user so (Accepted False) s e)
    \<or> (\<exists>s'. TcpServer_newConnection user so 0 s = Inr s' \<and> server_inv s' \<and> grows s s' \<and> started s' = started s)"
proof -
  note D = server_invD [OF inv]
  have "pool_ok (threadPool s)"
    using D(1) on by (simp add: pool_inv_def)
  then obtain p where p: "IOLoopThreadPool_getNextIOLoop (threadPool s) = Inr (loop_in_turn (threadPool s) 0, p)" "pool_ok p"
    using getNextIOLoop_ok by metis
  let ?l = "loop_in_turn (threadPool s) 0" let ?k = "length (conns s)"
  let ?s = "with_conn ?l p s"
  have "pool_started p"
    using p(2) by (simp add: pool_ok_def)
  then have inv1: "server_inv ?s"
    by (rule with_conn_inv [OF inv small on p(2)])
  have none: "UserTask (Establish ?k) \<notin> set (queue_of ?s i)" for i
    using no_new_tasks(1) [OF inv] by simp
  have eq: "TcpServer_newConnection user so 0 s = server_dispatch 0 ?l (Establish ?k) (server_conn_step user so ?k Established) ?s"
    unfolding TcpServer_newConnection_def new_connection
    using D(2) p(1) by (simp add: IOLoop_assertInLoopThread_def IOLoop_isInLoopThread_def with_conn_def Let_def)
  have id: "threadId (loops s ?l) = ?l"
    by (rule D(2))
  have grow: "grows s s'" if "same_places ?s s'" for s'
  proof -
    have "sc_loop (conns s' ! j) = sc_loop (conns s ! j)" if "j < ?k" for j
      using \<open>same_places ?s s'\<close> with_conn_at(1) [OF that] by (simp add: same_places_def)
    then show ?thesis
      using that p(1) with_conn_at(3) by (simp add: grows_def same_places_def)
  qed
  show ?thesis
  proof (cases "?l = 0")
    case True
    have run: "TcpServer_newConnection user so 0 s = server_conn_step user so ?k Established ?s"
      unfolding eq server_dispatch_def IOLoop_dispatch_def IOLoop_isInLoopThread_def with_conn_simps id using True by simp
    have k: "?k < length (conns ?s)" "length (ipPort ?s) \<le> 45" "length (conns ?s) < 2 ^ 32"
      using small by simp_all
    have "(\<exists>e. tcp_step (owner_callbacks user) so Established (conn_at ?s ?k) = Inl e \<and> server_conn_step user so ?k Established ?s = Inl e)
      \<or> (\<exists>s'. server_conn_step user so ?k Established ?s = Inr s' \<and> server_inv s' \<and> same_places ?s s')"
      by (rule conn_step_ok [OF inv1 k(1) cb k(2,3)]) (use none in blast)
    then show ?thesis
    proof
      assume "\<exists>e. tcp_step (owner_callbacks user) so Established (conn_at ?s ?k) = Inl e \<and> server_conn_step user so ?k Established ?s = Inl e"
      then have "\<exists>e. tcp_step (owner_callbacks user) so Established fresh_connection = Inl e \<and> server_conn_step user so ?k Established ?s = Inl e"
        by (simp add: with_conn_at)
      then show ?thesis
        unfolding run conn_fault_def using p(1) True fresh_connection_facts by (auto simp: not_begun_def)
    next
      assume "\<exists>s'. server_conn_step user so ?k Established ?s = Inr s' \<and> server_inv s' \<and> same_places ?s s'"
      then obtain s' where s': "server_conn_step user so ?k Established ?s = Inr s'" "server_inv s'" "same_places ?s s'"
        by blast
      have "started s' = started s"
        using s'(2,3) on server_invD(1) [of s'] p(2) by (simp add: pool_inv_def same_places_def pool_ok_def)
      then show ?thesis
        unfolding run using s' grow by blast
    qed
  next
    case False
    have run: "TcpServer_newConnection user so 0 s = Inr (server_post ?l (Establish ?k) ?s)"
      unfolding eq server_dispatch_def IOLoop_dispatch_def IOLoop_isInLoopThread_def with_conn_simps id using False
      by (simp add: server_post_def)
    have "server_inv (server_post ?l (Establish ?k) ?s)"
      by (rule establish_posted [OF inv1]) (simp_all add: with_conn_at fresh_connection_facts no_new_tasks(1) [OF inv])
    moreover have "same_places ?s (server_post ?l (Establish ?k) ?s)"
      by (simp add: same_places_def)
    ultimately show ?thesis
      unfolding run using grow by (auto simp: server_post_def)
  qed
qed

text \<open>A function taken from a queue.\<close>

definition pop :: "nat \<Rightarrow> server_task loop_task list \<Rightarrow> TcpServer \<Rightarrow> TcpServer" where
  "pop l ts s = s\<lparr>loops := (loops s)(l := (loops s l)\<lparr>loop_tasks := ts\<rparr>)\<rparr>"

lemma pop_simps [simp]:
  "queue_of (pop l ts s) i = (if i = l then ts else queue_of s i)" "threadId (loops (pop l ts s) i) = threadId (loops s i)"
  "conns (pop l ts s) = conns s" "connections (pop l ts s) = connections s" "ipPort (pop l ts s) = ipPort s"
  "nextConnId (pop l ts s) = nextConnId s" "threadPool (pop l ts s) = threadPool s" "pool_inv (pop l ts s) = pool_inv s"
  by (simp_all add: pop_def pool_inv_def)

lemma pop_inv:
  assumes inv: "server_inv s" and q: "queue_of s l = t # ts" and t: "\<And>k. t \<noteq> UserTask (RemoveConn k)"
  shows "server_inv (pop l ts s)"
proof -
  note D = server_invD [OF inv]
  let ?s = "pop l ts s"
  have p: "present ?s k = present s k" for k
    using q t [of k] by (cases "l = 0") (auto simp: present_def)
  have sub: "set (queue_of ?s i) \<subseteq> set (queue_of s i)" for i
    using q by auto
  have tasks: "\<exists>j. task_ok ?s i u j" if u: "u \<in> set (queue_of ?s i)" for u i
  proof -
    obtain j where "task_ok s i u j"
      using D(4) [of u i] sub u by blast
    then have "task_ok ?s i u j"
      unfolding task_ok_def p by simp
    then show ?thesis
      by blast
  qed
  have "distinct (queue_of ?s i)" for i
    using D(3) [of i] q by auto
  then show ?thesis
    unfolding server_inv_def p using tasks D(1,2,5-8) by auto
qed

lemma pop_leaving:
  assumes inv: "server_inv s" and q: "queue_of s l = UserTask (RemoveConn k) # ts"
  shows "l = 0" "about_to_leave (pop l ts s) k"
proof -
  note D = server_invD [OF inv]
  let ?s = "pop l ts s"
  have t: "task_ok s l (UserTask (RemoveConn k)) k"
    using D(4) [of "UserTask (RemoveConn k)" l] q by (auto simp: task_ok_def)
  then show l: "l = 0"
    by (simp add: task_ok_def)
  have there: "present s k"
    using q l by (simp add: present_def)
  have p: "present ?s j = present s j" if "j \<noteq> k" for j
    using q l that by (auto simp: present_def)
  have sub: "set (queue_of ?s i) \<subseteq> set (queue_of s i)" for i
    using q by auto
  have new: "UserTask (RemoveConn k) \<notin> set (queue_of ?s 0)"
    using D(3) [of 0] q l by simp
  have tasks: "u \<noteq> UserTask (Destroy k) \<and> (\<exists>j. task_ok ?s i u j)" if u: "u \<in> set (queue_of ?s i)" for u i
  proof -
    obtain j where j: "task_ok s i u j"
      using D(4) [of u i] sub u by blast
    then have "u \<noteq> UserTask (Destroy k)"
      using there by (auto simp: task_ok_def)
    moreover have "task_ok ?s i u j"
      using j p calculation unfolding task_ok_def by auto
    ultimately show ?thesis
      by blast
  qed
  have dist: "distinct (queue_of ?s i)" for i
    using D(3) [of i] q by auto
  have map: "connections s n = Some j \<longleftrightarrow> j < length (conns s) \<and> n = sc_name (conns s ! j) \<and> (j = k \<or> present ?s j)" for n j
    using D(8) [of n j] there p [of j] by (cases "j = k") simp_all
  have k: "k < length (conns s)" "closed (conn_at s k)"
    using t by (simp_all add: task_ok_def)
  show "about_to_leave ?s k"
    unfolding about_to_leave_def pop_simps(2-8)
    by (intro conjI allI impI ballI) (use new tasks dist map D(1,2,5-7) k in blast)+
qed

text \<open>What a step of the server does to its pool and to the number of its connections.\<close>

definition moves :: "TcpServer \<Rightarrow> TcpServer \<Rightarrow> bool" where
  "moves s s' \<longleftrightarrow> ipPort s' = ipPort s \<and>
     (same_places s s' \<and> started s' = started s
      \<or> grows s s' \<and> started s \<and> started s'
      \<or> \<not> started s \<and> started s' \<and> IOLoopThreadPool_run (threadPool s) = Inr (threadPool s') \<and> conns s' = conns s)"

lemma moves_length: "moves s s' \<Longrightarrow> length (conns s) \<le> length (conns s') \<and> ipPort s' = ipPort s"
  by (auto simp: moves_def same_places_def grows_def)

lemma same_places_moves:
  assumes "same_places s s'" "server_inv s" "server_inv s'"
  shows "moves s s'"
  using assms server_invD(1) [OF assms(2)] server_invD(1) [OF assms(3)] by (simp add: moves_def same_places_def pool_inv_def)

lemma accepting_moves: "moves (s\<lparr>accepting := a\<rparr>) s' \<Longrightarrow> moves s (s'\<lparr>accepting := b\<rparr>)"
  by (auto simp: moves_def same_places_def grows_def)

lemma start_ok:
  assumes "server_inv s"
  shows "\<exists>s'. TcpServer_start s = Inr s' \<and> server_inv s' \<and> moves s s'"
proof (cases "started s")
  case True
  then show ?thesis
    using assms by (simp add: TcpServer_start_def moves_def same_places_def)
next
  case False
  note D = server_invD [OF assms]
  have off: "\<not> pool_started (threadPool s)" "io_contexts (threadPool s) = []" "next (threadPool s) = 0"
    using D(1) False by (simp_all add: pool_inv_def)
  obtain p where p: "IOLoopThreadPool_run (threadPool s) = Inr p" "pool_started p"
    using off(1) by (simp add: IOLoopThreadPool_run_def)
  have ok: "pool_ok p"
    by (rule run_pool_ok [OF p(1) off(2,3)])
  let ?s = "s\<lparr>started := True, threadPool := p, accepting := True\<rparr>"
  have "present ?s = present s" "task_ok ?s = task_ok s"
    by (simp_all add: present_def task_ok_def fun_eq_iff)
  then have "server_inv ?s"
    using assms p(2) ok unfolding server_inv_def by (simp add: pool_inv_def)
  moreover have "moves s ?s"
    using False p(1) by (simp add: moves_def)
  ultimately show ?thesis
    using False p(1) by (simp add: TcpServer_start_def Acceptor_start_def)
qed

lemma on_accept_ok:
  assumes inv: "server_inv s" and on: "accepting s" and cb: "connectionCallback user \<noteq> None"
    and small: "length (ipPort s) \<le> 45" "Suc (length (conns s)) < 2 ^ 32"
  shows "(\<exists>e. on_accept user so error s = Inl e \<and> conn_fault user so (Accepted error) s e)
    \<or> (\<exists>s'. on_accept user so error s = Inr s' \<and> server_inv s' \<and> moves s s')"
proof -
  let ?s = "s\<lparr>accepting := False\<rparr>"
  have st: "started s"
    using server_invD(1) [OF inv] on by (auto simp: pool_inv_def)
  have inv0: "server_inv ?s"
    by (rule accepting_inv [OF inv]) simp
  have again: "server_inv (Acceptor_start s') \<and> moves s (Acceptor_start s')"
    if s': "server_inv s'" "moves ?s s'" "started s'" for s'
    unfolding Acceptor_start_def using accepting_inv [OF s'(1), of True] s'(3) accepting_moves [OF s'(2)] by simp
  have fault: "conn_fault user so (Accepted False) ?s = conn_fault user so (Accepted False) s"
    by (simp add: conn_fault_def fun_eq_iff)
  show ?thesis
  proof (cases error)
    case True
    have "moves ?s ?s"
      by (simp add: moves_def same_places_def)
    then show ?thesis
      using again [OF inv0] st True by (simp add: on_accept_def)
  next
    case False
    have "(\<exists>e. TcpServer_newConnection user so 0 ?s = Inl e \<and> conn_fault user so (Accepted False) ?s e)
      \<or> (\<exists>s'. TcpServer_newConnection user so 0 ?s = Inr s' \<and> server_inv s' \<and> grows ?s s' \<and> started s' = started ?s)"
      by (rule newConnection_ok [OF inv0 _ cb]) (use st small in simp_all)
    then show ?thesis
    proof (elim disjE exE conjE)
      fix s'
      assume s': "TcpServer_newConnection user so 0 ?s = Inr s'" "server_inv s'" "grows ?s s'" "started s' = started ?s"
      have "ipPort s' = ipPort s" "started s'"
        using s'(3,4) st by (simp_all add: grows_def)
      then have "moves ?s s'"
        using s'(3) st by (simp add: moves_def)
      then show ?thesis
        using again [OF s'(2)] \<open>started s'\<close> s'(1) False by (simp add: on_accept_def)
    qed (use False fault in \<open>simp add: on_accept_def\<close>)
  qed
qed

lemma run_loop_ok:
  assumes inv: "server_inv s" and cb: "connectionCallback user \<noteq> None" and q: "queue_of s l = t # ts"
    and small: "length (ipPort s) \<le> 45" "Suc (length (conns s)) < 2 ^ 32"
  shows "(\<exists>e. server_step user so (RunLoop l) s = Inl e \<and> conn_fault user so (RunLoop l) s e)
    \<or> (\<exists>s'. server_step user so (RunLoop l) s = Inr s' \<and> server_inv s' \<and> moves s s')"
proof -
  note D = server_invD [OF inv]
  let ?s = "pop l ts s"
  obtain k where k: "task_ok s l t k"
    using D(4) [of t l] q by auto
  have kl: "k < length (conns ?s)"
    using k by (simp add: task_ok_def)
  have small': "length (ipPort ?s) \<le> 45" "length (conns ?s) < 2 ^ 32"
    using small by simp_all
  have places: "same_places s s'" if "same_places ?s s'" for s'
    using that by (simp add: same_places_def)
  consider (e) "t = UserTask (Establish k)" "l = sc_loop (conns s ! k)" "not_begun (conn_at s k)"
    | (r) "t = UserTask (RemoveConn k)" | (d) "t = UserTask (Destroy k)" "\<not> present s k" "l = sc_loop (conns s ! k)"
    using k by (auto simp: task_ok_def)
  then show ?thesis
  proof cases
    case e
    have inv1: "server_inv ?s"
      by (rule pop_inv [OF inv q]) (simp add: e(1))
    have none: "UserTask (Establish k) \<notin> set (queue_of ?s i)" for i
    proof (cases "i = l")
      case True
      then show ?thesis
        using D(3) [of l] q e(1) by simp
    next
      case False
      then show ?thesis
        using D(4) [of "UserTask (Establish k)" i] e(2) by (auto simp: task_ok_def)
    qed
    have step: "server_step user so (RunLoop l) s = server_conn_step user so k Established ?s"
      using q e(1,2) D(2) by (simp add: pop_def IOLoop_assertInLoopThread_def IOLoop_isInLoopThread_def)
    have "(\<exists>f. tcp_step (owner_callbacks user) so Established (conn_at ?s k) = Inl f \<and> server_conn_step user so k Established ?s = Inl f)
      \<or> (\<exists>s'. server_conn_step user so k Established ?s = Inr s' \<and> server_inv s' \<and> same_places ?s s')"
      by (rule conn_step_ok [OF inv1 kl cb small']) (use none in blast)
    then show ?thesis
    proof (elim disjE exE conjE)
      fix f
      assume "tcp_step (owner_callbacks user) so Established (conn_at ?s k) = Inl f" "server_conn_step user so k Established ?s = Inl f"
      moreover have "conn_fault user so (RunLoop l) s f"
        using calculation q e(1,3) by (simp add: conn_fault_def not_begun_def)
      ultimately show ?thesis
        unfolding step by blast
    next
      fix s'
      assume "server_conn_step user so k Established ?s = Inr s'" "server_inv s'" "same_places ?s s'"
      then show ?thesis
        unfolding step using same_places_moves [OF places inv] by blast
    qed
  next
    case r
    have l: "l = 0" "about_to_leave ?s k"
      using pop_leaving [OF inv, of l k ts] q r by simp_all
    obtain s' where s': "TcpServer_removeConnectionInThisThread 0 k ?s = Inr s'" "server_inv s'" "conns s' = conns ?s"
      "ipPort s' = ipPort ?s" "threadPool s' = threadPool ?s"
      by (rule removeConnectionInThisThread_ok [OF l(2) small'])
    have "server_step user so (RunLoop l) s = Inr s'"
      using q r s'(1) l(1) by (simp add: pop_def)
    moreover have "same_places s s'"
      using s' by (simp add: same_places_def)
    ultimately show ?thesis
      using same_places_moves [OF _ inv s'(2)] s'(2) by blast
  next
    case d
    have inv1: "server_inv ?s"
      by (rule pop_inv [OF inv q]) (simp add: d(1))
    have c: "closed (conn_at s k)"
      using d(2) by (simp add: present_def)
    have "k < length (conns s)"
      using kl by simp
    then have dis: "conn_state (conn_at s k) = kDisconnected"
      using closed_disconnected [OF D(7) c] by simp
    have none: "UserTask (Establish k) \<notin> set (queue_of ?s i)" for i
    proof
      assume "UserTask (Establish k) \<in> set (queue_of ?s i)"
      then have "UserTask (Establish k) \<in> set (queue_of s i)"
        using q by (simp split: if_splits)
      then have "not_begun (conn_at s k)"
        using D(4) [of "UserTask (Establish k)" i] by (auto simp: task_ok_def)
      then show False
        using dis by (simp add: not_begun_def)
    qed
    have step: "server_step user so (RunLoop l) s = server_conn_step user so k Destroyed ?s"
      using q d(1,3) D(2) by (simp add: pop_def IOLoop_assertInLoopThread_def IOLoop_isInLoopThread_def)
    have "tcp_step (owner_callbacks user) so Destroyed (conn_at ?s k) = Inr (conn_at ?s k)"
      using dis by (simp add: TcpConnection_connectDestroyed_def)
    moreover have "(\<exists>f. tcp_step (owner_callbacks user) so Destroyed (conn_at ?s k) = Inl f \<and> server_conn_step user so k Destroyed ?s = Inl f)
      \<or> (\<exists>s'. server_conn_step user so k Destroyed ?s = Inr s' \<and> server_inv s' \<and> same_places ?s s')"
      by (rule conn_step_ok [OF inv1 kl cb small']) (use none in blast)
    ultimately show ?thesis
      unfolding step using same_places_moves [OF places inv] by auto
  qed
qed

lemma server_step_ok:
  assumes inv: "server_inv s" and en: "server_enabled i s" and cb: "connectionCallback user \<noteq> None"
    and small: "length (ipPort s) \<le> 45" "Suc (length (conns s)) < 2 ^ 32"
  shows "(\<exists>e. server_step user so i s = Inl e \<and> conn_fault user so i s e)
    \<or> (\<exists>s'. server_step user so i s = Inr s' \<and> server_inv s' \<and> moves s s')"
proof (cases i)
  case Start
  then show ?thesis
    using start_ok [OF inv] by simp
next
  case (Accepted error)
  then show ?thesis
    using on_accept_ok [OF inv _ cb small, of so error] en by simp
next
  case (ConnInput k st)
  have k: "k < length (conns s)" "st \<noteq> Established" "st \<noteq> Destroyed" "enabled st (conn_at s k)"
    using en ConnInput by auto
  have "(\<exists>e. tcp_step (owner_callbacks user) so st (conn_at s k) = Inl e \<and> server_conn_step user so k st s = Inl e)
    \<or> (\<exists>s'. server_conn_step user so k st s = Inr s' \<and> server_inv s' \<and> same_places s s')"
    by (rule conn_step_ok [OF inv k(1) cb small(1)]) (use small(2) k in simp_all)
  then show ?thesis
    unfolding ConnInput server_step.simps using same_places_moves [OF _ inv] k(2,3) by (auto simp: conn_fault_def)
next
  case (RunLoop l)
  then obtain t ts where "queue_of s l = t # ts"
    using en by (cases "queue_of s l") auto
  then show ?thesis
    unfolding RunLoop by (rule run_loop_ok [OF inv cb _ small])
qed

text \<open>Conversely, the server's step faults when that of the connection does.\<close>

lemma conn_step_returns:
  assumes inv: "server_inv s" and "server_step user so i s = Inr s'" "conn_step_of i s = Some (st, c)"
  shows "\<exists>c'. tcp_step (owner_callbacks user) so st c = Inr c'"
proof -
  have conn: "\<exists>c'. tcp_step (owner_callbacks user) so st (conn_at s1 k) = Inr c'"
    if "server_conn_step user so k st s1 = Inr s2" for s1 k s2 st
    using that by (auto simp: server_conn_step_def rbind_eq_Inr Let_def)
  show ?thesis
  proof (cases i)
    case (Accepted error)
    then obtain p where p: "IOLoopThreadPool_getNextIOLoop (threadPool s) = Inr (0, p)" "\<not> error"
      and c: "st = Established" "c = fresh_connection"
      using assms(3) by (auto split: sum.splits if_splits)
    have id: "threadId (loops s 0) = 0"
      by (rule server_invD(2) [OF inv])
    obtain s2 where "server_conn_step user so (length (conns s)) Established (with_conn 0 p (s\<lparr>accepting := False\<rparr>)) = Inr s2"
      using assms(2) Accepted p id
      by (auto simp: on_accept_def TcpServer_newConnection_def new_connection rbind_eq_Inr Let_def server_dispatch_def
          IOLoop_dispatch_def IOLoop_isInLoopThread_def with_conn_def split: if_splits)
    then show ?thesis
      using conn with_conn_at(4) [of 0 p "s\<lparr>accepting := False\<rparr>"] c by fastforce
  next
    case (ConnInput k st')
    then show ?thesis
      using assms(2,3) conn by auto
  next
    case (RunLoop l)
    then show ?thesis
      using assms(2,3) conn
      by (auto simp: rbind_eq_Inr split: list.splits loop_task.splits server_task.splits) fastforce+
  qed (use assms(3) in simp)
qed

section \<open>Properties\<close>

abbreviation configured :: "string \<Rightarrow> int \<Rightarrow> TcpServer" where
  "configured ip n \<equiv> TcpServer_setThreadNum n (TcpServer_new ip)"

lemma server_inv_start: "server_inv (configured ip n)"
  by (simp add: server_inv_def pool_inv_def TcpServer_setThreadNum_def TcpServer_new_def
      IOLoopThreadPool_setThreadNum_def IOLoopThreadPool_new_def)

text \<open>The loops of the connections, for a pool of \<open>n\<close> threads.\<close>

definition loop_of :: "int \<Rightarrow> nat \<Rightarrow> nat" where
  "loop_of n k = (if n mod 2 ^ 32 = 0 then 0 else Suc (k mod nat (n mod 2 ^ 32)))"

definition turn_inv :: "int \<Rightarrow> TcpServer \<Rightarrow> bool" where
  "turn_inv n s \<longleftrightarrow>
     (if started s then pool_ok (threadPool s) \<and> (\<forall>i. loop_in_turn (threadPool s) i = loop_of n (length (conns s) + i))
      else conns s = [] \<and> threadPool s = IOLoopThreadPool_setThreadNum n (IOLoopThreadPool_new 0))
     \<and> (\<forall>k < length (conns s). sc_loop (conns s ! k) = loop_of n k)"

lemma turn_inv_moves:
  assumes "turn_inv n s" "moves s s'"
  shows "turn_inv n s'"
proof -
  consider (same) "same_places s s'" "started s' = started s" | (grow) "grows s s'" "started s" "started s'"
    | (run) "\<not> started s" "started s'" "IOLoopThreadPool_run (threadPool s) = Inr (threadPool s')" "conns s' = conns s"
    using assms(2) by (auto simp: moves_def)
  then show ?thesis
  proof cases
    case same
    then show ?thesis
      using assms(1) by (auto simp: turn_inv_def same_places_def)
  next
    case grow
    have t: "pool_ok (threadPool s)" "\<And>i. loop_in_turn (threadPool s) i = loop_of n (length (conns s) + i)"
      "\<And>k. k < length (conns s) \<Longrightarrow> sc_loop (conns s ! k) = loop_of n k"
      using assms(1) grow(2) by (simp_all add: turn_inv_def)
    obtain p where p: "length (conns s') = Suc (length (conns s))" "IOLoopThreadPool_getNextIOLoop (threadPool s) = Inr (p, threadPool s')"
      "\<And>j. j < length (conns s) \<Longrightarrow> sc_loop (conns s' ! j) = sc_loop (conns s ! j)" "sc_loop (conns s' ! length (conns s)) = p"
      using grow(1) by (auto simp: grows_def)
    obtain q where q: "IOLoopThreadPool_getNextIOLoop (threadPool s) = Inr (loop_in_turn (threadPool s) 0, q)" "pool_ok q"
      "\<And>k. loop_in_turn q k = loop_in_turn (threadPool s) (Suc k)"
      by (rule getNextIOLoop_ok [OF t(1)]) (rule that)
    have "p = loop_of n (length (conns s))" "threadPool s' = q"
      using p(2) q(1) t(2) [of 0] by simp_all
    moreover have "sc_loop (conns s' ! k) = loop_of n k" if "k < Suc (length (conns s))" for k
      using that p(3,4) t(3) calculation(1) by (cases "k = length (conns s)") auto
    ultimately show ?thesis
      using grow(3) p(1) q(2,3) t(2) by (simp add: turn_inv_def)
  next
    case run
    have off: "conns s = []" "threadPool s = IOLoopThreadPool_setThreadNum n (IOLoopThreadPool_new 0)"
      using assms(1) run(1) by (simp_all add: turn_inv_def)
    have u: "unat (word_of_int n :: int32) = nat (n mod 2 ^ 32)"
      by (simp only: unat_eq_nat_uint uint_word_of_int) simp
    have p: "pool_ok (threadPool s')" "next (threadPool s') = 0"
      "io_contexts (threadPool s') = map Suc [0..<nat (n mod 2 ^ 32)]" "baseLoop (threadPool s') = 0"
      using run_pool_ok [OF run(3)] off(2) u by (simp_all add: IOLoopThreadPool_setThreadNum_def IOLoopThreadPool_new_def)
    have "0 \<le> n mod 2 ^ 32"
      by simp
    then have "loop_in_turn (threadPool s') i = loop_of n i" for i
      unfolding loop_in_turn_def p(2-4) loop_of_def by auto
    then show ?thesis
      using run(2,4) off(1) p(1) by (simp add: turn_inv_def)
  qed
qed

text \<open>Connections are only added.\<close>

lemma removeConnection_length:
  "TcpServer_removeConnectionInThisThread tid k s = Inr s' \<Longrightarrow> length (conns s') = length (conns s)"
  "TcpServer_removeConnection tid k s = Inr s' \<Longrightarrow> length (conns s') = length (conns s)"
  by (auto simp: TcpServer_removeConnectionInThisThread_def TcpServer_removeConnection_def server_dispatch_def
      rbind_eq_Inr Let_def split: if_splits option.splits prod.splits)

lemma conn_step_length: "server_conn_step user so k st s = Inr s' \<Longrightarrow> length (conns s') = length (conns s)"
  by (auto simp: server_conn_step_def rbind_eq_Inr Let_def dest: removeConnection_length split: if_splits)

lemma server_dispatch_length:
  assumes "server_dispatch tid l t now s = Inr s'" "\<And>s1. now s = Inr s1 \<Longrightarrow> length (conns s1) = length (conns s)"
  shows "length (conns s') = length (conns s)"
  using assms by (cases "IOLoop_dispatch tid t (loops s l)") (auto simp: server_dispatch_def split: option.splits)

lemma newConnection_length:
  assumes "TcpServer_newConnection user so tid s = Inr s'"
  shows "length (conns s') = Suc (length (conns s))"
proof -
  obtain l p where "server_dispatch tid l (Establish (length (conns s))) (server_conn_step user so (length (conns s)) Established)
    (with_conn l p s) = Inr s'"
    using assms unfolding TcpServer_newConnection_def new_connection by (auto simp: rbind_eq_Inr with_conn_def Let_def)
  then show ?thesis
    using server_dispatch_length conn_step_length by fastforce
qed

lemma server_step_length:
  assumes "server_step user so i s = Inr s'"
  shows "length (conns s) \<le> length (conns s')"
proof (cases i)
  case Start
  then show ?thesis
    using assms by (auto simp: TcpServer_start_def Acceptor_start_def rbind_eq_Inr split: if_splits)
next
  case (Accepted error)
  then show ?thesis
    using assms by (auto simp: on_accept_def Acceptor_start_def rbind_eq_Inr dest: newConnection_length split: if_splits)
next
  case (ConnInput k st)
  then show ?thesis
    using assms by (auto dest: conn_step_length)
next
  case (RunLoop l)
  have "length (conns s') = length (conns s0)" if "run_server_task user so l t s0 = Inr s'" for t s0
    using that by (cases t) (auto simp: rbind_eq_Inr dest: conn_step_length removeConnection_length)
  then show ?thesis
    using assms RunLoop by (fastforce split: list.splits loop_task.splits)
qed

lemma reach_inv:
  assumes "server_reach user so (configured ip n) s" "connectionCallback user \<noteq> None" "length ip \<le> 45" "Suc (length (conns s)) < 2 ^ 32"
  shows "server_inv s \<and> ipPort s = ip \<and> turn_inv n s"
  using assms
proof (induction rule: server_reach.induct)
  case srv_start
  have "turn_inv n (configured ip n)" "ipPort (configured ip n) = ip"
    by (simp_all add: turn_inv_def TcpServer_setThreadNum_def TcpServer_new_def)
  then show ?case
    using server_inv_start by blast
next
  case (srv_step s i s')
  have small: "Suc (length (conns s)) < 2 ^ 32"
    using server_step_length [OF srv_step.hyps(3)] srv_step.prems(3) by linarith
  then have s: "server_inv s" "ipPort s = ip" "turn_inv n s"
    using srv_step by blast+
  have "server_inv s' \<and> moves s s'"
    using server_step_ok [OF s(1) srv_step.hyps(2) srv_step.prems(1), of so] srv_step.hyps(3) srv_step.prems(2) s(2) small by auto
  then show ?case
    using turn_inv_moves [OF s(3)] moves_length [of s s'] s(2) by auto
qed


text \<open>C23. In every state the map of connections holds exactly those that are open or whose removal
  still waits in the base loop, each under the name it was given, and no name is used twice: a
  connection leaves the map once, after its close callback.\<close>

theorem TcpServer_map_tracks_connections:
  assumes "server_reach user so (TcpServer_setThreadNum n (TcpServer_new ip)) s"
    and "connectionCallback user \<noteq> None" "length ip \<le> 45" "Suc (length (conns s)) < 2 ^ 32"
  shows "(\<forall>name k. connections s name = Some k \<longleftrightarrow> k < length (conns s) \<and> name = conn_name ip (of_nat (Suc k))
      \<and> (OnClose \<notin> set (events (sc_conn (conns s ! k))) \<or> UserTask (RemoveConn k) \<in> set (loop_tasks (loops s 0))))
    \<and> inj_on (\<lambda>k. conn_name ip (of_nat (Suc k))) {..<length (conns s)}"
proof
  have inv: "server_inv s" "ipPort s = ip"
    using reach_inv [OF assms] by simp_all
  show "\<forall>name k. connections s name = Some k \<longleftrightarrow> k < length (conns s) \<and> name = conn_name ip (of_nat (Suc k))
    \<and> (OnClose \<notin> set (events (conn_at s k)) \<or> UserTask (RemoveConn k) \<in> set (queue_of s 0))"
    unfolding server_invD(8) [OF inv(1)] present_def closed_def using server_invD(6) [OF inv(1)] inv(2) by auto
  show "inj_on (\<lambda>k. conn_name ip (of_nat (Suc k))) {..<length (conns s)}"
    using names_inj [OF inv(1)] assms(3,4) inv(2) server_invD(6) [OF inv(1)] by (auto intro!: inj_onI)
qed

text \<open>C24. For a server with a connection callback, an address of at most 45 characters and fewer than
  \<open>2^32\<close> connections, none of the server's own checks fails in a run (that each function runs in the
  thread of the loop it belongs to, a connection's own or the base loop, that the removed name was in the
  map, those of the pool, that of \<open>connectEstablished\<close>): an input makes the server fault exactly when it
  contains a step of a connection and that very step, in the state which that connection is in, faults.\<close>

theorem TcpServer_faults_are_of_connections:
  assumes "server_reach user so (TcpServer_setThreadNum n (TcpServer_new ip)) s"
    and "connectionCallback user \<noteq> None" "length ip \<le> 45" "Suc (length (conns s)) < 2 ^ 32"
    and "server_enabled i s"
  shows "server_step user so i s = Inl e \<longleftrightarrow>
    (\<exists>st c. conn_step_of i s = Some (st, c) \<and> tcp_step (owner_callbacks user) so st c = Inl e
       \<and> st \<noteq> Destroyed \<and> (st = Established \<longrightarrow> conn_state c = kConnecting))"
proof -
  have inv: "server_inv s" "ipPort s = ip"
    using reach_inv [OF assms(1-4)] by simp_all
  have ok: "(\<exists>e. server_step user so i s = Inl e \<and> conn_fault user so i s e) \<or> (\<exists>s'. server_step user so i s = Inr s')"
    using server_step_ok [OF inv(1) assms(5,2)] inv(2) assms(3,4) by blast
  show ?thesis
    using ok conn_step_returns [OF inv(1)] unfolding conn_fault_def by fastforce
qed

text \<open>C25. The connections are given to the threads in turn: the \<open>k\<close>-th accepted one is served by thread
  \<open>k mod n + 1\<close> of \<open>n\<close>, by the base loop when there are none.\<close>

theorem TcpServer_round_robin:
  assumes "server_reach user so (TcpServer_setThreadNum n (TcpServer_new ip)) s"
    and "connectionCallback user \<noteq> None" "length ip \<le> 45" "Suc (length (conns s)) < 2 ^ 32" "k < length (conns s)"
  shows "sc_loop (conns s ! k) = (if n mod 2 ^ 32 = 0 then 0 else Suc (k mod nat (n mod 2 ^ 32)))"
  using reach_inv [OF assms(1-4)] assms(5) by (simp add: turn_inv_def loop_of_def)

fun server_run :: "callbacks \<Rightarrow> socket_ops \<Rightarrow> server_input list \<Rightarrow> TcpServer \<Rightarrow> TcpServer result" where
  "server_run user so [] s = Inr s"
| "server_run user so (i # is) s =
     (if server_enabled i s then rbind (server_step user so i s) (server_run user so is) else Inr s)"

lemma server_run_reach:
  assumes "server_reach user so s0 s" "server_run user so is s = Inr s'"
  shows "server_reach user so s0 s'"
  using assms
  by (induction "is" arbitrary: s) (auto simp: rbind_eq_Inr intro: srv_step split: if_splits)

text \<open>Two connections of a server with two threads; the first one's peer closes it.\<close>

definition two_conns :: "server_input list" where
  "two_conns = [Start, Accepted False, RunLoop 1, Accepted True, Accepted False, ConnInput 0 ReadFail, RunLoop 0, RunLoop 1]"

lemmas server_evals = TcpServer_setThreadNum_def TcpServer_new_def TcpServer_start_def IOLoopThreadPool_setThreadNum_def
  IOLoopThreadPool_new_def IOLoopThreadPool_run_def Acceptor_start_def on_accept_def TcpServer_newConnection_def
  IOLoop_assertInLoopThread_def IOLoop_isInLoopThread_def IOLoopThreadPool_getNextIOLoop_def new_connection
  server_dispatch_def IOLoop_dispatch_def IOLoop_post_def upt_rec server_conn_step_def set_conn_def owner_callbacks_def
  server_post_def TcpServer_removeConnection_def TcpServer_removeConnectionInThisThread_def
  no_callbacks_def fresh_connection_def TcpConnection_connectEstablished_def TcpConnection_setState_def
  TcpConnection_readHeader_def invoke_if_def invoke_def log_event_def on_read_def on_readHeader_def TcpConnection_handleClose_def
  TcpConnection_connectDestroyed_def closes_def Let_def fresh_buffer_def

lemma two_names: "conn_name ''::1'' 1 \<noteq> conn_name ''::1'' 2"
  using conn_name_inj [of "''::1''" 1 2] by auto

lemma two_conns_run:
  obtains s where "server_run no_callbacks bswap_ops two_conns (TcpServer_setThreadNum 2 (TcpServer_new ''::1'')) = Inr s"
    "length (conns s) = 2" "events (sc_conn (conns s ! 1)) = []" "OnClose \<in> set (events (sc_conn (conns s ! 0)))"
    "loop_tasks (loops s 0) = []"
  by (simp add: two_conns_def server_evals two_names two_names [symmetric])

lemma TcpServer_map_tracks_connections_witness:
  "\<exists>s. server_run no_callbacks bswap_ops two_conns (TcpServer_setThreadNum 2 (TcpServer_new ''::1'')) = Inr s
     \<and> connections s (conn_name ''::1'' 2) = Some 1 \<and> connections s (conn_name ''::1'' 1) = None"
proof -
  obtain s where s: "server_run no_callbacks bswap_ops two_conns (TcpServer_setThreadNum 2 (TcpServer_new ''::1'')) = Inr s"
    "length (conns s) = 2" "events (sc_conn (conns s ! 1)) = []" "OnClose \<in> set (events (sc_conn (conns s ! 0)))"
    "loop_tasks (loops s 0) = []"
    by (rule two_conns_run)
  have iff: "connections s name = Some k \<longleftrightarrow> k < 2 \<and> name = conn_name ''::1'' (of_nat (Suc k)) \<and>
      OnClose \<notin> set (events (sc_conn (conns s ! k)))" for name k
    using TcpServer_map_tracks_connections [OF server_run_reach [OF srv_start s(1)]] s(2,5) by (simp add: no_callbacks_def)
  have "connections s (conn_name ''::1'' 1) \<noteq> Some k" for k
    using iff [of "conn_name ''::1'' 1" k] s(4) two_names by (cases "k = 0") (auto simp: less_2_cases_iff)
  then show ?thesis
    using s(1,3) iff [of "conn_name ''::1'' 2" 1] by auto
qed

lemma TcpServer_round_robin_witness:
  "\<exists>s. server_run no_callbacks bswap_ops two_conns (TcpServer_setThreadNum 2 (TcpServer_new ''::1'')) = Inr s
     \<and> sc_loop (conns s ! 0) = 1 \<and> sc_loop (conns s ! 1) = 2"
proof -
  obtain s where s: "server_run no_callbacks bswap_ops two_conns (TcpServer_setThreadNum 2 (TcpServer_new ''::1'')) = Inr s"
    "length (conns s) = 2"
    by (rule two_conns_run)
  have "sc_loop (conns s ! k) = Suc (k mod nat (2 mod 2 ^ 32))" if "k < 2" for k
    using TcpServer_round_robin [OF server_run_reach [OF srv_start s(1)], of k] s(2) that by (simp add: no_callbacks_def)
  from this [of 0] this [of 1] show ?thesis
    using s(1) by simp
qed

text \<open>A connection callback that takes a byte where there is none.\<close>

definition greedy_callbacks :: callbacks where
  "greedy_callbacks = no_callbacks\<lparr>connectionCallback := Some (\<lambda>_. [Consume 1])\<rparr>"

lemma TcpServer_faults_are_of_connections_witness:
  "\<exists>s. TcpServer_start (TcpServer_setThreadNum 0 (TcpServer_new ''::1'')) = Inr s
     \<and> tcp_step (owner_callbacks greedy_callbacks) bswap_ops Established fresh_connection = Inl AssertFailed
     \<and> server_step greedy_callbacks bswap_ops (Accepted False) s = Inl AssertFailed"
proof -
  obtain s where s: "server_run greedy_callbacks bswap_ops [Start] (TcpServer_setThreadNum 0 (TcpServer_new ''::1'')) = Inr s"
    "TcpServer_start (TcpServer_setThreadNum 0 (TcpServer_new ''::1'')) = Inr s" "conns s = []" "accepting s"
    "conn_step_of (Accepted False) s = Some (Established, fresh_connection)"
    by (simp add: server_evals)
  have "tcp_step (owner_callbacks greedy_callbacks) bswap_ops Established fresh_connection = Inl AssertFailed"
    by (simp add: server_evals greedy_callbacks_def Buffer_retrieve_def Buffer_readableBytes_def)
  then show ?thesis
    using TcpServer_faults_are_of_connections [OF server_run_reach [OF srv_start s(1)], of "Accepted False" AssertFailed] s fresh_connection_facts
    by (auto simp: greedy_callbacks_def no_callbacks_def)
qed

end
