(* ===== verification/StepSystem.thy ===== *)
theory StepSystem
  imports Prelude
begin

text \<open>
  Components that react to inputs: a step maps an input and a state to a new state or a fault, and
  some inputs are enabled in a state. The locales give what a component gets from an invariant
  that its steps keep.
\<close>

fun run_steps :: "('i \<Rightarrow> 's \<Rightarrow> 's result) \<Rightarrow> 'i list \<Rightarrow> 's \<Rightarrow> 's result" where
  "run_steps step [] s = Inr s"
| "run_steps step (i # is) s = rbind (step i s) (run_steps step is)"

text \<open>Every input is enabled where it occurs.\<close>

fun legal :: "('i \<Rightarrow> 's \<Rightarrow> bool) \<Rightarrow> ('i \<Rightarrow> 's \<Rightarrow> 's result) \<Rightarrow> 'i list \<Rightarrow> 's \<Rightarrow> bool" where
  "legal en step [] s \<longleftrightarrow> True"
| "legal en step (i # is) s \<longleftrightarrow> en i s \<and> (case step i s of Inl e \<Rightarrow> True | Inr s' \<Rightarrow> legal en step is s')"

lemma run_steps_append: "run_steps step (is @ js) s = rbind (run_steps step is s) (run_steps step js)"
  by (induction "is" arbitrary: s) (simp_all add: rbind_def split: sum.split)

lemma legal_append:
  "legal en step (is @ js) s \<longleftrightarrow> legal en step is s \<and> (case run_steps step is s of Inl e \<Rightarrow> True | Inr s' \<Rightarrow> legal en step js s')"
  by (induction "is" arbitrary: s) (simp_all add: rbind_def split: sum.split)

locale kept_invariant =
  fixes en :: "'i \<Rightarrow> 's \<Rightarrow> bool" and step :: "'i \<Rightarrow> 's \<Rightarrow> 's result" and inv :: "'s \<Rightarrow> bool"
  assumes keeps: "inv s \<Longrightarrow> en i s \<Longrightarrow> step i s = Inr s' \<Longrightarrow> inv s'"
begin

lemma run_keeps: "inv s \<Longrightarrow> legal en step is s \<Longrightarrow> run_steps step is s = Inr s' \<Longrightarrow> inv s'"
proof (induction "is" arbitrary: s)
  case (Cons i "is")
  then show ?case
    using keeps [of s i] by (cases "step i s") auto
qed simp

end

text \<open>Here no enabled input leads to a fault either.\<close>

locale safe_invariant = kept_invariant +
  assumes progress: "inv s \<Longrightarrow> en i s \<Longrightarrow> \<exists>s'. step i s = Inr s'"
begin

lemma run_safe:
  assumes "inv s" "legal en step is s"
  obtains s' where "run_steps step is s = Inr s'" "inv s'"
  using assms
proof (induction "is" arbitrary: s thesis)
  case (Cons i "is")
  obtain s1 where s1: "step i s = Inr s1"
    using progress [of s i] Cons.prems by auto
  then have "inv s1"
    using keeps [of s i s1] Cons.prems by auto
  then show ?case
    using Cons.IH [of s1] Cons.prems s1 by (auto simp: rbind_def)
qed simp

end

end
