(* ===== verification/Connector.thy ===== *)
theory Connector
  imports StepSystem
begin

text \<open>
  \<open>Connector.h\<close>, \<open>Connector.cpp\<close>: the object that makes a client's connection. It starts one
  \<open>async_connect\<close> at a time, tries again after a growing delay, and hands the connected socket
  over. The lemmas give the delays, the use under which its assertions hold and only one attempt
  is under way, and what happens outside that use.
\<close>

section \<open>State\<close>

datatype connector_states = cDisconnected | cConnecting | cConnected

text \<open>The functions that \<open>start\<close> and \<open>stop\<close> post from another thread.\<close>

datatype connector_task = StartInThisThread | StopInThisThread

text \<open>
  \<open>socket\<close> is the socket now in \<open>socket_\<close>, numbered as they are made; \<open>attempts\<close> are the
  \<open>async_connect\<close>s whose handlers have not run, each with its socket and whether that socket was
  closed under it; \<open>retry_timers\<close> are the pending calls of \<open>runAfter\<close>, with their delays;
  \<open>delays\<close> lists the delays of all retries since the last \<open>restart\<close>, \<open>handed\<close> the sockets given to
  \<open>newConnectionCallback_\<close>.
\<close>

record Connector =
  connect :: bool
  connector_state :: connector_states
  retryDelayMs :: int
  socket :: nat
  socket_open :: bool
  attempts :: "(nat \<times> bool) list"
  retry_timers :: "int list"
  connector_tasks :: "connector_task list"
  delays :: "int list"
  handed :: "nat list"

definition kMaxRetryDelayMs :: int where "kMaxRetryDelayMs = 30 * 1000"
definition kInitRetryDelayMs :: int where "kInitRetryDelayMs = 1000"

definition Connector_new :: Connector where
  "Connector_new =
     \<lparr>connect = False, connector_state = cDisconnected, retryDelayMs = kInitRetryDelayMs, socket = 0, socket_open = False,
      attempts = [], retry_timers = [], connector_tasks = [], delays = [], handed = []\<rparr>"

definition Connector_setState :: "connector_states \<Rightarrow> Connector \<Rightarrow> Connector" where
  "Connector_setState s c = c\<lparr>connector_state := s\<rparr>"

section \<open>Operations\<close>

text \<open>\<open>socket_.close()\<close> ends the socket's pending operation with \<open>operation_canceled\<close>.\<close>

definition socket_close :: "Connector \<Rightarrow> Connector" where
  "socket_close c =
     c\<lparr>socket_open := False, attempts := map (\<lambda>(s, cancelled). (s, cancelled \<or> s = socket c)) (attempts c)\<rparr>"

text \<open>The destructor closes the socket; it runs when no handler refers to the connector any more.\<close>

definition Connector_destructor :: "Connector \<Rightarrow> Connector" where
  "Connector_destructor c = socket_close c"

text \<open>Assigning a new socket closes the old one; \<open>async_connect\<close> opens the new one.\<close>

definition Connector_connect :: "Connector \<Rightarrow> Connector" where
  "Connector_connect c =
     (let c1 = socket_close c in
      c1\<lparr>socket := Suc (socket c1), socket_open := True, attempts := attempts c1 @ [(Suc (socket c1), False)]\<rparr>)"

definition Connector_retry :: "Connector \<Rightarrow> Connector" where
  "Connector_retry c =
     (let c1 = Connector_setState cDisconnected (socket_close c) in
      if connect c1
      then c1\<lparr>retry_timers := retry_timers c1 @ [retryDelayMs c1], delays := delays c1 @ [retryDelayMs c1],
              retryDelayMs := min (retryDelayMs c1 * 2) kMaxRetryDelayMs\<rparr>
      else c1)"

definition Connector_startInThisThread :: "bool \<Rightarrow> Connector \<Rightarrow> Connector result" where
  "Connector_startInThisThread in_loop c =
     (if \<not> in_loop then Inl LogFatal
      else if connector_state c \<noteq> cDisconnected then Inl AssertFailed
      else if connect c then Inr (Connector_connect c)
      else Inr c)"

definition Connector_stopInThisThread :: "bool \<Rightarrow> Connector \<Rightarrow> Connector result" where
  "Connector_stopInThisThread in_loop c =
     (if \<not> in_loop then Inl LogFatal
      else if connector_state c = cConnecting then Inr (Connector_retry (Connector_setState cDisconnected c))
      else Inr c)"

definition connector_dispatch :: "bool \<Rightarrow> connector_task \<Rightarrow> (Connector \<Rightarrow> Connector result) \<Rightarrow> Connector \<Rightarrow> Connector result" where
  "connector_dispatch in_loop t now c =
     (if in_loop then now c else Inr (c\<lparr>connector_tasks := connector_tasks c @ [t]\<rparr>))"

definition Connector_start :: "bool \<Rightarrow> Connector \<Rightarrow> Connector result" where
  "Connector_start in_loop c =
     connector_dispatch in_loop StartInThisThread (Connector_startInThisThread True) (c\<lparr>connect := True\<rparr>)"

definition Connector_stop :: "bool \<Rightarrow> Connector \<Rightarrow> Connector result" where
  "Connector_stop in_loop c =
     connector_dispatch in_loop StopInThisThread (Connector_stopInThisThread True) (c\<lparr>connect := False\<rparr>)"

definition Connector_restart :: "bool \<Rightarrow> Connector \<Rightarrow> Connector result" where
  "Connector_restart in_loop c =
     (if \<not> in_loop then Inl LogFatal
      else
        Connector_startInThisThread in_loop
          ((Connector_setState cDisconnected c)\<lparr>retryDelayMs := kInitRetryDelayMs, connect := True, delays := []\<rparr>))"

text \<open>\<open>so_error\<close> is what \<open>get_option\<close> gives: \<open>None\<close> when it fails.\<close>

definition Connector_connecting :: "int option \<Rightarrow> Connector \<Rightarrow> Connector" where
  "Connector_connecting so_error c =
     (let c1 = Connector_setState cConnecting c in
      case so_error of
        None \<Rightarrow> socket_close c1
      | Some errNum \<Rightarrow>
          if errNum \<noteq> 0 then Connector_retry c1
          else
            (let c2 = Connector_setState cConnected c1 in
             if connect c2 then c2\<lparr>handed := handed c2 @ [socket c2], socket_open := False\<rparr>
             else socket_close c2))"

text \<open>The values of \<open>errc\<close> that the handler of \<open>async_connect\<close> names, and all others.\<close>

datatype errc = success | operation_in_progress | interrupted | already_connected
  | resource_unavailable_try_again | address_in_use | address_not_available | connection_refused | network_unreachable
  | permission_denied | operation_not_permitted | address_family_not_supported | connection_already_in_progress
  | bad_file_descriptor | bad_address | not_a_socket
  | operation_canceled | other_error int

definition on_connect :: "errc \<Rightarrow> int option \<Rightarrow> Connector \<Rightarrow> Connector" where
  "on_connect error so_error c =
     (if error \<in> {success, operation_in_progress, interrupted, already_connected} then Connector_connecting so_error c
      else if error \<in> {resource_unavailable_try_again, address_in_use, address_not_available, connection_refused, network_unreachable}
      then Connector_retry c
      else if error \<in> {permission_denied, operation_not_permitted, address_family_not_supported, connection_already_in_progress,
                bad_file_descriptor, bad_address, not_a_socket} then socket_close c
      else socket_close c)"

section \<open>Runs\<close>

text \<open>Calls from the loop's thread or another, the oldest posted function, a retry timer, the handler
  of an attempt.\<close>

datatype connector_input = CStart bool | CStop bool | CRestart | CTask | CTimer nat | CConnect nat errc "int option"

fun run_connector_task :: "connector_task \<Rightarrow> Connector \<Rightarrow> Connector result" where
  "run_connector_task StartInThisThread c = Connector_startInThisThread True c"
| "run_connector_task StopInThisThread c = Connector_stopInThisThread True c"

definition drop_nth :: "nat \<Rightarrow> 'a list \<Rightarrow> 'a list" where
  "drop_nth i xs = take i xs @ drop (Suc i) xs"

fun connector_step :: "connector_input \<Rightarrow> Connector \<Rightarrow> Connector result" where
  "connector_step (CStart in_loop) c = Connector_start in_loop c"
| "connector_step (CStop in_loop) c = Connector_stop in_loop c"
| "connector_step CRestart c = Connector_restart True c"
| "connector_step CTask c =
     (case connector_tasks c of [] \<Rightarrow> Inr c | t # ts \<Rightarrow> run_connector_task t (c\<lparr>connector_tasks := ts\<rparr>))"
| "connector_step (CTimer j) c = Connector_startInThisThread True (c\<lparr>retry_timers := drop_nth j (retry_timers c)\<rparr>)"
| "connector_step (CConnect i error so_error) c = Inr (on_connect error so_error (c\<lparr>attempts := drop_nth i (attempts c)\<rparr>))"

text \<open>What the system can do: a handler is told of a cancelled operation only when its socket was
  closed, and \<open>get_option\<close> fails on a closed socket.\<close>

fun connector_event :: "connector_input \<Rightarrow> Connector \<Rightarrow> bool" where
  "connector_event CTask c \<longleftrightarrow> connector_tasks c \<noteq> []"
| "connector_event (CTimer j) c \<longleftrightarrow> j < length (retry_timers c)"
| "connector_event (CConnect i error so_error) c \<longleftrightarrow>
     i < length (attempts c) \<and> (error = operation_canceled \<longrightarrow> snd (attempts c ! i))
     \<and> (\<not> socket_open c \<longrightarrow> so_error = None)"
| "connector_event _ c \<longleftrightarrow> True"

section \<open>Delays\<close>

text \<open>The delay of the \<open>k\<close>-th retry in a row.\<close>

definition backoff :: "nat \<Rightarrow> int" where
  "backoff k = min (1000 * 2 ^ k) 30000"

lemma backoff_Suc: "min (backoff k * 2) 30000 = backoff (Suc k)"
  by (simp add: backoff_def min_def)

definition delays_inv :: "Connector \<Rightarrow> bool" where
  "delays_inv c \<longleftrightarrow> delays c = map backoff [0..<length (delays c)] \<and> retryDelayMs c = backoff (length (delays c))
     \<and> (\<forall>d \<in> set (retry_timers c). d \<in> range backoff)"

lemma set_drop_nth: "set (drop_nth i xs) \<subseteq> set xs"
  using set_take_subset [of i xs] set_drop_subset [of "Suc i" xs] by (auto simp: drop_nth_def)

lemmas connector_defs = Connector_setState_def socket_close_def Connector_connect_def Connector_startInThisThread_def
  Connector_stopInThisThread_def connector_dispatch_def Connector_start_def Connector_stop_def Connector_restart_def
  Connector_connecting_def on_connect_def kMaxRetryDelayMs_def kInitRetryDelayMs_def Let_def

lemma retry_delays: "delays_inv c \<Longrightarrow> delays_inv (Connector_retry c)"
  by (auto simp: delays_inv_def Connector_retry_def connector_defs backoff_Suc)

lemma delays_inv_cong:
  "delays_inv c \<Longrightarrow> delays d = delays c \<Longrightarrow> retryDelayMs d = retryDelayMs c \<Longrightarrow> set (retry_timers d) \<subseteq> set (retry_timers c) \<Longrightarrow> delays_inv d"
  by (auto simp: delays_inv_def)

lemma close_delays: "delays_inv c \<Longrightarrow> delays_inv (socket_close c)"
  by (simp add: delays_inv_def socket_close_def)

lemma start_delays: "Connector_startInThisThread b c = Inr c' \<Longrightarrow> delays_inv c \<Longrightarrow> delays_inv c'"
  by (rule delays_inv_cong [of c]) (auto simp: connector_defs split: if_splits)

lemma stop_delays: "Connector_stopInThisThread b c = Inr c' \<Longrightarrow> delays_inv c \<Longrightarrow> delays_inv c'"
  using retry_delays [of "Connector_setState cDisconnected c"]
  by (auto simp: Connector_stopInThisThread_def Connector_setState_def delays_inv_def split: if_splits)

lemma connecting_delays: "delays_inv c \<Longrightarrow> delays_inv (Connector_connecting e c)"
  using retry_delays [of "Connector_setState cConnecting c"]
  by (auto simp: Connector_connecting_def Connector_setState_def socket_close_def delays_inv_def Let_def split: option.splits)

lemma on_connect_cases:
  "on_connect e so c = Connector_connecting so c \<or> on_connect e so c = Connector_retry c \<or> on_connect e so c = socket_close c"
  by (simp add: on_connect_def)

lemma step_delays:
  assumes "connector_step i c = Inr c'" "delays_inv c"
  shows "delays_inv c'"
proof (cases i)
  case (CStart b)
  then show ?thesis
    using assms start_delays [of True "c\<lparr>connect := True\<rparr>" c']
    by (auto simp: Connector_start_def connector_dispatch_def delays_inv_def split: if_splits)
next
  case (CStop b)
  then show ?thesis
    using assms stop_delays [of True "c\<lparr>connect := False\<rparr>" c']
    by (auto simp: Connector_stop_def connector_dispatch_def delays_inv_def split: if_splits)
next
  case CRestart
  have "delays_inv ((Connector_setState cDisconnected c)\<lparr>retryDelayMs := kInitRetryDelayMs, connect := True, delays := []\<rparr>)"
    using assms(2) by (simp add: delays_inv_def Connector_setState_def kInitRetryDelayMs_def backoff_def)
  then show ?thesis
    using assms(1) CRestart start_delays by (simp add: Connector_restart_def)
next
  case CTask
  have "delays_inv c'" if "run_connector_task t (c\<lparr>connector_tasks := ts\<rparr>) = Inr c'" for t ts
  proof -
    have "delays_inv (c\<lparr>connector_tasks := ts\<rparr>)"
      using assms(2) by (simp add: delays_inv_def)
    then show ?thesis
      using that start_delays stop_delays by (cases t) auto
  qed
  then show ?thesis
    using assms CTask by (auto split: list.splits)
next
  case (CTimer j)
  have "delays_inv (c\<lparr>retry_timers := drop_nth j (retry_timers c)\<rparr>)"
    by (rule delays_inv_cong [OF assms(2)]) (simp_all add: set_drop_nth)
  then show ?thesis
    using assms(1) CTimer start_delays by simp
next
  case (CConnect j e so)
  have "delays_inv (c\<lparr>attempts := drop_nth j (attempts c)\<rparr>)" (is "delays_inv ?c")
    using assms(2) by (simp add: delays_inv_def)
  then have "delays_inv (on_connect e so ?c)"
    using on_connect_cases [of e so ?c] connecting_delays [of ?c so] retry_delays [of ?c] close_delays [of ?c] by metis
  then show ?thesis
    using assms(1) CConnect by simp
qed

section \<open>One attempt at a time\<close>

text \<open>How many attempts are under way or still to come.\<close>

definition under_way :: "Connector \<Rightarrow> nat" where
  "under_way c = length (filter (\<lambda>t. t = StartInThisThread) (connector_tasks c)) + length (attempts c) + length (retry_timers c)"

text \<open>\<open>start\<close> on an idle connector only, \<open>restart\<close> only when it has handed a socket over.\<close>

fun proper_use :: "connector_input \<Rightarrow> Connector \<Rightarrow> bool" where
  "proper_use (CStart in_loop) c \<longleftrightarrow> connector_state c = cDisconnected \<and> under_way c = 0"
| "proper_use CRestart c \<longleftrightarrow> connector_state c = cConnected"
| "proper_use i c \<longleftrightarrow> connector_event i c"

definition connector_inv :: "Connector \<Rightarrow> bool" where
  "connector_inv c \<longleftrightarrow> under_way c \<le> 1 \<and> (under_way c = 1 \<longrightarrow> connector_state c = cDisconnected)
     \<and> (\<forall>a \<in> set (attempts c). a = (socket c, False) \<and> socket_open c)"

lemma start_inv:
  assumes "connector_state c = cDisconnected" "under_way c = 0"
  shows "\<exists>c'. Connector_startInThisThread True c = Inr c' \<and> connector_inv c' \<and> connector_state c' = cDisconnected"
  using assms by (auto simp: connector_defs connector_inv_def under_way_def)

lemma retry_inv: "under_way c = 0 \<Longrightarrow> connector_inv (Connector_retry c)"
  by (auto simp: Connector_retry_def connector_defs connector_inv_def under_way_def)

lemma close_inv: "under_way c = 0 \<Longrightarrow> connector_inv (socket_close c)"
  by (simp add: socket_close_def connector_inv_def under_way_def)

lemma connecting_inv: "under_way c = 0 \<Longrightarrow> connector_inv (Connector_connecting e c)"
  using retry_inv [of "Connector_setState cConnecting c"]
  by (auto simp: Connector_connecting_def Connector_setState_def socket_close_def connector_inv_def under_way_def Let_def split: option.splits)

lemma stop_inv:
  assumes "connector_inv c"
  shows "\<exists>c'. Connector_stopInThisThread True c = Inr c' \<and> connector_inv c'"
proof (cases "connector_state c = cConnecting")
  case True
  then have "under_way c = 0"
    using assms by (auto simp: connector_inv_def)
  then have "under_way (Connector_setState cDisconnected c) = 0"
    by (simp add: under_way_def Connector_setState_def)
  then show ?thesis
    using True retry_inv by (simp add: Connector_stopInThisThread_def)
qed (use assms in \<open>simp add: Connector_stopInThisThread_def\<close>)

lemma attempt_pending:
  assumes "connector_inv c" "attempts c \<noteq> []"
  shows "attempts c = [(socket c, False)]" "socket_open c" "connector_state c = cDisconnected"
proof -
  have "0 < length (attempts c)"
    using assms(2) by simp
  then have one: "length (attempts c) = 1" "under_way c = 1"
    using assms(1) unfolding connector_inv_def under_way_def by linarith+
  then obtain a where "attempts c = [a]"
    by (auto simp: length_Suc_conv)
  then show "attempts c = [(socket c, False)]" "socket_open c" "connector_state c = cDisconnected"
    using assms(1) one(2) by (auto simp: connector_inv_def)
qed

lemma proper_step:
  assumes inv: "connector_inv c" and use: "proper_use i c"
  shows "\<exists>c'. connector_step i c = Inr c' \<and> connector_inv c'"
proof (cases i)
  case (CStart b)
  have "under_way (c\<lparr>connect := True\<rparr>) = 0" "connector_state c = cDisconnected" "attempts c = []"
    using use CStart by (simp_all add: under_way_def)
  then show ?thesis
    using CStart inv start_inv [of "c\<lparr>connect := True\<rparr>"]
    by (cases b) (auto simp: Connector_start_def connector_dispatch_def connector_inv_def under_way_def)
next
  case (CStop b)
  have "connector_inv (c\<lparr>connect := False\<rparr>)" "connector_inv (c\<lparr>connect := False, connector_tasks := connector_tasks c @ [StopInThisThread]\<rparr>)"
    using inv by (simp_all add: connector_inv_def under_way_def)
  then show ?thesis
    using CStop stop_inv by (cases b) (auto simp: Connector_stop_def connector_dispatch_def)
next
  case CRestart
  have "under_way c = 0"
    using inv use CRestart by (auto simp: connector_inv_def)
  then show ?thesis
    using CRestart start_inv [of "(Connector_setState cDisconnected c)\<lparr>retryDelayMs := kInitRetryDelayMs, connect := True, delays := []\<rparr>"]
    by (auto simp: Connector_restart_def under_way_def Connector_setState_def)
next
  case CTask
  then obtain t ts where q: "connector_tasks c = t # ts"
    using use by (cases "connector_tasks c") auto
  show ?thesis
  proof (cases t)
    case StartInThisThread
    have "under_way (c\<lparr>connector_tasks := ts\<rparr>) = 0" "connector_state c = cDisconnected"
      using inv q StartInThisThread by (auto simp: connector_inv_def under_way_def)
    then show ?thesis
      using CTask q StartInThisThread start_inv [of "c\<lparr>connector_tasks := ts\<rparr>"] by auto
  next
    case StopInThisThread
    have "connector_inv (c\<lparr>connector_tasks := ts\<rparr>)"
      using inv q StopInThisThread by (simp add: connector_inv_def under_way_def)
    then show ?thesis
      using CTask q StopInThisThread stop_inv by simp
  qed
next
  case (CTimer j)
  then have j: "j < length (retry_timers c)" "length (retry_timers c) \<le> 1" "under_way c = 1"
    using use inv by (simp_all add: connector_inv_def under_way_def)
  then obtain d where d: "retry_timers c = [d]" "j = 0"
    by (cases "retry_timers c") simp_all
  have "under_way (c\<lparr>retry_timers := drop_nth j (retry_timers c)\<rparr>) = 0" "connector_state c = cDisconnected"
    using inv j(3) by (simp_all add: d connector_inv_def under_way_def drop_nth_def)
  then show ?thesis
    using CTimer start_inv [of "c\<lparr>retry_timers := drop_nth j (retry_timers c)\<rparr>"] by auto
next
  case (CConnect j e so)
  then have a: "attempts c \<noteq> []" "j < length (attempts c)"
    using use by auto
  then have "under_way (c\<lparr>attempts := drop_nth j (attempts c)\<rparr>) = 0" (is "under_way ?c = 0")
    using inv a(2) attempt_pending(1) [OF inv a(1)] by (simp add: connector_inv_def under_way_def drop_nth_def)
  then have "connector_inv (Connector_retry ?c)" "connector_inv (Connector_connecting so ?c)" "connector_inv (socket_close ?c)"
    by (rule retry_inv, rule connecting_inv, rule close_inv)
  then have "connector_inv (on_connect e so ?c)"
    using on_connect_cases [of e so ?c] by (elim disjE) simp_all
  then show ?thesis
    using CConnect by simp
qed

interpretation delays: kept_invariant "\<lambda>_ _. True" connector_step delays_inv
  by unfold_locales (rule step_delays)

interpretation single: safe_invariant proper_use connector_step connector_inv
proof unfold_locales
  show "connector_inv c'" if "connector_inv c" "proper_use i c" "connector_step i c = Inr c'" for c i c'
    using proper_step [OF that(1,2)] that(3) by auto
  show "\<exists>c'. connector_step i c = Inr c'" if "connector_inv c" "proper_use i c" for c i
    using proper_step [OF that] by blast
qed

section \<open>Properties\<close>

text \<open>C30. Whatever is called and happens, the delays of successive retries are 1, 2, 4, 8, 16 and then
  always 30 seconds, counted anew after \<open>restart\<close>; no timer waits longer.\<close>

theorem Connector_backoff:
  assumes "run_steps connector_step is Connector_new = Inr c"
  shows "delays c = map (\<lambda>k. min (1000 * 2 ^ k) 30000) [0..<length (delays c)]
    \<and> retryDelayMs c = min (1000 * 2 ^ length (delays c)) 30000 \<and> (\<forall>d \<in> set (retry_timers c). 1000 \<le> d \<and> d \<le> 30000)"
proof -
  have "delays_inv Connector_new"
    by (simp add: delays_inv_def Connector_new_def kInitRetryDelayMs_def backoff_def)
  moreover have "legal (\<lambda>_ _. True) connector_step is d" for d
    by (induction "is" arbitrary: d) (simp_all split: sum.split)
  ultimately have inv: "delays_inv c"
    using delays.run_keeps assms by blast
  have "1000 \<le> backoff k \<and> backoff k \<le> 30000" for k
    by (simp add: backoff_def)
  then show ?thesis
    using inv unfolding delays_inv_def backoff_def by fastforce
qed

text \<open>C29. When \<open>start\<close> is called on an idle connector only and \<open>restart\<close> only after it has handed a
  socket over, with \<open>stop\<close> at any time and whatever the network does, no assertion fails and at
  most one attempt is under way or to come; the socket of an attempt is the current one and is
  never closed under it.\<close>

theorem Connector_single_attempt:
  assumes "legal proper_use connector_step is Connector_new"
  shows "\<exists>c. run_steps connector_step is Connector_new = Inr c \<and> length (attempts c) + length (retry_timers c) \<le> 1
    \<and> (\<forall>a \<in> set (attempts c). a = (socket c, False) \<and> socket_open c \<and> connector_state c = cDisconnected)"
proof -
  have "connector_inv Connector_new"
    by (simp add: connector_inv_def Connector_new_def under_way_def)
  then obtain c where c: "run_steps connector_step is Connector_new = Inr c" "connector_inv c"
    by (rule single.run_safe [OF _ assms])
  have "connector_state c = cDisconnected" if "a \<in> set (attempts c)" for a
    using attempt_pending(3) [OF c(2)] that by (cases "attempts c") auto
  then show ?thesis
    using c by (auto simp: connector_inv_def under_way_def)
qed

text \<open>Events once \<open>connect_\<close> is cleared.\<close>

definition pending :: "Connector \<Rightarrow> nat" where
  "pending c = length (connector_tasks c) + length (attempts c) + length (retry_timers c)"

definition loop_event :: "connector_input \<Rightarrow> bool" where
  "loop_event i \<longleftrightarrow> (case i of CTask \<Rightarrow> True | CTimer _ \<Rightarrow> True | CConnect _ _ _ \<Rightarrow> True | _ \<Rightarrow> False)"

lemma length_drop_nth: "i < length xs \<Longrightarrow> Suc (length (drop_nth i xs)) = length xs"
  by (simp add: drop_nth_def)

lemma stopped_step:
  assumes "\<not> connect c" "loop_event i" "connector_event i c" "connector_step i c = Inr c'"
  shows "\<not> connect c'" "handed c' = handed c" "Suc (pending c') = pending c"
proof -
  have r: "Connector_retry d = Connector_setState cDisconnected (socket_close d)" if "\<not> connect d" for d
    using that by (simp add: Connector_retry_def Connector_setState_def socket_close_def Let_def)
  have close: "\<not> connect (socket_close d) \<and> handed (socket_close d) = handed d \<and> pending (socket_close d) = pending d"
    if "\<not> connect d" for d
    using that by (simp add: socket_close_def pending_def)
  have retry: "\<not> connect (Connector_retry d) \<and> handed (Connector_retry d) = handed d \<and> pending (Connector_retry d) = pending d"
    if "\<not> connect d" for d
    using close [OF that] r [OF that] by (simp add: Connector_setState_def pending_def)
  have connecting: "\<not> connect (Connector_connecting e d) \<and> handed (Connector_connecting e d) = handed d
      \<and> pending (Connector_connecting e d) = pending d" if "\<not> connect d" for d e
    using that retry [of "Connector_setState cConnecting d"] close [of "Connector_setState cConnecting d"]
      close [of "Connector_setState cConnected d"]
    by (cases e) (simp_all add: Connector_connecting_def Connector_setState_def pending_def Let_def)
  have "\<not> connect c' \<and> handed c' = handed c \<and> Suc (pending c') = pending c"
  proof (cases i)
    case CTask
    then obtain t ts where q: "connector_tasks c = t # ts"
      using assms(3) by (cases "connector_tasks c") auto
    then show ?thesis
      using assms(1,4) CTask
      by (cases t) (auto simp: Connector_startInThisThread_def Connector_stopInThisThread_def r pending_def
          Connector_setState_def socket_close_def split: if_splits)
  next
    case (CTimer j)
    then show ?thesis
      using assms length_drop_nth [of j "retry_timers c"] by (auto simp: Connector_startInThisThread_def pending_def split: if_splits)
  next
    case (CConnect j e so)
    let ?c = "c\<lparr>attempts := drop_nth j (attempts c)\<rparr>"
    have "Suc (pending ?c) = pending c" "\<not> connect ?c"
      using assms CConnect length_drop_nth [of j "attempts c"] by (simp_all add: pending_def)
    then have "\<not> connect (on_connect e so ?c) \<and> handed (on_connect e so ?c) = handed c \<and> Suc (pending (on_connect e so ?c)) = pending c"
      using on_connect_cases [of e so ?c] retry [of ?c] connecting [of ?c so] close [of ?c] by fastforce
    then show ?thesis
      using assms(4) CConnect by simp
  qed (use assms(2) in \<open>simp_all add: loop_event_def\<close>)
  then show "\<not> connect c'" "handed c' = handed c" "Suc (pending c') = pending c"
    by simp_all
qed

text \<open>C31. After \<open>stop\<close> the connector comes to rest: in proper use each further event of the loop uses
  up one of those that were pending, makes no new one and hands no socket over, so that there are
  no more of them than were pending.\<close>

theorem Connector_stop_comes_to_rest:
  assumes "legal proper_use connector_step is Connector_new" "run_steps connector_step is Connector_new = Inr c"
    and "Connector_stop in_loop c = Inr c1"
    and "list_all loop_event js" "legal proper_use connector_step js c1"
  shows "\<exists>c2. run_steps connector_step js c1 = Inr c2 \<and> length js + pending c2 = pending c1 \<and> handed c2 = handed c"
proof -
  have "connector_inv Connector_new"
    by (simp add: connector_inv_def Connector_new_def under_way_def)
  then have "connector_inv c"
    by (rule single.run_safe [OF _ assms(1)]) (simp add: assms(2))
  then have inv: "connector_inv c1"
    using proper_step [of c "CStop in_loop"] assms(3) by auto
  have r: "\<not> connect c1" "handed c1 = handed c"
    using assms(3) by (auto simp: Connector_stop_def connector_dispatch_def Connector_stopInThisThread_def Connector_setState_def
        Connector_retry_def socket_close_def Let_def split: if_splits)
  have "\<exists>d'. run_steps connector_step js d = Inr d' \<and> length js + pending d' = pending d \<and> handed d' = handed d"
    if "connector_inv d" "\<not> connect d" "legal proper_use connector_step js d" for d
    using that assms(4)
  proof (induction js arbitrary: d)
    case (Cons j js)
    obtain d1 where d1: "connector_step j d = Inr d1" "connector_inv d1"
      using proper_step [of d j] Cons.prems by auto
    have "connector_event j d"
      using Cons.prems(3,4) by (cases j) (auto simp: loop_event_def)
    then have "\<not> connect d1" "handed d1 = handed d" "Suc (pending d1) = pending d"
      using stopped_step [OF _ _ _ d1(1)] Cons.prems(2,4) by auto
    then show ?case
      using Cons.IH [of d1] Cons.prems(3,4) d1 by (auto simp: rbind_def)
  qed simp
  then show ?thesis
    using inv r assms(5) by metis
qed

text \<open>\<open>stop\<close> while an attempt is under way does not end it, since \<open>connect\<close> leaves the state at
  \<open>kDisconnected\<close>: when it succeeds the socket is closed but the state stays \<open>kConnected\<close>, and the
  next \<open>start\<close> fails its assertion.\<close>

lemma Connector_start_after_stop_asserts:
  assumes "legal proper_use connector_step is Connector_new" "run_steps connector_step is Connector_new = Inr c"
    and "attempts c \<noteq> []" "e \<in> {success, operation_in_progress, interrupted, already_connected}"
  shows "\<exists>c1. run_steps connector_step [CStop True, CConnect 0 e (Some 0)] c = Inr c1
    \<and> legal proper_use connector_step [CStop True, CConnect 0 e (Some 0)] c
    \<and> handed c1 = handed c \<and> \<not> socket_open c1 \<and> attempts c1 = [] \<and> Connector_start True c1 = Inl AssertFailed"
proof -
  have "connector_inv Connector_new"
    by (simp add: connector_inv_def Connector_new_def under_way_def)
  then have inv: "connector_inv c"
    by (rule single.run_safe [OF _ assms(1)]) (simp add: assms(2))
  show ?thesis
    using attempt_pending [OF inv assms(3)] assms(4) by (auto simp: connector_defs drop_nth_def)
qed

text \<open>A second \<open>start\<close> before the first attempt is done replaces the socket; the handler of the
  cancelled attempt then closes the new one, and its attempt ends as cancelled too.\<close>

lemma Connector_double_start:
  "\<exists>c. run_steps connector_step [CStart True, CStart True, CConnect 0 operation_canceled None, CConnect 0 operation_canceled None]
       Connector_new = Inr c
     \<and> legal connector_event connector_step [CStart True, CStart True, CConnect 0 operation_canceled None, CConnect 0 operation_canceled None]
         Connector_new
     \<and> attempts c = [] \<and> retry_timers c = [] \<and> handed c = [] \<and> \<not> socket_open c"
  by (simp add: Connector_new_def connector_defs drop_nth_def)

section \<open>Runs\<close>

text \<open>Two refused attempts, then a stop during the third.\<close>

definition two_refused :: "connector_input list" where
  "two_refused = [CStart True, CConnect 0 connection_refused None, CTimer 0, CConnect 0 connection_refused None, CTimer 0]"

lemma two_refused_run:
  "run_steps connector_step two_refused Connector_new = Inr \<lparr>connect = True, connector_state = cDisconnected, retryDelayMs = 4000,
     socket = 3, socket_open = True, attempts = [(3, False)], retry_timers = [], connector_tasks = [], delays = [1000, 2000], handed = []\<rparr>"
  "legal proper_use connector_step two_refused Connector_new"
  by (simp_all add: two_refused_def Connector_new_def connector_defs Connector_retry_def drop_nth_def under_way_def)

lemma Connector_backoff_witness:
  "\<exists>c. run_steps connector_step two_refused Connector_new = Inr c \<and> delays c = [1000, 2000] \<and> retryDelayMs c = 4000"
  using Connector_backoff [OF two_refused_run(1)] two_refused_run(1) by simp

lemma Connector_single_attempt_witness:
  "\<exists>c. run_steps connector_step two_refused Connector_new = Inr c \<and> length (attempts c) \<le> 1 \<and> attempts c = [(socket c, False)]"
  using Connector_single_attempt [OF two_refused_run(2)] two_refused_run(1) by auto

lemma Connector_stop_comes_to_rest_witness:
  "\<exists>c c1 c2. run_steps connector_step two_refused Connector_new = Inr c \<and> Connector_stop False c = Inr c1
     \<and> run_steps connector_step [CConnect 0 connection_refused None, CTask] c1 = Inr c2 \<and> pending c2 = 0"
proof -
  obtain c where c: "run_steps connector_step two_refused Connector_new = Inr c" "connector_state c = cDisconnected"
    "attempts c = [(3, False)]" "retry_timers c = []" "connector_tasks c = []" "socket_open c" "connect c"
    by (simp add: two_refused_run(1))
  obtain c1 where c1: "Connector_stop False c = Inr c1" "pending c1 = 2"
    "legal proper_use connector_step [CConnect 0 connection_refused None, CTask] c1"
    using c(2-) by (auto simp: connector_defs Connector_retry_def drop_nth_def pending_def)
  show ?thesis
    using Connector_stop_comes_to_rest [OF two_refused_run(2) c(1) c1(1) _ c1(3)] c(1) c1 by (auto simp: loop_event_def)
qed

lemma Connector_start_after_stop_asserts_witness:
  "\<exists>c. run_steps connector_step (two_refused @ [CStop True, CConnect 0 success (Some 0)]) Connector_new = Inr c
     \<and> Connector_start True c = Inl AssertFailed"
  using Connector_start_after_stop_asserts [OF two_refused_run(2,1), of success] unfolding run_steps_append two_refused_run(1) by auto

end
