(* ===== verification/TcpClient.thy ===== *)
theory TcpClient
  imports TcpConnection Connector
begin

text \<open>
  \<open>TcpClient.h\<close>, \<open>TcpClient.cpp\<close>: a client, its \<open>Connector\<close> and its connections, each a
  \<open>TcpConnection\<close> with the steps of that theory. The lemmas show that a client has at most one
  open connection and that this is the one it keeps, that its assertions hold in proper use, what
  it does when the connection is lost, and that it cannot connect a second time by hand.
\<close>

section \<open>State\<close>

text \<open>
  A connection is known by its number in \<open>client_conns\<close>, which keeps the closed ones too, with
  their names. \<open>destroy_tasks\<close> are the posted calls of \<open>connectDestroyed\<close>; the constructor leaves
  \<open>nextConnId_\<close> unset, so its first value is an argument of \<open>TcpClient_new\<close>. \<open>life\<close> is \<open>Alive\<close>
  until the destructor, then \<open>Orphaned\<close>, but \<open>Dangling\<close> while the connection's close callback still
  calls the client.
\<close>

datatype client_life = Alive | Dangling | Orphaned

record TcpClient =
  connector :: Connector
  serverAddr :: string
  client_nextConnId :: int32
  client_connect :: bool
  client_retry :: bool
  connection :: "nat option"
  client_conns :: "(string \<times> TcpConnection) list"
  destroy_tasks :: "nat list"
  life :: client_life

definition TcpClient_new :: "string \<Rightarrow> int32 \<Rightarrow> TcpClient" where
  "TcpClient_new addr n =
     \<lparr>connector = Connector_new, serverAddr = addr, client_nextConnId = n, client_connect = False, client_retry = False,
      connection = None, client_conns = [], destroy_tasks = [], life = Alive\<rparr>"

section \<open>Operations\<close>

definition TcpClient_connect :: "bool \<Rightarrow> TcpClient \<Rightarrow> TcpClient result" where
  "TcpClient_connect in_loop cl =
     rbind (Connector_start in_loop (connector cl)) (\<lambda>c. Inr (cl\<lparr>client_connect := True, connector := c\<rparr>))"

definition TcpClient_stop :: "bool \<Rightarrow> TcpClient \<Rightarrow> TcpClient result" where
  "TcpClient_stop in_loop cl =
     rbind (Connector_stop in_loop (connector cl)) (\<lambda>c. Inr (cl\<lparr>client_connect := False, connector := c\<rparr>))"

definition TcpClient_enableRetry :: "TcpClient \<Rightarrow> TcpClient" where
  "TcpClient_enableRetry cl = cl\<lparr>client_retry := True\<rparr>"

definition TcpClient_removeConnection :: "bool \<Rightarrow> nat \<Rightarrow> TcpClient \<Rightarrow> TcpClient result" where
  "TcpClient_removeConnection in_loop k cl =
     (if \<not> in_loop then Inl LogFatal
      else if connection cl \<noteq> Some k then Inl AssertFailed
      else
        (let cl1 = cl\<lparr>connection := None, destroy_tasks := destroy_tasks cl @ [k]\<rparr> in
         if client_retry cl1 \<and> client_connect cl1
         then rbind (Connector_restart in_loop (connector cl1)) (\<lambda>c. Inr (cl1\<lparr>connector := c\<rparr>))
         else Inr cl1))"

text \<open>\<open>detail::removeConnection\<close>, from the loop's thread.\<close>

definition client_set_conn :: "nat \<Rightarrow> TcpConnection \<Rightarrow> TcpClient \<Rightarrow> TcpClient" where
  "client_set_conn k c cl = cl\<lparr>client_conns := (client_conns cl)[k := (fst (client_conns cl ! k), c)]\<rparr>"

definition detail_removeConnection :: "callbacks \<Rightarrow> nat \<Rightarrow> TcpClient \<Rightarrow> TcpClient result" where
  "detail_removeConnection user k cl =
     rbind (TcpConnection_connectDestroyed True (owner_callbacks user) (snd (client_conns cl ! k))) (\<lambda>c.
     Inr (client_set_conn k c cl))"

text \<open>A step of a connection; its close callback is made last.\<close>

definition client_conn_step :: "callbacks \<Rightarrow> socket_ops \<Rightarrow> nat \<Rightarrow> conn_step \<Rightarrow> TcpClient \<Rightarrow> TcpClient result" where
  "client_conn_step user so k st cl =
     (let c = snd (client_conns cl ! k) in
      rbind (tcp_step (owner_callbacks user) so st c) (\<lambda>c'.
      let cl1 = client_set_conn k c' cl in
      if closes c < closes c' then
        (case life cl1 of
           Alive \<Rightarrow> TcpClient_removeConnection True k cl1
         | Orphaned \<Rightarrow> detail_removeConnection user k cl1
         | Dangling \<Rightarrow> Inl UseAfterFree)
      else Inr cl1))"

definition TcpClient_disconnect :: "callbacks \<Rightarrow> socket_ops \<Rightarrow> bool \<Rightarrow> TcpClient \<Rightarrow> TcpClient result" where
  "TcpClient_disconnect user so in_loop cl =
     (let cl1 = cl\<lparr>client_connect := False\<rparr> in
      case connection cl1 of
        None \<Rightarrow> Inr cl1
      | Some k \<Rightarrow> client_conn_step user so k (Call in_loop DoShutdown) cl1)"

text \<open>\<open>snprintf\<close> into 32 bytes, with \<open>%d\<close>.\<close>

definition client_conn_name :: "string \<Rightarrow> int32 \<Rightarrow> string" where
  "client_conn_name addr n = take 31 ('':'' @ addr @ ''#'' @ print_d (sint n))"

definition TcpClient_newConnection :: "callbacks \<Rightarrow> socket_ops \<Rightarrow> bool \<Rightarrow> TcpClient \<Rightarrow> TcpClient result" where
  "TcpClient_newConnection user so in_loop cl =
     (if \<not> in_loop then Inl LogFatal
      else
        (let buf = client_conn_name (serverAddr cl) (client_nextConnId cl);
             k = length (client_conns cl) in
         rbind TcpConnection_new (\<lambda>c.
         client_conn_step user so k Established
           (cl\<lparr>client_nextConnId := client_nextConnId cl + 1, client_conns := client_conns cl @ [(buf, c)],
               connection := Some k\<rparr>))))"

text \<open>
  The destructor leaves an open connection as it is (\<open>conn->forceClose()\<close> is commented out) and
  dispatches the change of its close callback.
\<close>

definition TcpClient_destructor :: "bool \<Rightarrow> TcpClient \<Rightarrow> TcpClient result" where
  "TcpClient_destructor in_loop cl =
     (case connection cl of
        Some k \<Rightarrow> Inr (cl\<lparr>life := (if in_loop then Orphaned else Dangling)\<rparr>)
      | None \<Rightarrow> rbind (Connector_stop in_loop (connector cl)) (\<lambda>c. Inr (cl\<lparr>connector := c, life := Orphaned\<rparr>)))"

text \<open>
  A step of the connector; when it hands its socket over, \<open>newConnection\<close> is made last. The posted
  functions hold no reference to the connector, the handlers of attempts and timers do.
\<close>

definition client_connector_step :: "callbacks \<Rightarrow> socket_ops \<Rightarrow> connector_input \<Rightarrow> TcpClient \<Rightarrow> TcpClient result" where
  "client_connector_step user so i cl =
     (if i = CTask \<and> life cl \<noteq> Alive \<and> attempts (connector cl) = [] \<and> retry_timers (connector cl) = [] then Inl UseAfterFree
      else
        rbind (connector_step i (connector cl)) (\<lambda>c.
        let cl1 = cl\<lparr>connector := c\<rparr> in
        if length (handed (connector cl)) < length (handed c) then
          (if life cl1 = Alive then TcpClient_newConnection user so True cl1 else Inl UseAfterFree)
        else Inr cl1))"

section \<open>Runs\<close>

datatype client_input = Connect bool | Disconnect bool | Stop bool | EnableRetry
  | ConnectorEvent connector_input | ClientConnInput nat conn_step | DestroyConn
  | Destruct bool | ReplaceCallback

fun client_step :: "callbacks \<Rightarrow> socket_ops \<Rightarrow> client_input \<Rightarrow> TcpClient \<Rightarrow> TcpClient result" where
  "client_step user so (Connect in_loop) cl = TcpClient_connect in_loop cl"
| "client_step user so (Disconnect in_loop) cl = TcpClient_disconnect user so in_loop cl"
| "client_step user so (Stop in_loop) cl = TcpClient_stop in_loop cl"
| "client_step user so EnableRetry cl = Inr (TcpClient_enableRetry cl)"
| "client_step user so (ConnectorEvent i) cl = client_connector_step user so i cl"
| "client_step user so (ClientConnInput k st) cl = client_conn_step user so k st cl"
| "client_step user so DestroyConn cl =
     (case destroy_tasks cl of
        [] \<Rightarrow> Inr cl
      | k # ks \<Rightarrow> client_conn_step user so k Destroyed (cl\<lparr>destroy_tasks := ks\<rparr>))"
| "client_step user so (Destruct in_loop) cl = TcpClient_destructor in_loop cl"
| "client_step user so ReplaceCallback cl = Inr (cl\<lparr>life := (if life cl = Dangling then Orphaned else life cl)\<rparr>)"

text \<open>\<open>connect\<close> is called when the connector is idle, the client is destroyed in the loop's thread when
  nothing is posted to its connector, and not used afterwards.\<close>

fun client_use :: "client_input \<Rightarrow> TcpClient \<Rightarrow> bool" where
  "client_use (Connect in_loop) cl \<longleftrightarrow> life cl = Alive \<and> proper_use (CStart in_loop) (connector cl)"
| "client_use (Destruct in_loop) cl \<longleftrightarrow> life cl = Alive \<and> in_loop \<and> connector_tasks (connector cl) = []"
| "client_use (ConnectorEvent i) cl \<longleftrightarrow> loop_event i \<and> connector_event i (connector cl)"
| "client_use (ClientConnInput k st) cl \<longleftrightarrow>
     k < length (client_conns cl) \<and> st \<notin> {Established, Destroyed} \<and> enabled st (snd (client_conns cl ! k))"
| "client_use DestroyConn cl \<longleftrightarrow> destroy_tasks cl \<noteq> []"
| "client_use i cl \<longleftrightarrow> life cl = Alive"

section \<open>Invariant\<close>

abbreviation client_at :: "TcpClient \<Rightarrow> nat \<Rightarrow> TcpConnection" where
  "client_at cl k \<equiv> snd (client_conns cl ! k)"

definition client_inv :: "TcpClient \<Rightarrow> bool" where
  "client_inv cl \<longleftrightarrow> connector_inv (connector cl) \<and> life cl \<noteq> Dangling
     \<and> (life cl = Orphaned \<longrightarrow> connector_tasks (connector cl) = [] \<and> (connect (connector cl) \<longrightarrow> under_way (connector cl) = 0))
     \<and> (\<forall>k < length (client_conns cl). lifecycle_ok (conn_state (client_at cl k)) (lifecycle (client_at cl k)))
     \<and> (life cl = Alive \<longrightarrow> (\<forall>k < length (client_conns cl). closed (client_at cl k) \<longleftrightarrow> connection cl \<noteq> Some k)
         \<and> (\<forall>k. connection cl = Some k \<longrightarrow> k < length (client_conns cl) \<and> connector_state (connector cl) = cConnected))
     \<and> (\<forall>k \<in> set (destroy_tasks cl). k < length (client_conns cl) \<and> closed (client_at cl k))"

lemma client_invD:
  assumes "client_inv cl"
  shows "connector_inv (connector cl)" "life cl \<noteq> Dangling"
    "life cl = Orphaned \<Longrightarrow> connector_tasks (connector cl) = [] \<and> (connect (connector cl) \<longrightarrow> under_way (connector cl) = 0)"
    "k < length (client_conns cl) \<Longrightarrow> lifecycle_ok (conn_state (client_at cl k)) (lifecycle (client_at cl k))"
    "life cl = Alive \<Longrightarrow> k < length (client_conns cl) \<Longrightarrow> closed (client_at cl k) \<longleftrightarrow> connection cl \<noteq> Some k"
    "life cl = Alive \<Longrightarrow> connection cl = Some k \<Longrightarrow> k < length (client_conns cl) \<and> connector_state (connector cl) = cConnected"
    "k \<in> set (destroy_tasks cl) \<Longrightarrow> k < length (client_conns cl) \<and> closed (client_at cl k)"
  using assms unfolding client_inv_def by blast+

lemma client_set_conn_simps [simp]:
  "connector (client_set_conn k c cl) = connector cl" "life (client_set_conn k c cl) = life cl"
  "connection (client_set_conn k c cl) = connection cl" "destroy_tasks (client_set_conn k c cl) = destroy_tasks cl"
  "length (client_conns (client_set_conn k c cl)) = length (client_conns cl)"
  "client_retry (client_set_conn k c cl) = client_retry cl" "client_connect (client_set_conn k c cl) = client_connect cl"
  by (simp_all add: client_set_conn_def)

lemma client_set_conn_at:
  "k < length (client_conns cl) \<Longrightarrow> client_at (client_set_conn k c cl) j = (if j = k then c else client_at cl j)"
  by (simp add: client_set_conn_def nth_list_update)

lemma client_set_conn_inv:
  assumes "client_inv cl" "k < length (client_conns cl)" "lifecycle_ok (conn_state c) (lifecycle c)"
    "closed c \<longleftrightarrow> closed (client_at cl k) \<or> life cl = Orphaned \<and> closed c" "closed (client_at cl k) \<Longrightarrow> closed c"
  shows "client_inv (client_set_conn k c cl)"
  using assms unfolding client_inv_def by (auto simp: client_set_conn_at)

text \<open>Taking the connection that was closed out of the client.\<close>

lemma client_remove_ok:
  assumes inv: "client_inv cl" and k: "connection cl = Some k" "life cl = Alive"
    and c: "lifecycle_ok (conn_state c) (lifecycle c)" "closed c"
  shows "\<exists>cl'. TcpClient_removeConnection True k (client_set_conn k c cl) = Inr cl' \<and> client_inv cl' \<and> connection cl' = None
    \<and> (if client_retry cl \<and> client_connect cl
       then attempts (connector cl') \<noteq> [] \<and> delays (connector cl') = []
       else connector cl' = connector cl)"
proof -
  note D = client_invD [OF inv]
  let ?cl = "(client_set_conn k c cl)\<lparr>connection := None, destroy_tasks := destroy_tasks cl @ [k]\<rparr>"
  have kl: "k < length (client_conns cl)" "connector_state (connector cl) = cConnected"
    using D(6) [OF k(2,1)] by simp_all
  have inv': "client_inv (?cl\<lparr>connector := r\<rparr>)" if "connector_inv r" for r
    using that D(4,5,7) k c kl(1) unfolding client_inv_def by (auto simp: client_set_conn_at [OF kl(1)])
  have same: "?cl\<lparr>connector := connector cl\<rparr> = ?cl"
    by (cases cl) (simp add: client_set_conn_def)
  have inv0: "client_inv ?cl"
    using inv' [OF D(1)] unfolding same .
  obtain r where r: "Connector_restart True (connector cl) = Inr r" "connector_inv r" "attempts r \<noteq> []" "delays r = []"
    using proper_step [OF D(1), of CRestart] kl(2)
    by (auto simp: Connector_restart_def Connector_startInThisThread_def Connector_setState_def Connector_connect_def socket_close_def Let_def)
  show ?thesis
    using inv0 inv' [OF r(2)] r k
    by (cases "client_retry cl \<and> client_connect cl") (auto simp: TcpClient_removeConnection_def Let_def)
qed

lemma client_conn_ok:
  assumes inv: "client_inv cl" and k: "k < length (client_conns cl)" and cb: "connectionCallback user \<noteq> None"
  shows "(\<exists>e. tcp_step (owner_callbacks user) so st (client_at cl k) = Inl e \<and> client_conn_step user so k st cl = Inl e)
    \<or> (\<exists>cl'. client_conn_step user so k st cl = Inr cl' \<and> client_inv cl')"
proof (cases "tcp_step (owner_callbacks user) so st (client_at cl k)")
  case (Inl e)
  then show ?thesis
    by (simp add: client_conn_step_def Let_def)
next
  case (Inr c)
  note D = client_invD [OF inv]
  have cb': "connectionCallback (owner_callbacks user) \<noteq> None"
    using cb by (simp add: owner_callbacks_def)
  have l: "lifecycle_ok (conn_state c) (lifecycle c)"
    by (rule tcp_step_lifecycle [OF Inr cb' D(4) [OF k]])
  have keep: "closed (client_at cl k) \<Longrightarrow> closed c"
    by (rule closed_step [OF Inr D(4) [OF k]])
  show ?thesis
  proof (cases "closes (client_at cl k) < closes c")
    case False
    have "closed c \<longleftrightarrow> closed (client_at cl k)"
      using keep False closes_closed [of c] closes_closed [of "client_at cl k"] by auto
    then have "client_inv (client_set_conn k c cl)"
      by (intro client_set_conn_inv [OF inv k l]) auto
    then show ?thesis
      using Inr False by (simp add: client_conn_step_def Let_def)
  next
    case True
    have c: "closed c" "\<not> closed (client_at cl k)"
      using True closes_le [OF l] closes_closed [of c] closes_closed [of "client_at cl k"] by auto
    show ?thesis
    proof (cases "life cl")
      case Alive
      then have "connection cl = Some k"
        using D(5) [OF Alive k] c(2) by simp
      then show ?thesis
        using client_remove_ok [OF inv _ Alive l c(1)] Inr True Alive by (auto simp: client_conn_step_def Let_def)
    next
      case Orphaned
      let ?cl = "client_set_conn k c cl"
      have inv1: "client_inv ?cl"
        by (rule client_set_conn_inv [OF inv k l]) (use Orphaned c keep in auto)
      have "TcpConnection_connectDestroyed True (owner_callbacks user) (client_at ?cl k) = Inr c"
        using closed_disconnected [OF l c(1)] by (simp add: client_set_conn_at [OF k] TcpConnection_connectDestroyed_def)
      moreover have "client_inv (client_set_conn k c ?cl)"
        by (rule client_set_conn_inv [OF inv1 _ l]) (use k in \<open>auto simp: client_set_conn_at [OF k]\<close>)
      ultimately show ?thesis
        using Inr True Orphaned by (simp add: client_conn_step_def Let_def detail_removeConnection_def)
    next
      case Dangling
      then show ?thesis
        using D(2) by simp
    qed
  qed
qed

text \<open>What an event of the connector's loop does to the rest of the client.\<close>

lemma connector_effect:
  assumes inv: "connector_inv c" and i: "loop_event i" "connector_event i c" "connector_step i c = Inr c'"
  shows "handed c' = handed c \<and> (connector_state c = cConnected \<longrightarrow> connector_state c' = cConnected)
    \<or> length (handed c) < length (handed c') \<and> connect c \<and> connector_state c = cDisconnected \<and> connector_state c' = cConnected"
proof -
  have task: "handed d' = handed d \<and> (connector_state d = cConnected \<longrightarrow> connector_state d' = cConnected)"
    if "run_connector_task t d = Inr d'" for t d d'
    using that
    by (cases t) (auto simp: connector_defs Connector_retry_def split: if_splits)
  show ?thesis
  proof (cases i)
    case CTask
    then obtain t ts where "connector_tasks c = t # ts"
      using i(2) by (cases "connector_tasks c") auto
    then show ?thesis
      using task [of t "c\<lparr>connector_tasks := ts\<rparr>" c'] i(3) CTask by simp
  next
    case (CTimer j)
    then show ?thesis
      using task [of StartInThisThread "c\<lparr>retry_timers := drop_nth j (retry_timers c)\<rparr>" c'] i(3) by simp
  next
    case (CConnect j e so)
    then have "attempts c \<noteq> []"
      using i(2) by auto
    then have "connector_state c = cDisconnected"
      by (rule attempt_pending(3) [OF inv])
    then show ?thesis
      using i(3) CConnect on_connect_cases [of e so "c\<lparr>attempts := drop_nth j (attempts c)\<rparr>"]
      by (auto simp: Connector_connecting_def Connector_retry_def Connector_setState_def socket_close_def Let_def split: option.splits if_splits)
  qed (use i(1) in \<open>simp_all add: loop_event_def\<close>)
qed

lemma newConnection_inv:
  assumes inv: "client_inv cl" and a: "life cl = Alive" "connection cl = None"
    and c: "connector_inv c" "connector_state c = cConnected"
  shows "client_inv (cl\<lparr>connector := c, client_nextConnId := n, client_conns := client_conns cl @ [(b, fresh_connection)],
    connection := Some (length (client_conns cl))\<rparr>)"
  using inv a c fresh_connection_facts unfolding client_inv_def by (auto simp: nth_append less_Suc_eq)

lemma client_newConnection_ok:
  assumes inv: "client_inv cl" and a: "life cl = Alive" "connection cl = None"
    and c: "connector_inv c" "connector_state c = cConnected" and cb: "connectionCallback user \<noteq> None"
  shows "(\<exists>e. tcp_step (owner_callbacks user) so Established fresh_connection = Inl e
      \<and> TcpClient_newConnection user so True (cl\<lparr>connector := c\<rparr>) = Inl e)
    \<or> (\<exists>cl'. TcpClient_newConnection user so True (cl\<lparr>connector := c\<rparr>) = Inr cl' \<and> client_inv cl')"
proof -
  let ?n = "length (client_conns cl)"
  let ?cl = "cl\<lparr>connector := c, client_nextConnId := client_nextConnId cl + 1,
    client_conns := client_conns cl @ [(client_conn_name (serverAddr cl) (client_nextConnId cl), fresh_connection)], connection := Some ?n\<rparr>"
  have eq: "TcpClient_newConnection user so True (cl\<lparr>connector := c\<rparr>) = client_conn_step user so ?n Established ?cl"
    unfolding TcpClient_newConnection_def new_connection by (simp add: Let_def)
  have at: "client_at ?cl ?n = fresh_connection" "?n < length (client_conns ?cl)"
    by simp_all
  show ?thesis
    using client_conn_ok [OF newConnection_inv [OF inv a c] at(2) cb, of so Established] unfolding eq at(1) .
qed

text \<open>
  The step of a connection that an input of the client contains: that of the input itself, the
  \<open>shutdown\<close> of \<open>disconnect\<close>, the \<open>connectEstablished\<close> of a connection that the connector hands over, or the
  posted \<open>connectDestroyed\<close>.
\<close>

fun client_conn_step_of :: "client_input \<Rightarrow> TcpClient \<Rightarrow> (conn_step \<times> TcpConnection) option" where
  "client_conn_step_of (ClientConnInput k st) cl = Some (st, snd (client_conns cl ! k))"
| "client_conn_step_of (Disconnect in_loop) cl =
     map_option (\<lambda>k. (Call in_loop DoShutdown, snd (client_conns cl ! k))) (connection cl)"
| "client_conn_step_of (ConnectorEvent i) cl =
     (case connector_step i (connector cl) of
        Inr c \<Rightarrow> if length (handed (connector cl)) < length (handed c) then Some (Established, fresh_connection) else None
      | Inl e \<Rightarrow> None)"
| "client_conn_step_of DestroyConn cl =
     (case destroy_tasks cl of [] \<Rightarrow> None | k # ks \<Rightarrow> Some (Destroyed, snd (client_conns cl ! k)))"
| "client_conn_step_of _ cl = None"

text \<open>That step faults; \<open>connectDestroyed\<close> does not, nor does the assertion of \<open>connectEstablished\<close> fail.\<close>

definition client_fault :: "callbacks \<Rightarrow> socket_ops \<Rightarrow> client_input \<Rightarrow> TcpClient \<Rightarrow> fault \<Rightarrow> bool" where
  "client_fault user so i cl e \<longleftrightarrow> (\<exists>st c. client_conn_step_of i cl = Some (st, c)
     \<and> tcp_step (owner_callbacks user) so st c = Inl e \<and> st \<noteq> Destroyed \<and> (st = Established \<longrightarrow> conn_state c = kConnecting))"

lemma connector_update_inv:
  assumes "client_inv cl" "connector_inv c" "life cl = Alive"
    and "connector_state (connector cl) = cConnected \<Longrightarrow> connector_state c = cConnected"
  shows "client_inv (cl\<lparr>client_connect := b, connector := c\<rparr>)"
  using assms unfolding client_inv_def by auto

lemma connector_update_inv': 
  assumes "client_inv cl" "connector_inv c" "life cl = Alive"
    and "connector_state (connector cl) = cConnected \<Longrightarrow> connector_state c = cConnected"
  shows "client_inv (cl\<lparr>connector := c\<rparr>)"
  using assms unfolding client_inv_def by auto

lemma on_connect_tasks: "connector_tasks (on_connect e so c) = connector_tasks c"
  using on_connect_cases [of e so c]
  by (auto simp: Connector_connecting_def Connector_retry_def Connector_setState_def socket_close_def Let_def split: option.splits)

lemma client_connector_ok:
  assumes inv: "client_inv cl" and cb: "connectionCallback user \<noteq> None" and i: "loop_event i" "connector_event i (connector cl)"
  shows "(\<exists>e. client_connector_step user so i cl = Inl e \<and> client_fault user so (ConnectorEvent i) cl e)
    \<or> (\<exists>cl'. client_connector_step user so i cl = Inr cl' \<and> client_inv cl')"
proof -
  note D = client_invD [OF inv]
  have "proper_use i (connector cl)"
    using i by (cases i) (auto simp: loop_event_def)
  then obtain c where c: "connector_step i (connector cl) = Inr c" "connector_inv c"
    using proper_step [OF D(1)] by blast
  note e = connector_effect [OF D(1) i c(1)]
  show ?thesis
  proof (cases "life cl")
    case Alive
    show ?thesis
    proof (cases "length (handed (connector cl)) < length (handed c)")
      case True
      then have s: "connector_state (connector cl) = cDisconnected" "connector_state c = cConnected"
        using e by auto
      then have none: "connection cl = None"
        using D(6) [OF Alive] by (cases "connection cl") auto
      have eq: "client_connector_step user so i cl = TcpClient_newConnection user so True (cl\<lparr>connector := c\<rparr>)"
        using c(1) True Alive by (simp add: client_connector_step_def Let_def)
      have "client_conn_step_of (ConnectorEvent i) cl = Some (Established, fresh_connection)"
        using c(1) True by simp
      then show ?thesis
        using client_newConnection_ok [OF inv Alive none c(2) s(2) cb, of so] fresh_connection_facts(4)
        unfolding eq client_fault_def by blast
    next
      case False
      then have eq: "client_connector_step user so i cl = Inr (cl\<lparr>connector := c\<rparr>)"
        using c(1) Alive by (simp add: client_connector_step_def Let_def)
      have "client_inv (cl\<lparr>connector := c\<rparr>)"
        by (rule connector_update_inv' [OF inv c(2) Alive]) (use False e in auto)
      then show ?thesis
        using eq by simp
    qed
  next
    case Orphaned
    have t: "connector_tasks (connector cl) = []" "connect (connector cl) \<longrightarrow> under_way (connector cl) = 0"
      using D(3) [OF Orphaned] by simp_all
    have "under_way (connector cl) \<noteq> 0"
      using i t(1) by (cases i) (auto simp: under_way_def loop_event_def)
    then have off: "\<not> connect (connector cl)"
      using t(2) by simp
    note r = stopped_step [OF off i c(1)]
    have "connector_tasks c = []"
    proof (cases i)
      case (CTimer j)
      then show ?thesis
        using t(1) c(1) by (auto simp: Connector_startInThisThread_def Connector_connect_def socket_close_def Let_def split: if_splits)
    next
      case (CConnect j e so)
      then show ?thesis
        using t(1) c(1) on_connect_tasks [of e so] by auto
    qed (use i t(1) in \<open>simp_all add: loop_event_def\<close>)
    then have "client_inv (cl\<lparr>connector := c\<rparr>)"
      using inv c(2) r(1) Orphaned unfolding client_inv_def by simp
    moreover have "client_connector_step user so i cl = Inr (cl\<lparr>connector := c\<rparr>)"
      using c(1) r(2) i t(1) by (cases i) (auto simp: client_connector_step_def Let_def loop_event_def)
    ultimately show ?thesis
      by blast
  next
    case Dangling
    then show ?thesis
      using D(2) by simp
  qed
qed

lemma client_step_ok:
  assumes inv: "client_inv cl" and use: "client_use i cl" and cb: "connectionCallback user \<noteq> None"
  shows "(\<exists>e. client_step user so i cl = Inl e \<and> client_fault user so i cl e)
    \<or> (\<exists>cl'. client_step user so i cl = Inr cl' \<and> client_inv cl')"
proof -
  note D = client_invD [OF inv]
  have stop: "\<exists>c. Connector_stop b (connector cl) = Inr c \<and> connector_inv c \<and> \<not> connect c
      \<and> (connector_state (connector cl) = cConnected \<longrightarrow> connector_state c = cConnected)
      \<and> (b \<longrightarrow> connector_tasks c = connector_tasks (connector cl))" for b
    using proper_step [OF D(1), of "CStop b"]
    by (cases b) (auto simp: connector_defs Connector_retry_def split: if_splits)
  have conn: "(\<exists>e. client_conn_step user so k st cl0 = Inl e \<and> client_fault user so i cl e)
      \<or> (\<exists>cl'. client_conn_step user so k st cl0 = Inr cl' \<and> client_inv cl')"
    if "client_inv cl0" "client_conns cl0 = client_conns cl" "k < length (client_conns cl)"
      "st \<noteq> Established" "st \<noteq> Destroyed" "client_conn_step_of i cl = Some (st, client_at cl k)" for k st cl0
    using client_conn_ok [OF that(1) _ cb, of k so st] that(2-) unfolding client_fault_def by metis
  show ?thesis
  proof (cases i)
    case (Connect b)
    then have u: "life cl = Alive" "proper_use (CStart b) (connector cl)"
      using use by auto
    obtain c where "Connector_start b (connector cl) = Inr c" "connector_inv c"
      using proper_step [OF D(1) u(2)] by auto
    moreover have "client_inv (cl\<lparr>client_connect := True, connector := c\<rparr>)"
      by (rule connector_update_inv [OF inv calculation(2) u(1)]) (use u(2) in simp)
    ultimately show ?thesis
      using Connect by (simp add: TcpClient_connect_def)
  next
    case (Disconnect b)
    have inv1: "client_inv (cl\<lparr>client_connect := False\<rparr>)"
      using inv by (simp add: client_inv_def)
    show ?thesis
    proof (cases "connection cl")
      case (Some k)
      then have "k < length (client_conns cl)"
        using D(6) use Disconnect by auto
      then show ?thesis
        using conn [OF inv1, of k "Call b DoShutdown"] Some Disconnect by (simp add: TcpClient_disconnect_def Let_def)
    qed (use inv1 Disconnect in \<open>simp add: TcpClient_disconnect_def\<close>)
  next
    case (Stop b)
    obtain c where c: "Connector_stop b (connector cl) = Inr c" "connector_inv c"
      "connector_state (connector cl) = cConnected \<longrightarrow> connector_state c = cConnected"
      using stop by blast
    have "client_inv (cl\<lparr>client_connect := False, connector := c\<rparr>)"
      by (rule connector_update_inv [OF inv c(2)]) (use Stop use c(3) in simp_all)
    then show ?thesis
      using Stop c(1) by (simp add: TcpClient_stop_def)
  next
    case EnableRetry
    have "client_inv (TcpClient_enableRetry cl)"
      using inv by (simp add: client_inv_def TcpClient_enableRetry_def)
    then show ?thesis
      using EnableRetry by simp
  next
    case (ConnectorEvent j)
    then show ?thesis
      using client_connector_ok [OF inv cb] use by simp
  next
    case (ClientConnInput k st)
    then show ?thesis
      using conn [OF inv, of k st] use by auto
  next
    case DestroyConn
    then obtain k ks where q: "destroy_tasks cl = k # ks"
      using use by (cases "destroy_tasks cl") auto
    have k: "k < length (client_conns cl)" "closed (client_at cl k)"
      using D(7) q by simp_all
    have inv1: "client_inv (cl\<lparr>destroy_tasks := ks\<rparr>)"
      using inv q by (simp add: client_inv_def)
    have "tcp_step (owner_callbacks user) so Destroyed (client_at cl k) = Inr (client_at cl k)"
      using closed_disconnected [OF D(4) [OF k(1)] k(2)] by (simp add: TcpConnection_connectDestroyed_def)
    then show ?thesis
      using client_conn_ok [OF inv1 _ cb, of k so Destroyed] k(1) q DestroyConn by simp
  next
    case (Destruct b)
    then have u: "life cl = Alive" "b" "connector_tasks (connector cl) = []"
      using use by simp_all
    show ?thesis
    proof (cases "connection cl")
      case None
      obtain c where c: "Connector_stop True (connector cl) = Inr c" "connector_inv c" "\<not> connect c" "connector_tasks c = []"
        using stop [of True] u(3) by auto
      have "client_inv (cl\<lparr>connector := c, life := Orphaned\<rparr>)"
        using inv c(2-4) by (simp add: client_inv_def)
      then show ?thesis
        using None Destruct u(2) c(1) by (simp add: TcpClient_destructor_def)
    next
      case (Some k)
      have "under_way (connector cl) = 0"
        using D(1) D(6) [OF u(1) Some] by (auto simp: connector_inv_def)
      then have "client_inv (cl\<lparr>life := Orphaned\<rparr>)"
        using inv u(3) by (simp add: client_inv_def)
      then show ?thesis
        using Some Destruct u(2) by (simp add: TcpClient_destructor_def)
    qed
  next
    case ReplaceCallback
    have "cl\<lparr>life := life cl\<rparr> = cl"
      by simp
    then show ?thesis
      using ReplaceCallback inv D(2) by simp
  qed
qed

interpretation client: kept_invariant client_use "client_step user so" "\<lambda>cl. connectionCallback user \<noteq> None \<and> client_inv cl" for user so
proof unfold_locales
  show "connectionCallback user \<noteq> None \<and> client_inv s'"
    if "connectionCallback user \<noteq> None \<and> client_inv s" "client_use i s" "client_step user so i s = Inr s'" for s i s'
    using client_step_ok [of s i user so] that by auto
qed

lemma client_run_inv:
  assumes "legal client_use (client_step user so) is (TcpClient_new addr n)"
    "run_steps (client_step user so) is (TcpClient_new addr n) = Inr cl" "connectionCallback user \<noteq> None"
  shows "client_inv cl"
proof -
  have "client_inv (TcpClient_new addr n)"
    by (simp add: client_inv_def TcpClient_new_def connector_inv_def Connector_new_def under_way_def)
  then show ?thesis
    using client.run_keeps [OF _ assms(1,2)] assms(3) by blast
qed

section \<open>Properties\<close>


text \<open>Conversely, the client's step faults when that of the connection does.\<close>

lemma client_conn_returns:
  assumes inv: "client_inv cl" and use: "client_use i cl" and step: "client_step user so i cl = Inr cl'"
    and c: "client_conn_step_of i cl = Some (st, c)"
  shows "\<exists>c'. tcp_step (owner_callbacks user) so st c = Inr c'"
proof -
  have conn: "\<exists>c'. tcp_step (owner_callbacks user) so st (client_at cl1 k) = Inr c'"
    if "client_conn_step user so k st cl1 = Inr cl2" for cl1 k cl2 st
    using that by (auto simp: client_conn_step_def rbind_eq_Inr Let_def)
  show ?thesis
  proof (cases i)
    case (Disconnect b)
    then obtain k where k: "connection cl = Some k" "st = Call b DoShutdown" "c = client_at cl k"
      using c by auto
    then have "client_conn_step user so k st (cl\<lparr>client_connect := False\<rparr>) = Inr cl'"
      using step Disconnect by (simp add: TcpClient_disconnect_def)
    then show ?thesis
      using conn [of k st "cl\<lparr>client_connect := False\<rparr>"] k(3) by simp
  next
    case (ClientConnInput k st')
    then show ?thesis
      using step c conn by auto
  next
    case DestroyConn
    then obtain k ks where k: "destroy_tasks cl = k # ks" "st = Destroyed" "c = client_at cl k"
      using c by (auto split: list.splits)
    then have "client_conn_step user so k Destroyed (cl\<lparr>destroy_tasks := ks\<rparr>) = Inr cl'"
      using step DestroyConn by simp
    then show ?thesis
      using conn [of k Destroyed "cl\<lparr>destroy_tasks := ks\<rparr>"] k(2,3) by simp
  next
    case (ConnectorEvent j)
    then obtain r where r: "connector_step j (connector cl) = Inr r" "length (handed (connector cl)) < length (handed r)"
      "st = Established" "c = fresh_connection"
      using c by (auto split: sum.splits if_splits)
    let ?cl = "cl\<lparr>connector := r\<rparr>" let ?k = "length (client_conns cl)"
    have "TcpClient_newConnection user so True ?cl = Inr cl'"
      using step ConnectorEvent r by (auto simp: client_connector_step_def Let_def split: if_splits)
    then have "client_conn_step user so ?k Established (?cl\<lparr>client_nextConnId := client_nextConnId cl + 1,
        client_conns := client_conns cl @ [(client_conn_name (serverAddr cl) (client_nextConnId cl), fresh_connection)],
        connection := Some ?k\<rparr>) = Inr cl'"
      unfolding TcpClient_newConnection_def new_connection by (simp add: Let_def)
    then show ?thesis
      using conn r(3,4) by fastforce
  qed (use c in simp_all)
qed

text \<open>C27. In proper use (a connection callback, \<open>connect\<close> on an idle connector, the destructor in the loop's
  thread while no function of the connector is posted) no check of the client or its connector fails and
  nothing is used after its end: an input makes the client fault exactly when it contains a step of a
  connection and that very step, in the state which that connection is in, faults.\<close>

theorem TcpClient_faults_are_of_connections:
  assumes "legal client_use (client_step user so) is (TcpClient_new addr n)"
    and "run_steps (client_step user so) is (TcpClient_new addr n) = Inr cl" "connectionCallback user \<noteq> None"
    and "client_use i cl"
  shows "client_step user so i cl = Inl e \<longleftrightarrow>
    (\<exists>st c. client_conn_step_of i cl = Some (st, c) \<and> tcp_step (owner_callbacks user) so st c = Inl e
       \<and> st \<noteq> Destroyed \<and> (st = Established \<longrightarrow> conn_state c = kConnecting))"
proof -
  have inv: "client_inv cl"
    by (rule client_run_inv [OF assms(1-3)])
  have ok: "(\<exists>e. client_step user so i cl = Inl e \<and> client_fault user so i cl e) \<or> (\<exists>cl'. client_step user so i cl = Inr cl')"
    using client_step_ok [OF inv assms(4,3)] by blast
  show ?thesis
    using ok client_conn_returns [OF inv assms(4)] unfolding client_fault_def by fastforce
qed

text \<open>
  A client whose connection is lost and that is not connecting again. From then on its owner may do
  whatever it likes, also call \<open>connect\<close>, until the destructor.
\<close>

fun later_use :: "client_input \<Rightarrow> TcpClient \<Rightarrow> bool" where
  "later_use (Connect in_loop) cl \<longleftrightarrow> True"
| "later_use (Destruct in_loop) cl \<longleftrightarrow> False"
| "later_use i cl \<longleftrightarrow> client_use i cl"

definition lost :: "nat \<Rightarrow> TcpClient \<Rightarrow> bool" where
  "lost n cl \<longleftrightarrow> life cl = Alive \<and> connection cl = None \<and> length (client_conns cl) = n
     \<and> connector_state (connector cl) = cConnected \<and> attempts (connector cl) = [] \<and> retry_timers (connector cl) = []
     \<and> (\<forall>k < n. closed (client_at cl k) \<and> lifecycle_ok (conn_state (client_at cl k)) (lifecycle (client_at cl k)))
     \<and> (\<forall>k \<in> set (destroy_tasks cl). k < n)"

lemma lost_conn_step:
  assumes "lost n cl" "k < n" "connectionCallback user \<noteq> None" "client_conn_step user so k st cl = Inr cl'"
  shows "lost n cl'"
proof -
  obtain c where c: "tcp_step (owner_callbacks user) so st (client_at cl k) = Inr c"
    using assms(4) by (auto simp: client_conn_step_def rbind_eq_Inr Let_def)
  have old: "closed (client_at cl k)" "lifecycle_ok (conn_state (client_at cl k)) (lifecycle (client_at cl k))" "k < length (client_conns cl)"
    using assms(1,2) by (simp_all add: lost_def)
  have l: "lifecycle_ok (conn_state c) (lifecycle c)"
    by (rule tcp_step_lifecycle [OF c _ old(2)]) (use assms(3) in \<open>simp add: owner_callbacks_def\<close>)
  have "closed c"
    by (rule closed_step [OF c old(2,1)])
  moreover have "\<not> closes (client_at cl k) < closes c"
    using closes_le [OF l] closes_closed [of "client_at cl k"] old(1) by auto
  ultimately show ?thesis
    using assms(1,4) c l by (auto simp: client_conn_step_def lost_def client_set_conn_at [OF old(3)] Let_def)
qed

lemma lost_step:
  assumes lost: "lost n cl" and use: "later_use i cl" and cb: "connectionCallback user \<noteq> None"
    and step: "client_step user so i cl = Inr cl'"
  shows "lost n cl'"
proof (cases i)
  case (Connect b)
  then show ?thesis
    using lost step by (auto simp: lost_def TcpClient_connect_def rbind_eq_Inr connector_defs split: if_splits)
next
  case (Stop b)
  then show ?thesis
    using lost step by (auto simp: lost_def TcpClient_stop_def rbind_eq_Inr connector_defs split: if_splits)
next
  case (ConnectorEvent j)
  then have j: "j = CTask" "connector_tasks (connector cl) \<noteq> []"
    using use lost by (cases j; simp add: loop_event_def lost_def)+
  then obtain t ts where t: "connector_tasks (connector cl) = t # ts"
    by (cases "connector_tasks (connector cl)") auto
  show ?thesis
    using lost step ConnectorEvent j(1) t
    by (cases t) (auto simp: lost_def client_connector_step_def rbind_eq_Inr connector_defs split: if_splits)
next
  case (ClientConnInput k st)
  then have "k < n" "client_conn_step user so k st cl = Inr cl'"
    using use step lost by (simp_all add: lost_def)
  then show ?thesis
    by (rule lost_conn_step [OF lost _ cb])
next
  case DestroyConn
  then obtain k ks where q: "destroy_tasks cl = k # ks"
    using use by (cases "destroy_tasks cl") auto
  then have "lost n (cl\<lparr>destroy_tasks := ks\<rparr>)" "k < n"
    using lost by (auto simp: lost_def)
  then show ?thesis
    using lost_conn_step [OF _ _ cb] step DestroyConn q by auto
qed (use lost use step in \<open>auto simp: lost_def TcpClient_disconnect_def TcpClient_enableRetry_def\<close>)

interpretation lost_client: kept_invariant later_use "client_step user so" "\<lambda>cl. connectionCallback user \<noteq> None \<and> lost n cl" for user so n
  by unfold_locales (use lost_step in blast)

lemma lost_connect:
  assumes "lost n cl"
  shows "TcpClient_connect True cl = Inl AssertFailed"
    "connector_tasks (connector cl) = StartInThisThread # ts \<Longrightarrow> client_step user so (ConnectorEvent CTask) cl = Inl AssertFailed"
  using assms by (simp_all add: lost_def TcpClient_connect_def client_connector_step_def connector_defs)

text \<open>C28. When the connection is lost, in whatever step of it, the client lets it go; with \<open>retry_\<close> and
  \<open>connect_\<close> set it is connecting again at once, with the delays counted anew. Otherwise it never has a
  connection again before its destructor, whatever its owner does (\<open>stop\<close>, \<open>disconnect\<close>, \<open>enableRetry\<close>
  and \<open>connect\<close> from any thread): in every later state \<open>connect()\<close> in the loop's thread fails the assertion of
  \<open>Connector::startInThisThread\<close>, and so does the function that \<open>connect()\<close> posts from another thread, since
  nothing resets the connector's state.\<close>

theorem TcpClient_lost_connection:
  assumes "legal client_use (client_step user so) is (TcpClient_new addr n)"
    and "run_steps (client_step user so) is (TcpClient_new addr n) = Inr cl" "connectionCallback user \<noteq> None" "life cl = Alive"
    and "k < length (client_conns cl)" "tcp_step (owner_callbacks user) so st (snd (client_conns cl ! k)) = Inr c"
    and "OnClose \<notin> set (events (snd (client_conns cl ! k)))" "OnClose \<in> set (events c)"
  shows "\<exists>cl'. client_step user so (ClientConnInput k st) cl = Inr cl' \<and> connection cl' = None
    \<and> (if client_retry cl \<and> client_connect cl
       then attempts (connector cl') \<noteq> [] \<and> delays (connector cl') = []
       else \<forall>is' cl''. legal later_use (client_step user so) is' cl' \<and> run_steps (client_step user so) is' cl' = Inr cl'' \<longrightarrow>
         connection cl'' = None \<and> length (client_conns cl'') = length (client_conns cl)
         \<and> TcpClient_connect True cl'' = Inl AssertFailed
         \<and> (\<forall>ts. connector_tasks (connector cl'') = StartInThisThread # ts \<longrightarrow>
              client_step user so (ConnectorEvent CTask) cl'' = Inl AssertFailed))"
proof -
  have inv: "client_inv cl"
    by (rule client_run_inv [OF assms(1-3)])
  note D = client_invD [OF inv]
  have some: "connection cl = Some k" "connector_state (connector cl) = cConnected"
    using D(5,6) [OF assms(4)] assms(5,7) by (auto simp: closed_def)
  have cb: "connectionCallback (owner_callbacks user) \<noteq> None"
    using assms(3) by (simp add: owner_callbacks_def)
  have l: "lifecycle_ok (conn_state c) (lifecycle c)"
    by (rule tcp_step_lifecycle [OF assms(6) cb D(4) [OF assms(5)]])
  have "closes (client_at cl k) < closes c"
    using assms(7,8) closes_closed [of c] closes_closed [of "client_at cl k"] by (simp add: closed_def)
  then have step: "client_step user so (ClientConnInput k st) cl = TcpClient_removeConnection True k (client_set_conn k c cl)"
    using assms(4,6) by (simp add: client_conn_step_def Let_def)
  obtain cl' where cl': "TcpClient_removeConnection True k (client_set_conn k c cl) = Inr cl'" "client_inv cl'" "connection cl' = None"
    "if client_retry cl \<and> client_connect cl then attempts (connector cl') \<noteq> [] \<and> delays (connector cl') = []
       else connector cl' = connector cl"
    using client_remove_ok [OF inv some(1) assms(4) l] assms(8) unfolding closed_def by metis
  have same: "life cl' = Alive" "length (client_conns cl') = length (client_conns cl)"
    using cl'(1) assms(4) by (auto simp: TcpClient_removeConnection_def rbind_eq_Inr Let_def split: if_splits)
  show ?thesis
  proof (cases "client_retry cl \<and> client_connect cl")
    case True
    then show ?thesis
      using cl'(1,3,4) unfolding step by simp
  next
    case False
    then have conn: "connector cl' = connector cl"
      using cl'(4) by simp
    have "under_way (connector cl) = 0"
      using D(1) some(2) by (auto simp: connector_inv_def)
    then have "lost (length (client_conns cl)) cl'"
      using client_invD(4,5,7) [OF cl'(2)] some(2) same cl'(3) unfolding lost_def conn by (auto simp: under_way_def)
    then have "lost (length (client_conns cl)) cl''"
      if "legal later_use (client_step user so) is' cl'" "run_steps (client_step user so) is' cl' = Inr cl''" for is' cl''
      using lost_client.run_keeps [OF _ that] assms(3) by blast
    then have "connection cl'' = None \<and> length (client_conns cl'') = length (client_conns cl)
        \<and> TcpClient_connect True cl'' = Inl AssertFailed
        \<and> (\<forall>ts. connector_tasks (connector cl'') = StartInThisThread # ts \<longrightarrow>
             client_step user so (ConnectorEvent CTask) cl'' = Inl AssertFailed)"
      if "legal later_use (client_step user so) is' cl'" "run_steps (client_step user so) is' cl' = Inr cl''" for is' cl''
      using that lost_connect [of "length (client_conns cl)" cl''] by (auto simp: lost_def)
    then show ?thesis
      using cl'(1,3) False unfolding step by auto
  qed
qed

text \<open>When the destructor runs in another thread, the connection still calls the client until the
  posted function has changed its callback.\<close>

lemma TcpClient_destroyed_elsewhere:
  assumes "life cl = Alive" "connection cl = Some k" "tcp_step (owner_callbacks user) so st (snd (client_conns cl ! k)) = Inr c"
    and "OnClose \<notin> set (events (snd (client_conns cl ! k)))" "OnClose \<in> set (events c)"
  shows "run_steps (client_step user so) [Destruct False, ClientConnInput k st] cl = Inl UseAfterFree"
proof -
  have "closes (client_at cl k) < closes c"
    using assms(4,5) closes_closed [of c] closes_closed [of "client_at cl k"] by (simp add: closed_def)
  then show ?thesis
    using assms by (simp add: TcpClient_destructor_def client_conn_step_def Let_def)
qed

section \<open>Runs\<close>

text \<open>A client that retries, its first connection, and the loss of it.\<close>

definition first_connection :: "client_input list" where
  "first_connection = [EnableRetry, Connect True, ConnectorEvent (CConnect 0 success (Some 0))]"

lemmas client_evals = TcpClient_new_def TcpClient_enableRetry_def TcpClient_connect_def client_connector_step_def
  TcpClient_newConnection_def new_connection client_conn_step_def client_set_conn_def TcpClient_removeConnection_def
  connector_defs Connector_new_def Connector_retry_def drop_nth_def under_way_def loop_event_def owner_callbacks_def
  no_callbacks_def fresh_connection_def TcpConnection_connectEstablished_def TcpConnection_setState_def
  TcpConnection_readHeader_def invoke_if_def invoke_def log_event_def on_read_def on_readHeader_def TcpConnection_handleClose_def
  closes_def

lemma first_connection_run:
  obtains cl c where "legal client_use (client_step no_callbacks bswap_ops) first_connection (TcpClient_new ''::1'' 5)"
    "run_steps (client_step no_callbacks bswap_ops) first_connection (TcpClient_new ''::1'' 5) = Inr cl"
    "life cl = Alive" "length (client_conns cl) = 1" "OnClose \<notin> set (events (snd (client_conns cl ! 0)))"
    "client_retry cl" "client_connect cl"
    "tcp_step (owner_callbacks no_callbacks) bswap_ops ReadFail (snd (client_conns cl ! 0)) = Inr c" "OnClose \<in> set (events c)"
  by (simp add: first_connection_def client_evals)


lemma TcpClient_lost_connection_witness:
  "\<exists>cl. run_steps (client_step no_callbacks bswap_ops) (first_connection @ [ClientConnInput 0 ReadFail]) (TcpClient_new ''::1'' 5) = Inr cl
    \<and> connection cl = None \<and> attempts (connector cl) \<noteq> []"
proof -
  obtain cl c where cl: "legal client_use (client_step no_callbacks bswap_ops) first_connection (TcpClient_new ''::1'' 5)"
    "run_steps (client_step no_callbacks bswap_ops) first_connection (TcpClient_new ''::1'' 5) = Inr cl"
    "life cl = Alive" "length (client_conns cl) = 1" "OnClose \<notin> set (events (snd (client_conns cl ! 0)))"
    "client_retry cl" "client_connect cl"
    "tcp_step (owner_callbacks no_callbacks) bswap_ops ReadFail (snd (client_conns cl ! 0)) = Inr c" "OnClose \<in> set (events c)"
    by (rule first_connection_run)
  show ?thesis
    using TcpClient_lost_connection [OF cl(1,2) _ cl(3) _ cl(8,5,9)] cl(2,4,6,7) unfolding run_steps_append
    by (auto simp: no_callbacks_def)
qed

text \<open>A connection callback that takes a byte where there is none.\<close>

lemma TcpClient_faults_are_of_connections_witness:
  "\<exists>cl. run_steps (client_step (no_callbacks\<lparr>connectionCallback := Some (\<lambda>_. [Consume 1])\<rparr>) bswap_ops) [Connect True] (TcpClient_new ''::1'' 5) = Inr cl
    \<and> client_step (no_callbacks\<lparr>connectionCallback := Some (\<lambda>_. [Consume 1])\<rparr>) bswap_ops (ConnectorEvent (CConnect 0 success (Some 0))) cl = Inl AssertFailed"
proof -
  let ?u = "no_callbacks\<lparr>connectionCallback := Some (\<lambda>_. [Consume 1])\<rparr>" and ?i = "ConnectorEvent (CConnect 0 success (Some 0))"
  obtain cl where cl: "legal client_use (client_step ?u bswap_ops) [Connect True] (TcpClient_new ''::1'' 5)"
    "run_steps (client_step ?u bswap_ops) [Connect True] (TcpClient_new ''::1'' 5) = Inr cl"
    "client_use ?i cl" "client_conn_step_of ?i cl = Some (Established, fresh_connection)"
    by (simp add: client_evals)
  have "tcp_step (owner_callbacks ?u) bswap_ops Established fresh_connection = Inl AssertFailed"
    by (simp add: client_evals Buffer_retrieve_def Buffer_readableBytes_def fresh_buffer_def)
  then show ?thesis
    using TcpClient_faults_are_of_connections [OF cl(1,2) _ cl(3), of AssertFailed] cl(2,4) fresh_connection_facts(4) by auto
qed

end
