(* ===== verification/ThreadPool.thy ===== *)
theory ThreadPool
  imports StepSystem "HOL-Library.Multiset"
begin

text \<open>
  \<open>ThreadPool.h\<close>, \<open>ThreadPool.cpp\<close>: worker threads that take tasks from a shared queue. A run
  interleaves the steps of workers, posting threads and \<open>stop\<close>; what a thread does while it holds
  the mutex is one step, from the lock to the release or the wait. The lemmas show that no task is
  lost or run twice and the queue keeps its bound, that no wake-up is lost, and what \<open>stop\<close> and the
  destructor do to the workers.
\<close>

section \<open>State\<close>

text \<open>
  Where a worker is: at the test of \<open>while (runing_)\<close>, before \<open>take\<close>, asleep in \<open>notEmpty_.wait\<close>
  (notified or not), with the task that \<open>take\<close> gave, which is empty for \<open>HasNoTask\<close>, or returned
  from \<open>threadFunc\<close>.
\<close>

datatype 't worker = AtLoop | AtTake | Asleep bool | HasTask 't | HasNoTask | Exited

text \<open>
  \<open>unstarted\<close> counts the threads that \<open>start\<close> has still to create; \<open>blocked\<close> are the tasks whose
  \<open>post\<close> sleeps in \<open>notFull_.wait\<close>, with whether it was notified; \<open>spinning\<close> says that a \<open>post\<close>
  goes round its loop with the mutex held. \<open>accepted\<close>, \<open>taken\<close> and \<open>executed\<close> list the tasks that
  were put in the queue, taken from it and run.
\<close>

record 't ThreadPool =
  maxQueueSize :: int32
  queue :: "'t list"
  workers :: "'t worker list"
  unstarted :: nat
  runing :: bool
  blocked :: "('t \<times> bool) list"
  spinning :: bool
  pool_gone :: bool
  accepted :: "'t list"
  taken :: "'t list"
  executed :: "'t list"

definition ThreadPool_new :: "'t ThreadPool" where
  "ThreadPool_new =
     \<lparr>maxQueueSize = 0, queue = [], workers = [], unstarted = 0, runing = False, blocked = [], spinning = False,
      pool_gone = False, accepted = [], taken = [], executed = []\<rparr>"

definition ThreadPool_setmaxQueueSize :: "int32 \<Rightarrow> 't ThreadPool \<Rightarrow> 't ThreadPool" where
  "ThreadPool_setmaxQueueSize m p = p\<lparr>maxQueueSize := m\<rparr>"

section \<open>Operations\<close>

text \<open>\<open>hw\<close> is \<open>hardware_concurrency()\<close>; \<open>spawn\<close> is one turn of the loop of \<open>start\<close>.\<close>

definition ThreadPool_start :: "int \<Rightarrow> int \<Rightarrow> 't ThreadPool \<Rightarrow> 't ThreadPool result" where
  "ThreadPool_start hw threadNum p =
     (if workers p \<noteq> [] then Inl AssertFailed
      else
        (let num = threadNum;
             num = (if num \<le> 0 then hw else num) in
         Inr (p\<lparr>runing := True, unstarted := nat num\<rparr>)))"

definition spawn :: "'t ThreadPool \<Rightarrow> 't ThreadPool" where
  "spawn p = p\<lparr>unstarted := unstarted p - 1, workers := workers p @ [AtLoop]\<rparr>"

text \<open>\<open>notify_one\<close> wakes one sleeper, if there is one: which is for the system to choose.\<close>

definition notify_worker :: "nat \<Rightarrow> 't ThreadPool \<Rightarrow> 't ThreadPool" where
  "notify_worker w p = (if w < length (workers p) \<and> workers p ! w = Asleep False then p\<lparr>workers := (workers p)[w := Asleep True]\<rparr> else p)"

definition notify_poster :: "nat \<Rightarrow> 't ThreadPool \<Rightarrow> 't ThreadPool" where
  "notify_poster i p = (if i < length (blocked p) then p\<lparr>blocked := (blocked p)[i := (fst (blocked p ! i), True)]\<rparr> else p)"

text \<open>The conversion of \<open>maxQueueSize_\<close> to \<open>size_t\<close> in the comparisons with \<open>queue_.size()\<close>.\<close>

definition max_size :: "'t ThreadPool \<Rightarrow> nat" where
  "max_size p = nat (sint (maxQueueSize p) mod 2 ^ 64)"

definition queue_full :: "'t ThreadPool \<Rightarrow> bool" where
  "queue_full p \<longleftrightarrow> 0 < sint (maxQueueSize p) \<and> max_size p = length (queue p)"

definition push_task :: "nat \<Rightarrow> 't \<Rightarrow> 't ThreadPool \<Rightarrow> 't ThreadPool" where
  "push_task w task p = notify_worker w (p\<lparr>queue := queue p @ [task], accepted := accepted p @ [task]\<rparr>)"

text \<open>The loop of \<open>post\<close>, from its test on: the predicate of \<open>wait\<close> is evaluated before it sleeps.\<close>

definition post_loop :: "nat \<Rightarrow> 't \<Rightarrow> 't ThreadPool \<Rightarrow> 't ThreadPool" where
  "post_loop w task p =
     (if queue_full p then
        (if length (queue p) < max_size p \<or> \<not> runing p then p\<lparr>spinning := True\<rparr>
         else p\<lparr>blocked := blocked p @ [(task, False)]\<rparr>)
      else push_task w task p)"

definition ThreadPool_post :: "nat \<Rightarrow> 't \<Rightarrow> 't ThreadPool \<Rightarrow> 't ThreadPool result" where
  "ThreadPool_post w task p = (if \<not> runing p then Inl RuntimeError else Inr (post_loop w task p))"

text \<open>A sleeping \<open>post\<close> wakes up and evaluates the predicate again.\<close>

definition post_resume :: "nat \<Rightarrow> nat \<Rightarrow> 't ThreadPool \<Rightarrow> 't ThreadPool" where
  "post_resume w i p =
     (let task = fst (blocked p ! i) in
      if length (queue p) < max_size p \<or> \<not> runing p then
        post_loop w task (p\<lparr>blocked := take i (blocked p) @ drop (Suc i) (blocked p)\<rparr>)
      else p\<lparr>blocked := (blocked p)[i := (task, False)]\<rparr>)"

definition ThreadPool_stop :: "'t ThreadPool \<Rightarrow> 't ThreadPool result" where
  "ThreadPool_stop p =
     (if \<not> runing p then Inl AssertFailed
      else
        Inr (p\<lparr>runing := False, workers := map (\<lambda>w. if w = Asleep False then Asleep True else w) (workers p),
               blocked := map (\<lambda>(t, n). (t, True)) (blocked p)\<rparr>))"

text \<open>\<open>take\<close> after its loop.\<close>

definition take_front :: "nat \<Rightarrow> nat \<Rightarrow> 't ThreadPool \<Rightarrow> 't ThreadPool" where
  "take_front i w p =
     (case queue p of
        [] \<Rightarrow> p\<lparr>workers := (workers p)[w := HasNoTask]\<rparr>
      | t # ts \<Rightarrow>
          (let p1 = p\<lparr>queue := ts, taken := taken p @ [t], workers := (workers p)[w := HasTask t]\<rparr> in
           if 0 < sint (maxQueueSize p1) then notify_poster i p1 else p1))"

definition ThreadPool_take :: "nat \<Rightarrow> nat \<Rightarrow> 't ThreadPool \<Rightarrow> 't ThreadPool" where
  "ThreadPool_take i w p =
     (if queue p = [] \<and> runing p then
        (if 0 < length (queue p) then take_front i w p
         else p\<lparr>workers := (workers p)[w := Asleep False]\<rparr>)
      else take_front i w p)"

text \<open>A sleeping worker wakes up: the predicate of \<open>wait\<close> knows the queue only.\<close>

definition take_resume :: "nat \<Rightarrow> nat \<Rightarrow> 't ThreadPool \<Rightarrow> 't ThreadPool" where
  "take_resume i w p =
     (if 0 < length (queue p) then ThreadPool_take i w p
      else p\<lparr>workers := (workers p)[w := Asleep False]\<rparr>)"

text \<open>
  One step of \<open>threadFunc\<close> of worker \<open>w\<close>. Calling an empty task throws \<open>bad_function_call\<close>, which
  the handler turns into \<open>LOG(FATAL)\<close>.
\<close>

definition ThreadPool_threadFunc :: "nat \<Rightarrow> nat \<Rightarrow> 't ThreadPool \<Rightarrow> 't ThreadPool result" where
  "ThreadPool_threadFunc i w p =
     (case workers p ! w of
        AtLoop \<Rightarrow> Inr (p\<lparr>workers := (workers p)[w := (if runing p then AtTake else Exited)]\<rparr>)
      | AtTake \<Rightarrow> Inr (ThreadPool_take i w p)
      | Asleep n \<Rightarrow> Inr (take_resume i w p)
      | HasTask t \<Rightarrow> Inr (p\<lparr>executed := executed p @ [t], workers := (workers p)[w := AtLoop]\<rparr>)
      | HasNoTask \<Rightarrow> Inl LogFatal
      | Exited \<Rightarrow> Inr p)"

text \<open>The destructor: \<open>stop\<close> joins no thread, and the destructors of the threads detach them.\<close>

definition ThreadPool_destructor :: "'t ThreadPool \<Rightarrow> 't ThreadPool result" where
  "ThreadPool_destructor p = rbind (if runing p then ThreadPool_stop p else Inr p) (\<lambda>p. Inr (p\<lparr>pool_gone := True\<rparr>))"

section \<open>Runs\<close>

datatype 't pool_input = SetMax int32 | StartPool int int | Spawn | Post nat 't | Resume nat nat | Worker nat nat | StopPool | Destroy_pool

fun pool_step :: "'t pool_input \<Rightarrow> 't ThreadPool \<Rightarrow> 't ThreadPool result" where
  "pool_step (SetMax m) p = Inr (ThreadPool_setmaxQueueSize m p)"
| "pool_step (StartPool hw n) p = ThreadPool_start hw n p"
| "pool_step Spawn p = Inr (spawn p)"
| "pool_step (Post w t) p = ThreadPool_post w t p"
| "pool_step (Resume w i) p = Inr (post_resume w i p)"
| "pool_step (Worker i w) p =
     (if pool_gone p \<and> workers p ! w \<noteq> Exited then Inl UseAfterFree else ThreadPool_threadFunc i w p)"
| "pool_step StopPool p = ThreadPool_stop p"
| "pool_step Destroy_pool p = ThreadPool_destructor p"

text \<open>The mutex is free.\<close>

definition mutex_free :: "'t ThreadPool \<Rightarrow> bool" where
  "mutex_free p \<longleftrightarrow> \<not> spinning p"

definition takes_lock :: "'t worker \<Rightarrow> bool" where
  "takes_lock w \<longleftrightarrow> (case w of AtTake \<Rightarrow> True | Asleep _ \<Rightarrow> True | _ \<Rightarrow> False)"

text \<open>The one that \<open>notify_one\<close> wakes is a sleeper, when there is one.\<close>

definition wakes_worker :: "nat \<Rightarrow> 't ThreadPool \<Rightarrow> bool" where
  "wakes_worker w p \<longleftrightarrow> Asleep False \<in> set (workers p) \<longrightarrow> w < length (workers p) \<and> workers p ! w = Asleep False"

definition wakes_poster :: "nat \<Rightarrow> 't ThreadPool \<Rightarrow> bool" where
  "wakes_poster i p \<longleftrightarrow> (\<exists>b \<in> set (blocked p). \<not> snd b) \<longrightarrow> i < length (blocked p) \<and> \<not> snd (blocked p ! i)"

text \<open>The bound is set before the pool is started, the pool is started once, and is used until it is
  destroyed.\<close>

fun pool_use :: "'t pool_input \<Rightarrow> 't ThreadPool \<Rightarrow> bool" where
  "pool_use (SetMax m) p \<longleftrightarrow> \<not> runing p \<and> queue p = [] \<and> \<not> pool_gone p"
| "pool_use (StartPool hw n) p \<longleftrightarrow> workers p = [] \<and> unstarted p = 0 \<and> \<not> runing p \<and> 0 < hw \<and> \<not> pool_gone p"
| "pool_use Spawn p \<longleftrightarrow> 0 < unstarted p"
| "pool_use (Post w t) p \<longleftrightarrow> mutex_free p \<and> runing p \<and> wakes_worker w p \<and> \<not> pool_gone p"
| "pool_use (Resume w i) p \<longleftrightarrow> mutex_free p \<and> i < length (blocked p) \<and> wakes_worker w p \<and> \<not> pool_gone p"
| "pool_use (Worker i w) p \<longleftrightarrow> w < length (workers p) \<and> (takes_lock (workers p ! w) \<longrightarrow> mutex_free p) \<and> wakes_poster i p"
| "pool_use StopPool p \<longleftrightarrow> mutex_free p \<and> runing p \<and> \<not> pool_gone p"
| "pool_use Destroy_pool p \<longleftrightarrow> mutex_free p \<and> unstarted p = 0 \<and> \<not> pool_gone p"

section \<open>Invariant\<close>

fun in_hand :: "'t worker \<Rightarrow> 't list" where
  "in_hand (HasTask t) = [t]"
| "in_hand _ = []"

definition held :: "'t ThreadPool \<Rightarrow> 't list" where
  "held p = concat (map in_hand (workers p))"

abbreviation notified_workers :: "'t ThreadPool \<Rightarrow> nat" where
  "notified_workers p \<equiv> count_list (workers p) (Asleep True)"

abbreviation notified_posters :: "'t ThreadPool \<Rightarrow> nat" where
  "notified_posters p \<equiv> length (filter snd (blocked p))"

text \<open>Four parts: where the tasks are; the bound of the queue; the workers and the mutex while the
  pool runs; that enough sleepers were notified.\<close>

definition tasks_inv :: "'t ThreadPool \<Rightarrow> bool" where
  "tasks_inv p \<longleftrightarrow> accepted p = taken p @ queue p \<and> mset (taken p) = mset (executed p) + mset (held p)"

definition bound_inv :: "'t ThreadPool \<Rightarrow> bool" where
  "bound_inv p \<longleftrightarrow> 0 < sint (maxQueueSize p) \<longrightarrow> length (queue p) \<le> max_size p"

definition running_inv :: "'t ThreadPool \<Rightarrow> bool" where
  "running_inv p \<longleftrightarrow> runing p \<longrightarrow> \<not> spinning p \<and> \<not> pool_gone p \<and> HasNoTask \<notin> set (workers p) \<and> Exited \<notin> set (workers p)
     \<and> (blocked p \<noteq> [] \<longrightarrow> 0 < sint (maxQueueSize p))"

definition wake_inv :: "'t ThreadPool \<Rightarrow> bool" where
  "wake_inv p \<longleftrightarrow> runing p \<longrightarrow> (Asleep False \<in> set (workers p) \<longrightarrow> length (queue p) \<le> notified_workers p)
     \<and> ((\<exists>b \<in> set (blocked p). \<not> snd b) \<longrightarrow> max_size p \<le> length (queue p) + notified_posters p)"

definition tp_inv :: "'t ThreadPool \<Rightarrow> bool" where
  "tp_inv p \<longleftrightarrow> tasks_inv p \<and> bound_inv p \<and> running_inv p \<and> wake_inv p"

lemma mset_held_update:
  "w < length ws \<Longrightarrow> mset (concat (map in_hand (ws[w := x]))) + mset (in_hand (ws ! w)) = mset (concat (map in_hand ws)) + mset (in_hand x)"
proof (induction ws arbitrary: w)
  case (Cons a ws)
  then show ?case
    by (cases w) auto
qed simp

lemma held_update:
  assumes "w < length (workers p)"
  shows "mset (held (p\<lparr>workers := (workers p)[w := x]\<rparr>)) + mset (in_hand (workers p ! w)) = mset (held p) + mset (in_hand x)"
  using mset_held_update [OF assms] by (simp add: held_def)

lemma count_list_update:
  "w < length xs \<Longrightarrow> count_list (xs[w := x]) y + (if xs ! w = y then 1 else 0) = count_list xs y + (if x = y then 1 else 0)"
proof (induction xs arbitrary: w)
  case (Cons a xs)
  show ?case
  proof (cases w)
    case (Suc j)
    then show ?thesis
      using Cons.IH [of j] Cons.prems by auto
  qed auto
qed simp

lemma filter_snd_update:
  "i < length bs \<Longrightarrow> length (filter snd (bs[i := (t, n)])) + (if snd (bs ! i) then 1 else 0) = length (filter snd bs) + (if n then 1 else 0)"
proof (induction bs arbitrary: i)
  case (Cons b bs)
  show ?case
  proof (cases i)
    case (Suc j)
    then show ?thesis
      using Cons.IH [of j] Cons.prems by auto
  qed auto
qed simp

lemma filter_snd_remove:
  "i < length bs \<Longrightarrow> length (filter snd (take i bs @ drop (Suc i) bs)) + (if snd (bs ! i) then 1 else 0) = length (filter snd bs)"
proof (induction bs arbitrary: i)
  case (Cons b bs)
  show ?case
  proof (cases i)
    case (Suc j)
    then show ?thesis
      using Cons.IH [of j] Cons.prems by auto
  qed auto
qed simp

section \<open>Every step keeps it\<close>

lemmas tp_defs = tp_inv_def tasks_inv_def bound_inv_def running_inv_def wake_inv_def held_def max_size_def

lemma set_update_cases: "y \<in> set (xs[w := x]) \<Longrightarrow> y = x \<or> y \<in> set xs"
  using set_update_subset_insert [of xs w x] by blast

text \<open>A push may use up one notification of a \<open>post\<close>.\<close>

definition almost_inv :: "'t ThreadPool \<Rightarrow> bool" where
  "almost_inv p \<longleftrightarrow> tasks_inv p \<and> bound_inv p \<and> running_inv p
     \<and> (Asleep False \<in> set (workers p) \<longrightarrow> length (queue p) \<le> notified_workers p)
     \<and> ((\<exists>b \<in> set (blocked p). \<not> snd b) \<longrightarrow> max_size p \<le> Suc (length (queue p) + notified_posters p))"

lemma push_inv:
  assumes inv: "almost_inv p" and room: "\<not> queue_full p" and wakes: "wakes_worker w p" and on: "runing p"
  shows "tp_inv (push_task w t p)"
proof -
  let ?q = "p\<lparr>queue := queue p @ [t], accepted := accepted p @ [t]\<rparr>"
  have t: "tasks_inv ?q"
    using inv by (simp add: almost_inv_def tp_defs)
  have b: "bound_inv ?q"
    using inv room by (auto simp: almost_inv_def bound_inv_def max_size_def queue_full_def)
  have r: "running_inv ?q"
    using inv by (simp add: almost_inv_def running_inv_def)
  have posters: "(\<exists>b \<in> set (blocked p). \<not> snd b) \<longrightarrow> max_size p \<le> Suc (length (queue p)) + notified_posters p"
    using inv by (simp add: almost_inv_def)
  show ?thesis
  proof (cases "w < length (workers p) \<and> workers p ! w = Asleep False")
    case True
    let ?r = "?q\<lparr>workers := (workers p)[w := Asleep True]\<rparr>"
    have eq: "push_task w t p = ?r"
      using True by (simp add: push_task_def notify_worker_def)
    have c: "count_list ((workers p)[w := Asleep True]) (Asleep True) = Suc (notified_workers p)"
      using True count_list_update [of w "workers p" "Asleep True" "Asleep True"] by simp
    have "Asleep False \<in> set (workers p)"
      using True nth_mem by metis
    then have le: "length (queue p) \<le> notified_workers p"
      using inv by (simp add: almost_inv_def)
    have "mset (held ?r) = mset (held ?q)"
      using True held_update [of w ?q "Asleep True"] by simp
    then have "tasks_inv ?r"
      using t by (simp add: tasks_inv_def)
    moreover have "bound_inv ?r"
      using b by (simp add: bound_inv_def max_size_def)
    moreover have "running_inv ?r"
      using r by (auto simp: running_inv_def dest: set_update_cases)
    moreover have "wake_inv ?r"
      using c le posters by (simp add: wake_inv_def max_size_def)
    ultimately show ?thesis
      unfolding eq tp_inv_def by blast
  next
    case False
    have eq: "push_task w t p = ?q"
      using False by (auto simp: push_task_def notify_worker_def)
    have "Asleep False \<notin> set (workers p)"
      using False wakes by (auto simp: wakes_worker_def)
    then have "wake_inv ?q"
      using posters by (simp add: wake_inv_def max_size_def)
    then show ?thesis
      unfolding eq tp_inv_def using t b r by blast
  qed
qed

lemma almost_invI: "tp_inv p \<Longrightarrow> runing p \<Longrightarrow> almost_inv p"
  by (auto simp: tp_inv_def wake_inv_def almost_inv_def)

lemma post_loop_inv:
  assumes inv: "tp_inv p" and wakes: "wakes_worker w p" and on: "runing p"
  shows "tp_inv (post_loop w t p)"
proof (cases "queue_full p")
  case True
  then have "\<not> length (queue p) < max_size p" "0 < sint (maxQueueSize p)" "max_size p = length (queue p)"
    by (simp_all add: queue_full_def)
  then show ?thesis
    using True inv on by (auto simp: post_loop_def tp_defs)
next
  case False
  then show ?thesis
    using push_inv [OF almost_invI [OF inv on] _ wakes on] by (simp add: post_loop_def)
qed

text \<open>A pool that was stopped: only the tasks and the bound are left to keep.\<close>

lemma stopped_inv: "\<not> runing p \<Longrightarrow> tp_inv p \<longleftrightarrow> tasks_inv p \<and> bound_inv p"
  by (simp add: tp_inv_def running_inv_def wake_inv_def)

lemma post_loop_stopped:
  assumes "\<not> runing p" "tp_inv p"
  shows "tp_inv (post_loop w t p)"
proof (cases "queue_full p")
  case True
  then show ?thesis
    using assms by (simp add: post_loop_def tp_defs)
next
  case False
  let ?q = "p\<lparr>queue := queue p @ [t], accepted := accepted p @ [t]\<rparr>"
  have "tasks_inv ?q" "bound_inv ?q"
    using assms(2) False by (auto simp: tp_defs queue_full_def)
  moreover have "mset (held (?q\<lparr>workers := (workers p)[w := Asleep True]\<rparr>)) = mset (held ?q)"
    if "w < length (workers p)" "workers p ! w = Asleep False"
    using that held_update [of w ?q "Asleep True"] by simp
  ultimately show ?thesis
    using False assms(1)
    by (simp add: post_loop_def push_task_def notify_worker_def stopped_inv tasks_inv_def bound_inv_def max_size_def)
qed

lemma post_resume_inv:
  assumes inv: "tp_inv p" and i: "i < length (blocked p)" and wakes: "wakes_worker w p"
  shows "tp_inv (post_resume w i p)"
proof (cases "length (queue p) < max_size p \<or> \<not> runing p")
  case True
  let ?q = "p\<lparr>blocked := take i (blocked p) @ drop (Suc i) (blocked p)\<rparr>"
  have eq: "post_resume w i p = post_loop w (fst (blocked p ! i)) ?q"
    using True by (simp add: post_resume_def Let_def)
  show ?thesis
  proof (cases "runing p")
    case on: True
    have "\<exists>b \<in> set (blocked p). \<not> snd b" if "\<exists>b \<in> set (take i (blocked p) @ drop (Suc i) (blocked p)). \<not> snd b"
      using that by (auto dest: in_set_takeD in_set_dropD)
    then have "almost_inv ?q"
      using inv on filter_snd_remove [OF i] by (auto simp: almost_inv_def tp_defs split: if_splits)
    moreover have "\<not> queue_full ?q"
      using True on by (simp add: queue_full_def max_size_def)
    moreover have "wakes_worker w ?q"
      using wakes by (simp add: wakes_worker_def)
    ultimately show ?thesis
      using push_inv [of ?q w "fst (blocked p ! i)"] on unfolding eq by (simp add: post_loop_def)
  next
    case off: False
    have "tp_inv ?q"
      using inv off by (simp add: stopped_inv tasks_inv_def bound_inv_def max_size_def held_def)
    then show ?thesis
      unfolding eq using off by (intro post_loop_stopped) simp_all
  qed
next
  case False
  then have on: "runing p" "max_size p \<le> length (queue p)"
    by simp_all
  let ?q = "p\<lparr>blocked := (blocked p)[i := (fst (blocked p ! i), False)]\<rparr>"
  have eq: "post_resume w i p = ?q"
    using False by (simp add: post_resume_def Let_def)
  have "0 < sint (maxQueueSize p)"
    using inv on i by (auto simp: tp_inv_def running_inv_def)
  then show ?thesis
    unfolding eq using inv on by (auto simp: tp_defs)
qed

lemma stop_inv':
  assumes "tp_inv p" "ThreadPool_stop p = Inr q"
  shows "tp_inv q"
proof -
  let ?ws = "map (\<lambda>w. if w = Asleep False then Asleep True else w) (workers p)"
  have "runing p" and q: "q = p\<lparr>runing := False, workers := ?ws, blocked := map (\<lambda>(t, n). (t, True)) (blocked p)\<rparr>"
    using assms(2) by (simp_all add: ThreadPool_stop_def split: if_splits)
  have "map in_hand ?ws = map in_hand (workers p)"
    by simp
  then have "held q = held p"
    by (simp add: held_def q del: map_map)
  then have "tasks_inv q" "bound_inv q"
    using assms(1) by (simp_all add: q tp_inv_def tasks_inv_def bound_inv_def max_size_def)
  moreover have "\<not> runing q"
    by (simp add: q)
  ultimately show ?thesis
    by (simp add: stopped_inv)
qed

text \<open>A worker's step that leaves the tasks alone.\<close>

lemma worker_moves_inv:
  assumes inv: "tp_inv p" and w: "w < length (workers p)" "in_hand (workers p ! w) = []" "in_hand x = []"
    and on: "runing p \<Longrightarrow> x = AtTake \<or> x = Asleep False \<and> queue p = []" and awake: "runing p \<Longrightarrow> x = AtTake \<Longrightarrow> workers p ! w = AtLoop"
  shows "tp_inv (p\<lparr>workers := (workers p)[w := x]\<rparr>)"
proof -
  let ?q = "p\<lparr>workers := (workers p)[w := x]\<rparr>"
  have "mset (held ?q) = mset (held p)"
    using held_update [OF w(1), of x] w(2,3) by simp
  then have "tasks_inv ?q"
    using inv by (simp add: tp_inv_def tasks_inv_def)
  moreover have "bound_inv ?q"
    using inv by (simp add: tp_defs)
  moreover have "running_inv ?q"
    using inv on by (auto simp: tp_inv_def running_inv_def dest: set_update_cases)
  moreover have "wake_inv ?q"
  proof (cases "runing p \<and> queue p \<noteq> []")
    case True
    then have x: "x = AtTake" "workers p ! w = AtLoop"
      using on awake by auto
    have "count_list ((workers p)[w := x]) (Asleep True) = notified_workers p"
      using count_list_update [OF w(1), of x "Asleep True"] x by simp
    moreover have "Asleep False \<in> set (workers p)" if "Asleep False \<in> set ((workers p)[w := x])"
      using set_update_cases [OF that] x(1) by simp
    ultimately show ?thesis
      using inv by (auto simp: tp_inv_def wake_inv_def max_size_def)
  qed (use inv in \<open>auto simp: tp_inv_def wake_inv_def max_size_def\<close>)
  ultimately show ?thesis
    unfolding tp_inv_def by blast
qed

lemma take_front_inv:
  assumes inv: "tp_inv p" and w: "w < length (workers p)" "in_hand (workers p ! w) = []" and wakes: "wakes_poster i p"
    and q: "queue p = [] \<Longrightarrow> \<not> runing p"
  shows "tp_inv (take_front i w p)"
proof (cases "queue p")
  case Nil
  then have "tp_inv (p\<lparr>workers := (workers p)[w := HasNoTask]\<rparr>)"
    using worker_moves_inv [OF inv w, of HasNoTask] q by simp
  then show ?thesis
    using Nil by (simp add: take_front_def)
next
  case (Cons t ts)
  let ?r = "p\<lparr>queue := ts, taken := taken p @ [t], workers := (workers p)[w := HasTask t]\<rparr>"
  have "mset (held (p\<lparr>workers := (workers p)[w := HasTask t]\<rparr>)) = mset (held p) + {#t#}"
    using held_update [OF w(1), of "HasTask t"] w(2) by simp
  then have t: "tasks_inv ?r"
    using inv Cons by (simp add: tp_inv_def tasks_inv_def held_def)
  have b: "bound_inv ?r"
    using inv Cons by (auto simp: tp_inv_def bound_inv_def max_size_def)
  have r: "running_inv ?r"
    using inv by (auto simp: tp_inv_def running_inv_def dest: set_update_cases)
  have c: "notified_workers p \<le> Suc (count_list ((workers p)[w := HasTask t]) (Asleep True))"
    using count_list_update [OF w(1), of "HasTask t" "Asleep True"] by (simp split: if_splits)
  have s: "Asleep False \<in> set (workers p)" if "Asleep False \<in> set ((workers p)[w := HasTask t])"
    using set_update_cases [OF that] by simp
  have workers: "runing p \<Longrightarrow> Asleep False \<in> set ((workers p)[w := HasTask t]) \<Longrightarrow> length ts \<le> count_list ((workers p)[w := HasTask t]) (Asleep True)"
    using c s inv Cons by (auto simp: tp_inv_def wake_inv_def)
  show ?thesis
  proof (cases "0 < sint (maxQueueSize p) \<and> i < length (blocked p)")
    case True
    let ?r' = "?r\<lparr>blocked := (blocked p)[i := (fst (blocked p ! i), True)]\<rparr>"
    have eq: "take_front i w p = ?r'"
      using True Cons by (simp add: take_front_def notify_poster_def Let_def)
    have more: "max_size p \<le> length ts + length (filter snd ((blocked p)[i := (fst (blocked p ! i), True)]))"
      if "runing p" "\<exists>b \<in> set ((blocked p)[i := (fst (blocked p ! i), True)]). \<not> snd b"
    proof -
      have u: "\<exists>b \<in> set (blocked p). \<not> snd b"
        using that(2) by (auto dest: set_update_cases)
      then have "\<not> snd (blocked p ! i)" "max_size p \<le> length (queue p) + notified_posters p"
        using wakes inv that(1) by (auto simp: wakes_poster_def tp_inv_def wake_inv_def)
      then show ?thesis
        using filter_snd_update [of i "blocked p" "fst (blocked p ! i)" True] True Cons by simp
    qed
    have "tasks_inv ?r'" "bound_inv ?r'" "running_inv ?r'"
      using t b r True by (simp_all add: tasks_inv_def held_def bound_inv_def max_size_def running_inv_def)
    moreover have "wake_inv ?r'"
      using more workers by (simp add: wake_inv_def max_size_def)
    ultimately show ?thesis
      unfolding eq tp_inv_def by blast
  next
    case False
    have eq: "take_front i w p = ?r"
      using False Cons by (auto simp: take_front_def notify_poster_def Let_def)
    have none: "\<forall>b \<in> set (blocked p). snd b" if "runing p"
    proof (cases "0 < sint (maxQueueSize p)")
      case True
      then show ?thesis
        using False wakes by (auto simp: wakes_poster_def)
    next
      case nm: False
      then show ?thesis
        using inv that by (auto simp: tp_inv_def running_inv_def)
    qed
    have "wake_inv ?r"
      using none workers by (auto simp: wake_inv_def max_size_def)
    then show ?thesis
      unfolding eq tp_inv_def using t b r by blast
  qed
qed

lemma take_inv:
  assumes inv: "tp_inv p" and w: "w < length (workers p)" "in_hand (workers p ! w) = []" and wakes: "wakes_poster i p"
  shows "tp_inv (ThreadPool_take i w p)"
proof (cases "queue p = [] \<and> runing p")
  case True
  then show ?thesis
    using worker_moves_inv [OF inv w, of "Asleep False"] by (simp add: ThreadPool_take_def)
next
  case False
  then show ?thesis
    using take_front_inv [OF inv w wakes] by (auto simp: ThreadPool_take_def)
qed

lemma take_resume_inv:
  assumes inv: "tp_inv p" and w: "w < length (workers p)" "in_hand (workers p ! w) = []" and wakes: "wakes_poster i p"
  shows "tp_inv (take_resume i w p)"
proof (cases "queue p = []")
  case True
  then show ?thesis
    using worker_moves_inv [OF inv w, of "Asleep False"] by (simp add: take_resume_def)
next
  case False
  then show ?thesis
    using take_inv [OF inv w wakes] by (simp add: take_resume_def)
qed

lemma threadFunc_inv:
  assumes inv: "tp_inv p" and w: "w < length (workers p)" and wakes: "wakes_poster i p" and step: "ThreadPool_threadFunc i w p = Inr q"
  shows "tp_inv q"
proof (cases "workers p ! w")
  case AtLoop
  then show ?thesis
    using step worker_moves_inv [OF inv w, of "if runing p then AtTake else Exited"] by (auto simp: ThreadPool_threadFunc_def)
next
  case AtTake
  then show ?thesis
    using step take_inv [OF inv w _ wakes] by (auto simp: ThreadPool_threadFunc_def)
next
  case (Asleep n)
  then show ?thesis
    using step take_resume_inv [OF inv w _ wakes] by (auto simp: ThreadPool_threadFunc_def)
next
  case (HasTask t)
  have eq: "q = p\<lparr>executed := executed p @ [t], workers := (workers p)[w := AtLoop]\<rparr>"
    using step HasTask by (simp add: ThreadPool_threadFunc_def)
  have "mset (held (p\<lparr>workers := (workers p)[w := AtLoop]\<rparr>)) + {#t#} = mset (held p)"
    using held_update [OF w, of AtLoop] HasTask by simp
  then have "tasks_inv q"
    using inv unfolding eq by (simp add: tp_inv_def tasks_inv_def held_def add_ac)
  moreover have "bound_inv q" "running_inv q"
    using inv unfolding eq by (auto simp: tp_defs dest: set_update_cases)
  moreover have "wake_inv q"
  proof -
    have "count_list ((workers p)[w := AtLoop]) (Asleep True) = notified_workers p"
      using count_list_update [OF w, of AtLoop "Asleep True"] HasTask by simp
    moreover have "Asleep False \<in> set (workers p)" if "Asleep False \<in> set ((workers p)[w := AtLoop])"
      using set_update_cases [OF that] by simp
    ultimately show ?thesis
      using inv unfolding eq by (auto simp: tp_inv_def wake_inv_def max_size_def)
  qed
  ultimately show ?thesis
    unfolding tp_inv_def by blast
qed (use step inv in \<open>auto simp: ThreadPool_threadFunc_def\<close>)

section \<open>Before the pool is started\<close>

text \<open>Steps create threads and lose none.\<close>

definition begun :: "'t ThreadPool \<Rightarrow> bool" where
  "begun p \<longleftrightarrow> 0 < length (workers p) + unstarted p"

definition fresh_inv :: "'t ThreadPool \<Rightarrow> bool" where
  "fresh_inv p \<longleftrightarrow> \<not> begun p \<longrightarrow> \<not> runing p \<and> queue p = [] \<and> blocked p = [] \<and> \<not> spinning p"

lemma workers_kept:
  "length (workers (notify_worker w p)) = length (workers p)" "unstarted (notify_worker w p) = unstarted p"
  "length (workers (notify_poster i p)) = length (workers p)" "unstarted (notify_poster i p) = unstarted p"
  "length (workers (post_loop w t p)) = length (workers p)" "unstarted (post_loop w t p) = unstarted p"
  "length (workers (post_resume w i p)) = length (workers p)" "unstarted (post_resume w i p) = unstarted p"
  "length (workers (take_front i w p)) = length (workers p)" "unstarted (take_front i w p) = unstarted p"
  "length (workers (ThreadPool_take i w p)) = length (workers p)" "unstarted (ThreadPool_take i w p) = unstarted p"
  "length (workers (take_resume i w p)) = length (workers p)" "unstarted (take_resume i w p) = unstarted p"
  by (simp_all add: notify_worker_def notify_poster_def post_loop_def push_task_def post_resume_def take_front_def
      ThreadPool_take_def take_resume_def Let_def split: list.split)

lemma threadFunc_kept:
  "ThreadPool_threadFunc i w p = Inr q \<Longrightarrow> length (workers q) = length (workers p) \<and> unstarted q = unstarted p"
  by (cases "workers p ! w") (auto simp: ThreadPool_threadFunc_def workers_kept)

lemma stop_kept: "ThreadPool_stop p = Inr q \<Longrightarrow> length (workers q) = length (workers p) \<and> unstarted q = unstarted p \<and> \<not> runing q"
  by (auto simp: ThreadPool_stop_def split: if_splits)

lemma pool_step_inv:
  assumes inv: "tp_inv p" "fresh_inv p" and use: "pool_use i p" and step: "pool_step i p = Inr q"
  shows "tp_inv q \<and> fresh_inv q"
proof (cases i)
  case (SetMax m)
  then show ?thesis
    using assms by (auto simp: ThreadPool_setmaxQueueSize_def tp_defs fresh_inv_def begun_def)
next
  case (StartPool hw n)
  then have "\<not> begun p" "0 < hw"
    using use by (simp_all add: begun_def)
  moreover have "q = p\<lparr>runing := True, unstarted := nat (if n \<le> 0 then hw else n)\<rparr>"
    using step StartPool by (simp add: ThreadPool_start_def split: if_splits)
  ultimately show ?thesis
    using inv use StartPool by (auto simp: tp_defs fresh_inv_def begun_def)
next
  case Spawn
  have "q = spawn p"
    using step Spawn by simp
  then show ?thesis
    using inv by (auto simp: spawn_def tp_defs fresh_inv_def begun_def)
next
  case (Post w t)
  then have on: "wakes_worker w p" "runing p" "q = post_loop w t p"
    using use step by (auto simp: ThreadPool_post_def)
  then show ?thesis
    using post_loop_inv [OF inv(1) on(1,2)] inv(2) by (simp add: fresh_inv_def begun_def workers_kept)
next
  case (Resume w j)
  then have r: "j < length (blocked p)" "wakes_worker w p" "q = post_resume w j p"
    using use step by auto
  then have "begun p"
    using inv(2) by (auto simp: fresh_inv_def)
  then show ?thesis
    using post_resume_inv [OF inv(1) r(1,2)] r(3) by (simp add: fresh_inv_def begun_def workers_kept)
next
  case (Worker j w)
  then have "w < length (workers p)" "wakes_poster j p" "ThreadPool_threadFunc j w p = Inr q"
    using use step by (auto split: if_splits)
  then show ?thesis
    using threadFunc_inv [OF inv(1)] threadFunc_kept [of j w p q] by (auto simp: fresh_inv_def begun_def)
next
  case StopPool
  then show ?thesis
    using stop_inv' [OF inv(1)] stop_kept [of p q] step inv(2) by (auto simp: fresh_inv_def begun_def ThreadPool_stop_def split: if_splits)
next
  case Destroy_pool
  have gone: "tp_inv (r\<lparr>pool_gone := True\<rparr>) \<and> fresh_inv (r\<lparr>pool_gone := True\<rparr>)"
    if "tp_inv r" "fresh_inv r" "\<not> runing r" for r :: "'a ThreadPool"
    using that by (simp add: stopped_inv tasks_inv_def held_def bound_inv_def max_size_def fresh_inv_def begun_def)
  show ?thesis
  proof (cases "runing p")
    case True
    then obtain r where r: "ThreadPool_stop p = Inr r" "q = r\<lparr>pool_gone := True\<rparr>"
      using step Destroy_pool by (auto simp: ThreadPool_destructor_def rbind_eq_Inr)
    moreover have "fresh_inv r"
      using inv(2) True stop_kept [OF r(1)] by (simp add: fresh_inv_def begun_def)
    ultimately show ?thesis
      using gone stop_inv' [OF inv(1)] stop_kept [OF r(1)] by blast
  next
    case False
    then show ?thesis
      using gone [OF inv] step Destroy_pool by (simp add: ThreadPool_destructor_def)
  qed
qed

interpretation pool: kept_invariant pool_use pool_step "\<lambda>p. tp_inv p \<and> fresh_inv p"
proof unfold_locales
  show "tp_inv q \<and> fresh_inv q" if "tp_inv p \<and> fresh_inv p" "pool_use i p" "pool_step i p = Inr q" for p i q
    using pool_step_inv [of p i q] that by blast
qed

lemma pool_run_inv:
  assumes "legal pool_use pool_step is ThreadPool_new" "run_steps pool_step is ThreadPool_new = Inr p"
  shows "tp_inv p"
proof -
  have "tp_inv ThreadPool_new \<and> fresh_inv ThreadPool_new"
    by (simp add: tp_defs fresh_inv_def ThreadPool_new_def)
  then show ?thesis
    using pool.run_keeps [OF _ assms] by blast
qed

section \<open>Properties\<close>

text \<open>C33. No task is lost or run twice, and they are taken in the order in which they were accepted: at
  any time the accepted tasks are those taken followed by the queue, and those taken are the ones
  that have been run and the ones that workers have in hand. The queue keeps its bound.\<close>

theorem ThreadPool_no_task_lost:
  assumes "legal pool_use pool_step is ThreadPool_new" "run_steps pool_step is ThreadPool_new = Inr p"
  shows "accepted p = taken p @ queue p
    \<and> mset (taken p) = mset (executed p) + mset (concat (map in_hand (workers p)))
    \<and> (0 < sint (maxQueueSize p) \<longrightarrow> int (length (queue p)) \<le> sint (maxQueueSize p))"
proof -
  have inv: "tp_inv p"
    by (rule pool_run_inv [OF assms])
  have "sint (maxQueueSize p) < 2 ^ 64"
    using sint_lt [of "maxQueueSize p"] by simp
  then have "0 < sint (maxQueueSize p) \<Longrightarrow> int (max_size p) = sint (maxQueueSize p)"
    by (simp add: max_size_def)
  then show ?thesis
    using inv unfolding tp_inv_def tasks_inv_def bound_inv_def held_def by (auto simp flip: of_nat_le_iff [where 'a = int])
qed

lemma poster_to_wake: "\<exists>i. wakes_poster i p"
proof (cases "\<exists>b \<in> set (blocked p). \<not> snd b")
  case True
  then obtain i where "i < length (blocked p)" "\<not> snd (blocked p ! i)"
    by (metis in_set_conv_nth)
  then show ?thesis
    by (auto simp: wakes_poster_def)
qed (simp add: wakes_poster_def)

text \<open>C34. No wake-up is lost while the pool runs: when a worker sleeps without a notification there are
  no more tasks waiting than workers that were notified, and when a \<open>post\<close> sleeps without one
  there is no more room than posts that were notified. So when a task waits, some worker can go on.\<close>

theorem ThreadPool_no_lost_wakeup:
  assumes "legal pool_use pool_step is ThreadPool_new" "run_steps pool_step is ThreadPool_new = Inr p" "runing p"
  shows "(Asleep False \<in> set (workers p) \<longrightarrow> length (queue p) \<le> count_list (workers p) (Asleep True))
    \<and> ((\<exists>b \<in> set (blocked p). \<not> snd b) \<longrightarrow> max_size p - length (queue p) \<le> length (filter snd (blocked p)))
    \<and> (queue p \<noteq> [] \<and> workers p \<noteq> [] \<longrightarrow>
         (\<exists>i w q. pool_use (Worker i w) p \<and> workers p ! w \<noteq> Asleep False \<and> pool_step (Worker i w) p = Inr q))"
proof -
  have inv: "tp_inv p"
    by (rule pool_run_inv [OF assms(1,2)])
  have on: "\<not> spinning p" "\<not> pool_gone p" "HasNoTask \<notin> set (workers p)" "Exited \<notin> set (workers p)"
    using inv assms(3) by (auto simp: tp_inv_def running_inv_def)
  have wake: "Asleep False \<in> set (workers p) \<Longrightarrow> length (queue p) \<le> notified_workers p"
    "\<exists>b \<in> set (blocked p). \<not> snd b \<Longrightarrow> max_size p \<le> length (queue p) + notified_posters p"
    using inv assms(3) by (auto simp: tp_inv_def wake_inv_def)
  have go: "\<exists>i w q. pool_use (Worker i w) p \<and> workers p ! w \<noteq> Asleep False \<and> pool_step (Worker i w) p = Inr q"
    if "queue p \<noteq> []" "workers p \<noteq> []"
  proof -
    have "\<exists>w < length (workers p). workers p ! w \<noteq> Asleep False"
    proof (cases "Asleep False \<in> set (workers p)")
      case True
      then have "0 < notified_workers p"
        using wake(1) that(1) by (cases "queue p") auto
      then have "Asleep True \<in> set (workers p)"
        by (metis count_list_0_iff less_irrefl)
      then show ?thesis
        by (metis in_set_conv_nth worker.inject(1))
    next
      case False
      then show ?thesis
        using that(2) by (metis length_greater_0_conv nth_mem)
    qed
    then obtain w where w: "w < length (workers p)" "workers p ! w \<noteq> Asleep False"
      by blast
    obtain i where i: "wakes_poster i p"
      using poster_to_wake by blast
    have "workers p ! w \<noteq> HasNoTask"
      using on(3) w(1) nth_mem by metis
    then have "\<exists>q. pool_step (Worker i w) p = Inr q"
      using on(2) by (cases "workers p ! w") (simp_all add: ThreadPool_threadFunc_def)
    moreover have "pool_use (Worker i w) p"
      using w(1) i on(1) by (simp add: mutex_free_def)
    ultimately show ?thesis
      using w(2) by blast
  qed
  show ?thesis
    using wake go by (intro conjI impI) (auto simp: le_diff_conv)
qed

text \<open>Once a pool was stopped with nothing to do, a sleeping worker stays asleep.\<close>

definition stranded :: "nat \<Rightarrow> 't ThreadPool \<Rightarrow> bool" where
  "stranded w p \<longleftrightarrow> \<not> runing p \<and> queue p = [] \<and> blocked p = [] \<and> w < length (workers p)
     \<and> (case workers p ! w of Asleep _ \<Rightarrow> True | _ \<Rightarrow> False)"

lemma stranded_step:
  assumes "stranded w p" "pool_use i p" "pool_step i p = Inr q"
  shows "stranded w q"
proof (cases i)
  case (Worker j v)
  then have "ThreadPool_threadFunc j v p = Inr q" "v < length (workers p)"
    using assms(2,3) by (auto split: if_splits)
  then show ?thesis
    using assms(1)
    by (cases "workers p ! v"; cases "v = w")
      (auto simp: stranded_def ThreadPool_threadFunc_def ThreadPool_take_def take_resume_def take_front_def)
qed (use assms in \<open>auto simp: stranded_def ThreadPool_setmaxQueueSize_def spawn_def nth_append ThreadPool_destructor_def\<close>)

interpretation stranded: kept_invariant pool_use pool_step "stranded w" for w
  by unfold_locales (rule stranded_step)

lemma stop_strands:
  assumes "queue p = []" "blocked p = []" "w < length (workers p)" "workers p ! w = Asleep n" "ThreadPool_stop p = Inr q"
  shows "stranded w q"
  using assms by (auto simp: ThreadPool_stop_def stranded_def split: if_splits)

text \<open>C35. \<open>stop\<close> on an idle pool does not end its sleeping workers: the predicate of their wait asks
  for a task and not whether the pool still runs, so each of them stays in \<open>take\<close> for ever.\<close>

theorem ThreadPool_stop_strands_workers:
  assumes "legal pool_use pool_step (is @ StopPool # js) ThreadPool_new"
    and "run_steps pool_step is ThreadPool_new = Inr p" "run_steps pool_step (StopPool # js) p = Inr q"
    and "queue p = []" "blocked p = []" "w < length (workers p)" "workers p ! w = Asleep n"
  shows "\<exists>n. workers q ! w = Asleep n"
proof -
  have l: "legal pool_use pool_step (StopPool # js) p"
    using assms(1,2) by (simp add: legal_append)
  obtain p1 where p1: "ThreadPool_stop p = Inr p1" "run_steps pool_step js p1 = Inr q"
    using assms(3) by (auto simp: rbind_eq_Inr)
  have "legal pool_use pool_step js p1"
    using l p1(1) by simp
  then have "stranded w q"
    using stranded.run_keeps [OF stop_strands [OF assms(4-7) p1(1)] _ p1(2)] by blast
  then show ?thesis
    by (auto simp: stranded_def split: worker.splits)
qed

text \<open>A worker that has passed the test of \<open>runing_\<close> when \<open>stop\<close> is called takes an empty task from
  the empty queue and calls it: the process ends in \<open>LOG(FATAL)\<close>.\<close>

lemma ThreadPool_stop_kills:
  assumes "legal pool_use pool_step is ThreadPool_new" "run_steps pool_step is ThreadPool_new = Inr p"
    and "runing p" "queue p = []" "w < length (workers p)" "workers p ! w = AtTake"
  shows "legal pool_use pool_step [StopPool, Worker i w, Worker i w] p
    \<and> run_steps pool_step [StopPool, Worker i w, Worker i w] p = Inl LogFatal"
proof -
  have "\<not> spinning p" "\<not> pool_gone p"
    using pool_run_inv [OF assms(1,2)] assms(3) by (auto simp: tp_inv_def running_inv_def)
  then show ?thesis
    using assms(3-6)
    by (auto simp: ThreadPool_stop_def ThreadPool_threadFunc_def ThreadPool_take_def take_front_def mutex_free_def
        wakes_poster_def)
qed

text \<open>A \<open>post\<close> that waits for room when the pool is stopped goes round its loop with the mutex held.\<close>

lemma ThreadPool_stop_spins:
  assumes "runing p" "queue_full p" "i < length (blocked p)"
  shows "\<exists>q. run_steps pool_step [StopPool, Resume w i] p = Inr q \<and> spinning q \<and> \<not> mutex_free q"
  using assms by (simp add: ThreadPool_stop_def post_resume_def post_loop_def queue_full_def max_size_def mutex_free_def)

text \<open>The destructor leaves the workers running on the destroyed object.\<close>

lemma ThreadPool_destroyed_in_use:
  assumes "w < length (workers p)" "workers p ! w \<noteq> Exited"
  shows "run_steps pool_step [Destroy_pool, Worker i w] p = Inl UseAfterFree"
  using assms by (auto simp: ThreadPool_destructor_def ThreadPool_stop_def)

section \<open>Runs\<close>

text \<open>Two workers and a bound of one: the third task has to wait.\<close>

definition three_tasks :: "string pool_input list" where
  "three_tasks = [SetMax 1, StartPool 4 2, Spawn, Spawn, Worker 0 0, Worker 0 0, Post 0 ''a'', Worker 0 0, Post 0 ''b'', Post 0 ''c'',
     Worker 0 0]"

lemmas pool_evals = ThreadPool_new_def ThreadPool_setmaxQueueSize_def ThreadPool_start_def spawn_def ThreadPool_post_def
  post_loop_def push_task_def notify_worker_def notify_poster_def queue_full_def max_size_def post_resume_def ThreadPool_stop_def
  take_front_def ThreadPool_take_def take_resume_def ThreadPool_threadFunc_def mutex_free_def takes_lock_def wakes_worker_def
  wakes_poster_def Let_def

lemma three_tasks_run:
  "legal pool_use pool_step three_tasks ThreadPool_new"
  "run_steps pool_step three_tasks ThreadPool_new = Inr \<lparr>maxQueueSize = 1, queue = [''b''], workers = [AtLoop, AtLoop], unstarted = 0,
     runing = True, blocked = [(''c'', False)], spinning = False, pool_gone = False, accepted = [''a'', ''b''], taken = [''a''],
     executed = [''a'']\<rparr>"
  by (simp_all add: three_tasks_def pool_evals)

lemma ThreadPool_no_task_lost_witness:
  "\<exists>p. run_steps pool_step three_tasks ThreadPool_new = Inr p \<and> accepted p = [''a'', ''b''] \<and> accepted p = taken p @ queue p
     \<and> mset (taken p) = mset (executed p) + mset (concat (map in_hand (workers p)))"
  using ThreadPool_no_task_lost [OF three_tasks_run] three_tasks_run(2) by simp

lemma ThreadPool_no_lost_wakeup_witness:
  "\<exists>p i w q. run_steps pool_step three_tasks ThreadPool_new = Inr p \<and> queue p = [''b''] \<and> pool_use (Worker i w) p
     \<and> pool_step (Worker i w) p = Inr q"
  using ThreadPool_no_lost_wakeup [OF three_tasks_run] three_tasks_run(2) by auto

lemma ThreadPool_stop_strands_workers_witness:
  "\<exists>p q n. run_steps pool_step [StartPool 4 1, Spawn, Worker 0 0, Worker 0 0] (ThreadPool_new :: string ThreadPool) = Inr p
     \<and> run_steps pool_step [StopPool, Worker 0 0] p = Inr q \<and> workers q ! 0 = Asleep n"
proof -
  obtain p :: "string ThreadPool" where p: "run_steps pool_step [StartPool 4 1, Spawn, Worker 0 0, Worker 0 0] ThreadPool_new = Inr p"
    "queue p = []" "blocked p = []" "0 < length (workers p)" "workers p ! 0 = Asleep False" "runing p" "\<not> pool_gone p"
    "legal pool_use pool_step ([StartPool 4 1, Spawn, Worker 0 0, Worker 0 0] @ [StopPool, Worker 0 0]) (ThreadPool_new :: string ThreadPool)"
    by (simp add: pool_evals)
  then obtain q where "run_steps pool_step [StopPool, Worker 0 0] p = Inr q"
    by (auto simp: ThreadPool_stop_def ThreadPool_threadFunc_def)
  then show ?thesis
    using ThreadPool_stop_strands_workers [OF p(8,1) _ p(2-5)] p(1) by blast
qed

lemma ThreadPool_stop_kills_witness:
  "run_steps pool_step ([StartPool 4 1, Spawn, Worker 0 0] @ [StopPool, Worker 0 0, Worker 0 0]) (ThreadPool_new :: string ThreadPool)
     = Inl LogFatal"
proof -
  obtain p :: "string ThreadPool" where p: "run_steps pool_step [StartPool 4 1, Spawn, Worker 0 0] ThreadPool_new = Inr p"
    "runing p" "queue p = []" "0 < length (workers p)" "workers p ! 0 = AtTake"
    "legal pool_use pool_step [StartPool 4 1, Spawn, Worker 0 0] (ThreadPool_new :: string ThreadPool)"
    by (simp add: pool_evals)
  have "run_steps pool_step [StopPool, Worker 0 0, Worker 0 0] p = Inl LogFatal"
    using ThreadPool_stop_kills [OF p(6,1-5), of 0] by (rule conjunct2)
  then show ?thesis
    unfolding run_steps_append p(1) by simp
qed

end
