(* ===== verification/Thread.thy ===== *)
theory Thread
  imports StepSystem
begin

text \<open>
  \<open>CountDownLatch.h\<close>, \<open>Thread.h\<close>, \<open>Thread.cpp\<close>: a thread and the handshake of its start: \<open>start\<close>
  waits on a latch that the new thread counts down once it has stored its id. A run interleaves
  the caller of \<open>start\<close> and the new thread; what happens under a mutex is one step. The lemmas show
  that \<open>start\<close> returns, with the id set and the new thread done with the \<open>Thread\<close> object.
\<close>

section \<open>The latch\<close>

text \<open>Where the caller of \<open>wait\<close> is: at its test, asleep (notified or not), or returned.\<close>

datatype latch_waiter = AtTest | LatchAsleep bool | Returned_wait

record CountDownLatch =
  latch_count :: int
  waiter :: latch_waiter

definition CountDownLatch_new :: "int \<Rightarrow> CountDownLatch" where
  "CountDownLatch_new count = \<lparr>latch_count = count, waiter = AtTest\<rparr>"

text \<open>The test of the loop of \<open>wait\<close>, which the caller comes back to when it is woken up.\<close>

definition CountDownLatch_wait :: "CountDownLatch \<Rightarrow> CountDownLatch" where
  "CountDownLatch_wait l =
     (if 0 < latch_count l then l\<lparr>waiter := LatchAsleep False\<rparr> else l\<lparr>waiter := Returned_wait\<rparr>)"

definition CountDownLatch_countDown :: "CountDownLatch \<Rightarrow> CountDownLatch" where
  "CountDownLatch_countDown l =
     (let l1 = l\<lparr>latch_count := latch_count l - 1\<rparr> in
      if latch_count l1 = 0
      then l1\<lparr>waiter := (case waiter l1 of LatchAsleep _ \<Rightarrow> LatchAsleep True | w \<Rightarrow> w)\<rparr>
      else l1)"

definition CountDownLatch_getCount :: "CountDownLatch \<Rightarrow> int" where
  "CountDownLatch_getCount l = latch_count l"

section \<open>State\<close>

text \<open>
  \<open>runInThread\<close> in the new thread: before it stores its id, before it counts the latch down, before
  its function, after it. \<open>starter\<close> is where the caller of \<open>start\<close> is.
\<close>

datatype child = NoChild | BeforeId | BeforeCountDown | InFunction | Finished
datatype starter = NotCalled | InWait | AtAssertId | StartReturned

record Thread =
  thread_started :: bool
  thread_join :: bool
  thread_latch :: CountDownLatch
  tid :: "nat option"
  starter :: starter
  child :: child
  detached :: bool

definition Thread_new :: Thread where
  "Thread_new =
     \<lparr>thread_started = False, thread_join = False, thread_latch = CountDownLatch_new 1, tid = None, starter = NotCalled,
      child = NoChild, detached = False\<rparr>"

section \<open>Operations\<close>

text \<open>\<open>start\<close> up to its wait; the rest in \<open>Thread_starter\<close>.\<close>

definition Thread_start :: "Thread \<Rightarrow> Thread result" where
  "Thread_start t =
     (if thread_started t then Inl AssertFailed
      else Inr (t\<lparr>thread_started := True, child := BeforeId, starter := InWait\<rparr>))"

definition Thread_starter :: "Thread \<Rightarrow> Thread result" where
  "Thread_starter t =
     (case starter t of
        InWait \<Rightarrow>
          (case waiter (thread_latch t) of
             AtTest \<Rightarrow> Inr (t\<lparr>thread_latch := CountDownLatch_wait (thread_latch t)\<rparr>)
           | LatchAsleep _ \<Rightarrow> Inr (t\<lparr>thread_latch := (thread_latch t)\<lparr>waiter := AtTest\<rparr>\<rparr>)
           | Returned_wait \<Rightarrow> Inr (t\<lparr>starter := AtAssertId\<rparr>))
      | AtAssertId \<Rightarrow> (if tid t = None then Inl AssertFailed else Inr (t\<lparr>starter := StartReturned\<rparr>))
      | _ \<Rightarrow> Inr t)"

text \<open>\<open>n\<close> is the thread's id, \<open>throws\<close> whether the function ends with an exception.\<close>

definition ThreadData_runInThread :: "nat \<Rightarrow> bool \<Rightarrow> Thread \<Rightarrow> Thread result" where
  "ThreadData_runInThread n throws t =
     (case child t of
        BeforeId \<Rightarrow> Inr (t\<lparr>tid := Some n, child := BeforeCountDown\<rparr>)
      | BeforeCountDown \<Rightarrow> Inr (t\<lparr>thread_latch := CountDownLatch_countDown (thread_latch t), child := InFunction\<rparr>)
      | InFunction \<Rightarrow> (if throws then Inl LogFatal else Inr (t\<lparr>child := Finished\<rparr>))
      | _ \<Rightarrow> Inr t)"

text \<open>\<open>join\<close> returns once the thread has ended.\<close>

definition Thread_join :: "Thread \<Rightarrow> Thread result" where
  "Thread_join t =
     (if \<not> thread_started t then Inl AssertFailed
      else if thread_join t then Inl AssertFailed
      else Inr (t\<lparr>thread_join := True\<rparr>))"

definition Thread_destructor :: "Thread \<Rightarrow> Thread" where
  "Thread_destructor t = (if thread_started t \<and> \<not> thread_join t then t\<lparr>detached := True\<rparr> else t)"

section \<open>Runs\<close>

text \<open>\<open>Starter\<close> is a step of the caller of \<open>start\<close>, \<open>Spurious\<close> its wake-up without a notification.\<close>

datatype thread_input = StartThread | Starter | Spurious | Child nat | JoinThread

fun thread_step :: "thread_input \<Rightarrow> Thread \<Rightarrow> Thread result" where
  "thread_step StartThread t = Thread_start t"
| "thread_step Starter t = Thread_starter t"
| "thread_step Spurious t = Thread_starter t"
| "thread_step (Child n) t = ThreadData_runInThread n False t"
| "thread_step JoinThread t = Thread_join t"

fun thread_use :: "thread_input \<Rightarrow> Thread \<Rightarrow> bool" where
  "thread_use StartThread t \<longleftrightarrow> \<not> thread_started t"
| "thread_use Starter t \<longleftrightarrow> starter t = InWait \<and> waiter (thread_latch t) \<noteq> LatchAsleep False \<or> starter t = AtAssertId"
| "thread_use Spurious t \<longleftrightarrow> starter t = InWait \<and> waiter (thread_latch t) = LatchAsleep False"
| "thread_use (Child n) t \<longleftrightarrow> child t \<noteq> NoChild \<and> child t \<noteq> Finished"
| "thread_use JoinThread t \<longleftrightarrow> starter t = StartReturned \<and> \<not> thread_join t \<and> child t = Finished"

section \<open>Invariant\<close>

definition thread_inv :: "Thread \<Rightarrow> bool" where
  "thread_inv t \<longleftrightarrow> (thread_started t \<longleftrightarrow> starter t \<noteq> NotCalled) \<and> (thread_started t \<longleftrightarrow> child t \<noteq> NoChild)
     \<and> (thread_join t \<longrightarrow> child t = Finished)
     \<and> latch_count (thread_latch t) = (if child t \<in> {InFunction, Finished} then 0 else 1)
     \<and> (child t \<in> {BeforeCountDown, InFunction, Finished} \<longrightarrow> tid t \<noteq> None)
     \<and> (child t \<in> {InFunction, Finished} \<longrightarrow> waiter (thread_latch t) \<noteq> LatchAsleep False)
     \<and> (waiter (thread_latch t) = Returned_wait \<longrightarrow> child t \<in> {InFunction, Finished})
     \<and> (starter t \<in> {AtAssertId, StartReturned} \<longrightarrow> waiter (thread_latch t) = Returned_wait)"

lemma thread_step_ok:
  assumes "thread_inv t" "thread_use i t"
  shows "\<exists>t'. thread_step i t = Inr t' \<and> thread_inv t'"
proof (cases i)
  case StartThread
  then show ?thesis
    using assms by (auto simp: thread_inv_def Thread_start_def)
next
  case (Child n)
  then show ?thesis
    using assms
    by (cases "child t"; cases "waiter (thread_latch t)")
      (auto simp: thread_inv_def ThreadData_runInThread_def CountDownLatch_countDown_def)
next
  case JoinThread
  then show ?thesis
    using assms by (auto simp: thread_inv_def Thread_join_def)
next
  case Starter
  then show ?thesis
    using assms
    by (cases "starter t"; cases "waiter (thread_latch t)")
      (auto simp: thread_inv_def Thread_starter_def CountDownLatch_wait_def)
next
  case Spurious
  then show ?thesis
    using assms by (auto simp: thread_inv_def Thread_starter_def)
qed

interpretation handshake: safe_invariant thread_use thread_step thread_inv
proof unfold_locales
  show "thread_inv t'" if "thread_inv t" "thread_use i t" "thread_step i t = Inr t'" for t i t'
    using thread_step_ok [OF that(1,2)] that(3) by auto
  show "\<exists>t'. thread_step i t = Inr t'" if "thread_inv t" "thread_use i t" for t i
    using thread_step_ok [OF that] by blast
qed

text \<open>How many steps are left, wake-ups without a notification apart.\<close>

definition starter_left :: "Thread \<Rightarrow> nat" where
  "starter_left t =
     (case starter t of
        NotCalled \<Rightarrow> 0
      | InWait \<Rightarrow> (case waiter (thread_latch t) of AtTest \<Rightarrow> 4 | LatchAsleep False \<Rightarrow> 3 | LatchAsleep True \<Rightarrow> 5 | Returned_wait \<Rightarrow> 2)
      | AtAssertId \<Rightarrow> 1
      | StartReturned \<Rightarrow> 0)"

definition steps_left :: "Thread \<Rightarrow> nat" where
  "steps_left t = starter_left t + (case child t of BeforeId \<Rightarrow> 6 | BeforeCountDown \<Rightarrow> 5 | InFunction \<Rightarrow> 2 | _ \<Rightarrow> 0) + (if thread_join t then 0 else 1)"

lemma step_uses_up:
  assumes "thread_inv t" "thread_use i t" "thread_step i t = Inr t'" "i \<noteq> Spurious" "thread_started t"
  shows "steps_left t' < steps_left t \<and> thread_started t'"
proof (cases i)
  case Starter
  then show ?thesis
    using assms
    by (cases "starter t"; cases "waiter (thread_latch t)")
      (auto simp: steps_left_def starter_left_def Thread_starter_def CountDownLatch_wait_def split: bool.splits if_splits)
next
  case (Child n)
  then show ?thesis
    using assms
    by (cases "child t"; cases "waiter (thread_latch t)"; cases "starter t")
      (auto simp: steps_left_def starter_left_def ThreadData_runInThread_def CountDownLatch_countDown_def thread_inv_def split: bool.splits)
next
  case JoinThread
  then show ?thesis
    using assms by (auto simp: steps_left_def starter_left_def Thread_join_def)
qed (use assms in \<open>auto simp: thread_inv_def\<close>)

section \<open>Properties\<close>

text \<open>The handshake of \<open>start\<close>: however the two threads interleave and the condition variable wakes
  its waiter, no assertion fails, and when \<open>start\<close> has returned the thread's id is set and the new
  thread has made its last access to the \<open>Thread\<close> object.\<close>

lemma Thread_start_handshake:
  assumes "legal thread_use thread_step is Thread_new"
  shows "\<exists>t. run_steps thread_step is Thread_new = Inr t
    \<and> (starter t = StartReturned \<longrightarrow> tid t \<noteq> None \<and> child t \<in> {InFunction, Finished})"
proof -
  have "thread_inv Thread_new"
    by (simp add: thread_inv_def Thread_new_def CountDownLatch_new_def)
  then obtain t where "run_steps thread_step is Thread_new = Inr t" "thread_inv t"
    by (rule handshake.run_safe [OF _ assms])
  then show ?thesis
    by (auto simp: thread_inv_def)
qed

lemma run_length:
  assumes "legal thread_use thread_step is t" "thread_inv t" "thread_started t" "Spurious \<notin> set is" "run_steps thread_step is t = Inr t'"
  shows "length is + steps_left t' \<le> steps_left t \<and> thread_inv t' \<and> thread_started t'"
  using assms
proof (induction "is" arbitrary: t)
  case (Cons i "is")
  obtain t1 where t1: "thread_step i t = Inr t1" "thread_inv t1"
    using thread_step_ok [OF Cons.prems(2)] Cons.prems(1) by auto
  then have "steps_left t1 < steps_left t \<and> thread_started t1"
    using step_uses_up Cons.prems by auto
  then show ?case
    using Cons.IH [of t1] Cons.prems t1 by (auto simp: rbind_def)
qed simp

text \<open>C36. \<open>start\<close> always returns: without spurious wake-ups a run that starts the thread ends after at
  most 11 further steps, and it can only end with \<open>start\<close> returned and the thread ended and joined.\<close>

theorem Thread_start_returns:
  assumes "legal thread_use thread_step (StartThread # is) Thread_new" "Spurious \<notin> set is"
  shows "\<exists>t. run_steps thread_step (StartThread # is) Thread_new = Inr t \<and> length is \<le> 11
    \<and> ((\<forall>i. i \<noteq> Spurious \<longrightarrow> \<not> thread_use i t) \<longrightarrow> starter t = StartReturned \<and> child t = Finished \<and> thread_join t)"
proof -
  obtain t0 where t0: "thread_step StartThread Thread_new = Inr t0" "thread_inv t0" "thread_started t0" "steps_left t0 = 11"
    by (simp add: Thread_start_def Thread_new_def CountDownLatch_new_def thread_inv_def steps_left_def starter_left_def)
  have l: "legal thread_use thread_step is t0"
    using assms(1) t0(1) by simp
  obtain t where t: "run_steps thread_step is t0 = Inr t" "thread_inv t"
    by (rule handshake.run_safe [OF t0(2) l])
  have n: "length is \<le> 11" "thread_started t"
    using run_length [OF l t0(2,3) assms(2) t(1)] t0(4) by simp_all
  have "starter t = StartReturned \<and> child t = Finished \<and> thread_join t" if stuck: "\<forall>i. i \<noteq> Spurious \<longrightarrow> \<not> thread_use i t"
  proof -
    have "\<not> thread_use Starter t" "\<not> thread_use (Child 0) t" "\<not> thread_use JoinThread t"
      using stuck by blast+
    then show ?thesis
      using t(2) n(2) by (cases "starter t") (auto simp: thread_inv_def)
  qed
  then show ?thesis
    using t0(1) t(1) n(1) by auto
qed

text \<open>The caller goes to sleep before the new thread runs.\<close>

definition slow_child :: "thread_input list" where
  "slow_child = [Starter, Child 7, Child 7, Starter, Starter, Starter, Starter]"

lemma slow_child_run:
  "legal thread_use thread_step (StartThread # slow_child) Thread_new"
  "\<exists>t. run_steps thread_step (StartThread # slow_child) Thread_new = Inr t \<and> starter t = StartReturned"
  by (simp_all add: slow_child_def Thread_new_def CountDownLatch_new_def Thread_start_def Thread_starter_def CountDownLatch_wait_def
      ThreadData_runInThread_def CountDownLatch_countDown_def)

lemma Thread_start_handshake_witness:
  "\<exists>t. run_steps thread_step (StartThread # slow_child) Thread_new = Inr t \<and> tid t \<noteq> None"
  using Thread_start_handshake [OF slow_child_run(1)] slow_child_run(2) by auto

lemma Thread_start_returns_witness: "\<exists>t. run_steps thread_step (StartThread # slow_child) Thread_new = Inr t \<and> length slow_child \<le> 11"
  using Thread_start_returns [OF slow_child_run(1)] by (auto simp: slow_child_def)

end
