(* ===== verification/IOLoopThread.thy ===== *)
theory IOLoopThread
  imports Thread
begin

text \<open>
  \<open>IOLoopThread.h\<close>, \<open>IOLoopThread.cpp\<close>: a thread that runs a loop of its own. \<open>start\<close> waits until
  the new thread has published the loop, \<open>stop\<close> makes the loop quit and joins the thread. A run
  interleaves the owner and the new thread, with the steps of \<open>Thread\<close> for the start.
\<close>

text \<open>
  \<open>threadFunc\<close> in the new thread: before the loop is made, before it is published, in \<open>loop()\<close>,
  before \<open>loop_\<close> is cleared, at its end. The owner: not yet started, in \<open>thread_.start()\<close>, at the
  test of its wait, asleep (notified or not), with the loop that \<open>start\<close> returned (the flag says
  that it is not null), between the test and \<open>quit\<close> in \<open>stop\<close>, in \<open>join\<close>, at the end.
\<close>

datatype loop_fn = FnBegin | FnPublish | FnLoop | FnClear | FnEnd
datatype owner = OwnerIdle | OwnerThreadStart | OwnerTest | OwnerAsleep bool | OwnerHas bool | OwnerQuit | OwnerJoin | OwnerDone

text \<open>\<open>io_loop\<close> says that \<open>loop_\<close> is not null, \<open>loop_object\<close> that the loop exists, \<open>quit_posted\<close> that
  its \<open>quit\<close> was called.\<close>

record IOLoopThread =
  io_started :: bool
  io_thread :: Thread
  io_loop :: bool
  loop_fn :: loop_fn
  owner :: owner
  loop_object :: bool
  quit_posted :: bool

definition IOLoopThread_new :: IOLoopThread where
  "IOLoopThread_new =
     \<lparr>io_started = False, io_thread = Thread_new, io_loop = False, loop_fn = FnBegin, owner = OwnerIdle,
      loop_object = False, quit_posted = False\<rparr>"

definition IOLoopThread_start :: "IOLoopThread \<Rightarrow> IOLoopThread result" where
  "IOLoopThread_start t =
     (if io_started t then Inl AssertFailed
      else if thread_started (io_thread t) then Inl AssertFailed
      else
        rbind (Thread_start (io_thread t)) (\<lambda>th.
        Inr (t\<lparr>io_started := True, io_thread := th, owner := OwnerThreadStart\<rparr>)))"

text \<open>The steps of \<open>start\<close> after that and those of \<open>stop\<close> after its first.\<close>

definition IOLoopThread_owner :: "IOLoopThread \<Rightarrow> IOLoopThread result" where
  "IOLoopThread_owner t =
     (case owner t of
        OwnerThreadStart \<Rightarrow>
          (if starter (io_thread t) = StartReturned then Inr (t\<lparr>owner := OwnerTest\<rparr>)
           else rbind (Thread_starter (io_thread t)) (\<lambda>th. Inr (t\<lparr>io_thread := th\<rparr>)))
      | OwnerTest \<Rightarrow> Inr (t\<lparr>owner := (if \<not> io_loop t then OwnerAsleep False else OwnerHas (io_loop t))\<rparr>)
      | OwnerAsleep n \<Rightarrow> Inr (t\<lparr>owner := OwnerTest\<rparr>)
      | OwnerQuit \<Rightarrow> (if \<not> loop_object t then Inl UseAfterFree else Inr (t\<lparr>quit_posted := True, owner := OwnerJoin\<rparr>))
      | OwnerJoin \<Rightarrow> rbind (Thread_join (io_thread t)) (\<lambda>th. Inr (t\<lparr>io_thread := th, owner := OwnerDone\<rparr>))
      | _ \<Rightarrow> Inr t)"

definition IOLoopThread_stop :: "IOLoopThread \<Rightarrow> IOLoopThread result" where
  "IOLoopThread_stop t =
     (let t1 = t\<lparr>io_started := False\<rparr> in
      if io_loop t1 then Inr (t1\<lparr>owner := OwnerQuit\<rparr>) else Inr (t1\<lparr>owner := OwnerDone\<rparr>))"

definition IOLoopThread_destructor :: "IOLoopThread \<Rightarrow> IOLoopThread result" where
  "IOLoopThread_destructor t = (if io_started t then IOLoopThread_stop t else Inr t)"

text \<open>A step of the new thread: \<open>threadFunc\<close> is the function of \<open>thread_\<close>.\<close>

definition IOLoopThread_threadFunc :: "IOLoopThread \<Rightarrow> IOLoopThread" where
  "IOLoopThread_threadFunc t =
     (case loop_fn t of
        FnBegin \<Rightarrow> t\<lparr>loop_object := True, loop_fn := FnPublish\<rparr>
      | FnPublish \<Rightarrow> t\<lparr>io_loop := True, owner := (case owner t of OwnerAsleep _ \<Rightarrow> OwnerAsleep True | p \<Rightarrow> p), loop_fn := FnLoop\<rparr>
      | FnLoop \<Rightarrow> (if quit_posted t then t\<lparr>loop_fn := FnClear\<rparr> else t)
      | FnClear \<Rightarrow> t\<lparr>io_loop := False, loop_object := False, loop_fn := FnEnd\<rparr>
      | FnEnd \<Rightarrow> t)"

definition IOLoopThread_child :: "nat \<Rightarrow> IOLoopThread \<Rightarrow> IOLoopThread result" where
  "IOLoopThread_child n t =
     (if child (io_thread t) = InFunction \<and> loop_fn t \<noteq> FnEnd then Inr (IOLoopThread_threadFunc t)
      else rbind (ThreadData_runInThread n False (io_thread t)) (\<lambda>th. Inr (t\<lparr>io_thread := th\<rparr>)))"

section \<open>Runs\<close>

datatype loop_thread_input = StartLoop | Owner | OwnerSpurious | LoopChild nat | StopLoop

fun loop_thread_step :: "loop_thread_input \<Rightarrow> IOLoopThread \<Rightarrow> IOLoopThread result" where
  "loop_thread_step StartLoop t = IOLoopThread_start t"
| "loop_thread_step Owner t = IOLoopThread_owner t"
| "loop_thread_step OwnerSpurious t = IOLoopThread_owner t"
| "loop_thread_step (LoopChild n) t = IOLoopThread_child n t"
| "loop_thread_step StopLoop t = IOLoopThread_stop t"

text \<open>The owner starts the thread once, and stops it once it has been started.\<close>

fun owner_can :: "IOLoopThread \<Rightarrow> bool" where
  "owner_can t \<longleftrightarrow>
     (case owner t of
        OwnerThreadStart \<Rightarrow> thread_use Starter (io_thread t) \<or> starter (io_thread t) = StartReturned
      | OwnerTest \<Rightarrow> True
      | OwnerAsleep n \<Rightarrow> n
      | OwnerQuit \<Rightarrow> True
      | OwnerJoin \<Rightarrow> child (io_thread t) = Finished
      | _ \<Rightarrow> False)"

fun loop_thread_use :: "loop_thread_input \<Rightarrow> IOLoopThread \<Rightarrow> bool" where
  "loop_thread_use StartLoop t \<longleftrightarrow> owner t = OwnerIdle"
| "loop_thread_use Owner t \<longleftrightarrow> owner_can t"
| "loop_thread_use OwnerSpurious t \<longleftrightarrow>
     owner t = OwnerThreadStart \<and> thread_use Spurious (io_thread t) \<or> owner t = OwnerAsleep False"
| "loop_thread_use (LoopChild n) t \<longleftrightarrow>
     thread_use (Child n) (io_thread t) \<and> (child (io_thread t) = InFunction \<and> loop_fn t = FnLoop \<longrightarrow> quit_posted t)"
| "loop_thread_use StopLoop t \<longleftrightarrow> (case owner t of OwnerHas _ \<Rightarrow> True | _ \<Rightarrow> False)"

section \<open>Invariant\<close>

definition loop_thread_inv :: "IOLoopThread \<Rightarrow> bool" where
  "loop_thread_inv t \<longleftrightarrow> thread_inv (io_thread t)
     \<and> (case owner t of
          OwnerIdle \<Rightarrow> \<not> io_started t \<and> starter (io_thread t) = NotCalled
        | OwnerThreadStart \<Rightarrow> starter (io_thread t) \<noteq> NotCalled
        | _ \<Rightarrow> starter (io_thread t) = StartReturned)
     \<and> (thread_join (io_thread t) \<longleftrightarrow> owner t = OwnerDone)
     \<and> (loop_fn t \<noteq> FnBegin \<longrightarrow> child (io_thread t) \<in> {InFunction, Finished})
     \<and> (child (io_thread t) = Finished \<longrightarrow> loop_fn t = FnEnd)
     \<and> (loop_object t \<longleftrightarrow> loop_fn t \<in> {FnPublish, FnLoop, FnClear})
     \<and> (io_loop t \<longleftrightarrow> loop_fn t \<in> {FnLoop, FnClear})
     \<and> (quit_posted t \<longleftrightarrow> owner t \<in> {OwnerJoin, OwnerDone})
     \<and> (loop_fn t \<in> {FnClear, FnEnd} \<longrightarrow> quit_posted t)
     \<and> (owner t = OwnerAsleep False \<longrightarrow> \<not> io_loop t)
     \<and> (\<forall>b. owner t = OwnerHas b \<longrightarrow> b \<and> io_loop t) \<and> (owner t \<in> {OwnerQuit, OwnerJoin} \<longrightarrow> loop_fn t \<noteq> FnBegin \<and> loop_fn t \<noteq> FnPublish)"

lemma starter_step:
  assumes "thread_inv th" "thread_use Starter th \<or> thread_use Spurious th"
  shows "\<exists>th'. Thread_starter th = Inr th' \<and> thread_inv th' \<and> starter th' \<noteq> NotCalled \<and> child th' = child th \<and> thread_join th' = thread_join th"
proof -
  obtain th' where "Thread_starter th = Inr th'" "thread_inv th'"
    using assms(2) thread_step_ok [OF assms(1), of Starter] thread_step_ok [OF assms(1), of Spurious] by auto
  then show ?thesis
    using assms(2) by (auto simp: Thread_starter_def split: latch_waiter.splits if_splits)
qed

lemma child_step:
  assumes "thread_inv th" "thread_use (Child n) th"
  shows "\<exists>th'. ThreadData_runInThread n False th = Inr th' \<and> thread_inv th' \<and> starter th' = starter th \<and> thread_join th' = thread_join th
    \<and> child th' = (case child th of BeforeId \<Rightarrow> BeforeCountDown | BeforeCountDown \<Rightarrow> InFunction | _ \<Rightarrow> Finished)"
  using thread_step_ok [OF assms] assms(2) by (cases "child th") (auto simp: ThreadData_runInThread_def)

lemma loop_thread_step_ok:
  assumes inv: "loop_thread_inv t" and use: "loop_thread_use i t"
  shows "\<exists>t'. loop_thread_step i t = Inr t' \<and> loop_thread_inv t'"
proof -
  have th: "thread_inv (io_thread t)"
    using inv by (simp add: loop_thread_inv_def)
  have owner_start: "\<exists>t'. IOLoopThread_owner t = Inr t' \<and> loop_thread_inv t'"
    if o: "owner t = OwnerThreadStart" and u: "thread_use Starter (io_thread t) \<or> thread_use Spurious (io_thread t)"
  proof -
    obtain th' where th': "Thread_starter (io_thread t) = Inr th'" "thread_inv th'" "starter th' \<noteq> NotCalled"
      "child th' = child (io_thread t)" "thread_join th' = thread_join (io_thread t)"
      using starter_step [OF th u] by blast
    have "starter (io_thread t) \<noteq> StartReturned"
      using u by auto
    then have "IOLoopThread_owner t = Inr (t\<lparr>io_thread := th'\<rparr>)"
      using o th'(1) by (simp add: IOLoopThread_owner_def)
    moreover have "loop_thread_inv (t\<lparr>io_thread := th'\<rparr>)"
      using inv o th'(2-5) by (auto simp: loop_thread_inv_def)
    ultimately show ?thesis
      by blast
  qed
  show ?thesis
  proof (cases i)
    case StartLoop
    have off: "starter (io_thread t) = NotCalled" "\<not> io_started t" "\<not> thread_started (io_thread t)" "\<not> quit_posted t" "\<not> thread_join (io_thread t)"
      using inv use StartLoop th by (auto simp: loop_thread_inv_def thread_inv_def)
    obtain th' where "Thread_start (io_thread t) = Inr th'" "thread_inv th'"
      using thread_step_ok [OF th, of StartThread] off(3) by auto
    moreover have "starter th' \<noteq> NotCalled" "child th' = BeforeId" "thread_join th' = thread_join (io_thread t)"
      using calculation(1) off(3) by (auto simp: Thread_start_def)
    ultimately show ?thesis
      using inv use StartLoop off th by (auto simp: IOLoopThread_start_def loop_thread_inv_def thread_inv_def)
  next
    case Owner
    show ?thesis
    proof (cases "owner t = OwnerThreadStart \<and> starter (io_thread t) \<noteq> StartReturned")
      case True
      then show ?thesis
        using owner_start use Owner by auto
    next
      case False
      then show ?thesis
        using inv use Owner th
        by (cases "owner t"; cases "loop_fn t") (auto simp: IOLoopThread_owner_def loop_thread_inv_def Thread_join_def thread_inv_def)
    qed
  next
    case OwnerSpurious
    show ?thesis
    proof (cases "owner t = OwnerThreadStart")
      case True
      then show ?thesis
        using owner_start use OwnerSpurious by auto
    next
      case False
      then show ?thesis
        using inv use OwnerSpurious by (auto simp: IOLoopThread_owner_def loop_thread_inv_def)
    qed
  next
    case (LoopChild n)
    then have u: "thread_use (Child n) (io_thread t)"
      using use by simp
    show ?thesis
    proof (cases "child (io_thread t) = InFunction \<and> loop_fn t \<noteq> FnEnd")
      case True
      then show ?thesis
        using inv use LoopChild
        by (cases "loop_fn t"; cases "owner t") (auto simp: IOLoopThread_child_def IOLoopThread_threadFunc_def loop_thread_inv_def)
    next
      case False
      obtain th' where th': "ThreadData_runInThread n False (io_thread t) = Inr th'" "thread_inv th'" "starter th' = starter (io_thread t)"
        "thread_join th' = thread_join (io_thread t)"
        "child th' = (case child (io_thread t) of BeforeId \<Rightarrow> BeforeCountDown | BeforeCountDown \<Rightarrow> InFunction | _ \<Rightarrow> Finished)"
        using child_step [OF th u] by blast
      have "loop_thread_inv (t\<lparr>io_thread := th'\<rparr>)"
        using inv th'(2-5) False u by (cases "owner t"; cases "child (io_thread t)") (auto simp: loop_thread_inv_def)
      then show ?thesis
        using LoopChild False th'(1) by (auto simp: IOLoopThread_child_def)
    qed
  next
    case StopLoop
    then show ?thesis
      using inv use by (auto simp: IOLoopThread_stop_def loop_thread_inv_def split: owner.splits)
  qed
qed

interpretation loop_thread: safe_invariant loop_thread_use loop_thread_step loop_thread_inv
proof unfold_locales
  show "loop_thread_inv t'" if "loop_thread_inv t" "loop_thread_use i t" "loop_thread_step i t = Inr t'" for t i t'
    using loop_thread_step_ok [OF that(1,2)] that(3) by auto
  show "\<exists>t'. loop_thread_step i t = Inr t'" if "loop_thread_inv t" "loop_thread_use i t" for t i
    using loop_thread_step_ok [OF that] by blast
qed

text \<open>C37. However the owner and the new thread interleave, no check fails and nothing is used after its
  end: \<open>start\<close> returns a loop that exists until \<open>stop\<close>. The two never block each other: where
  none of them can go on, \<open>stop\<close> has returned, the thread has been joined and its loop is gone.\<close>

theorem IOLoopThread_start_stop:
  assumes "legal loop_thread_use loop_thread_step is IOLoopThread_new"
  shows "\<exists>t. run_steps loop_thread_step is IOLoopThread_new = Inr t
    \<and> (\<forall>b. owner t = OwnerHas b \<longrightarrow> b \<and> loop_object t)
    \<and> ((\<forall>i. i \<noteq> OwnerSpurious \<longrightarrow> \<not> loop_thread_use i t) \<longrightarrow>
         owner t = OwnerDone \<and> thread_join (io_thread t) \<and> child (io_thread t) = Finished \<and> \<not> loop_object t)"
proof -
  have "loop_thread_inv IOLoopThread_new"
    by (simp add: loop_thread_inv_def IOLoopThread_new_def thread_inv_def Thread_new_def CountDownLatch_new_def)
  then obtain t where t: "run_steps loop_thread_step is IOLoopThread_new = Inr t" "loop_thread_inv t"
    by (rule loop_thread.run_safe [OF _ assms])
  have th: "thread_inv (io_thread t)"
    using t(2) by (simp add: loop_thread_inv_def)
  have has: "b \<and> loop_object t" if "owner t = OwnerHas b" for b
    using t(2) that by (auto simp: loop_thread_inv_def)
  have gone: "thread_join (io_thread t) \<and> child (io_thread t) = Finished \<and> \<not> loop_object t" if "owner t = OwnerDone"
  proof -
    have "thread_join (io_thread t)"
      using t(2) that by (simp add: loop_thread_inv_def)
    moreover from this have f: "child (io_thread t) = Finished"
      using th by (simp add: thread_inv_def)
    moreover have "\<not> loop_object t"
      using t(2) f by (simp add: loop_thread_inv_def)
    ultimately show ?thesis
      by simp
  qed
  have "owner t = OwnerDone" if stuck: "\<forall>i. i \<noteq> OwnerSpurious \<longrightarrow> \<not> loop_thread_use i t"
  proof -
    have s: "\<not> loop_thread_use StartLoop t" "\<not> loop_thread_use Owner t" "\<not> loop_thread_use (LoopChild 0) t" "\<not> loop_thread_use StopLoop t"
      using stuck by blast+
    have c: "child (io_thread t) = NoChild \<or> child (io_thread t) = Finished
        \<or> child (io_thread t) = InFunction \<and> loop_fn t = FnLoop \<and> \<not> quit_posted t"
      using s(3) by auto
    show ?thesis
    proof (cases "owner t")
      case OwnerThreadStart
      then have "starter (io_thread t) = InWait" "waiter (thread_latch (io_thread t)) = LatchAsleep False"
        using s(2) t(2) by (cases "starter (io_thread t)"; auto simp: loop_thread_inv_def)+
      then show ?thesis
        using c th by (auto simp: thread_inv_def)
    next
      case (OwnerAsleep n)
      then have "\<not> io_loop t" "child (io_thread t) \<noteq> NoChild" "\<not> quit_posted t"
        using s(2) t(2) th by (auto simp: loop_thread_inv_def thread_inv_def)
      then show ?thesis
        using c t(2) by (auto simp: loop_thread_inv_def)
    next
      case OwnerJoin
      then have "child (io_thread t) \<noteq> NoChild" "quit_posted t" "child (io_thread t) \<noteq> Finished"
        using s(2) t(2) th by (auto simp: loop_thread_inv_def thread_inv_def)
      then show ?thesis
        using c by auto
    qed (use s in auto)
  qed
  then show ?thesis
    using t(1) has gone by blast
qed

text \<open>The owner waits for the loop before the new thread has made it.\<close>

definition slow_loop :: "loop_thread_input list" where
  "slow_loop = [StartLoop, Owner, LoopChild 7, LoopChild 7, Owner, Owner, Owner, Owner, Owner, Owner, LoopChild 7, LoopChild 7, Owner, Owner,
     StopLoop, Owner, LoopChild 7, LoopChild 7, LoopChild 7, Owner]"

lemmas loop_thread_evals = IOLoopThread_new_def Thread_new_def CountDownLatch_new_def IOLoopThread_start_def Thread_start_def
  IOLoopThread_owner_def Thread_starter_def CountDownLatch_wait_def IOLoopThread_child_def ThreadData_runInThread_def
  CountDownLatch_countDown_def IOLoopThread_threadFunc_def IOLoopThread_stop_def Thread_join_def Let_def

lemma slow_loop_run:
  "legal loop_thread_use loop_thread_step slow_loop IOLoopThread_new"
  "\<exists>t. run_steps loop_thread_step slow_loop IOLoopThread_new = Inr t \<and> owner t = OwnerDone \<and> child (io_thread t) = Finished"
  by (simp_all add: slow_loop_def loop_thread_evals)

lemma IOLoopThread_start_stop_witness:
  "\<exists>t. run_steps loop_thread_step slow_loop IOLoopThread_new = Inr t \<and> owner t = OwnerDone \<and> \<not> loop_object t"
proof -
  obtain t where t: "run_steps loop_thread_step slow_loop IOLoopThread_new = Inr t" "owner t = OwnerDone" "child (io_thread t) = Finished"
    using slow_loop_run(2) by blast
  have "\<not> loop_thread_use i t" if "i \<noteq> OwnerSpurious" for i
    using t(2,3) that by (cases i) auto
  then show ?thesis
    using IOLoopThread_start_stop [OF slow_loop_run(1)] t by auto
qed

section \<open>The threads of a pool\<close>

text \<open>
  \<open>stop\<close> up to its return, with the steps that the thread takes meanwhile; \<open>IOLoopThread_start_stop\<close>
  says that any other order ends in the same way. The destructor of \<open>IOLoopThreadPool\<close> stops its
  threads one after the other.
\<close>

definition IOLoopThread_stop_returns :: "IOLoopThread \<Rightarrow> IOLoopThread result" where
  "IOLoopThread_stop_returns t = run_steps loop_thread_step [StopLoop, Owner, LoopChild 0, LoopChild 0, LoopChild 0, Owner] t"

fun IOLoopThreadPool_destructor :: "IOLoopThread list \<Rightarrow> IOLoopThread list result" where
  "IOLoopThreadPool_destructor [] = Inr []"
| "IOLoopThreadPool_destructor (t # ts) =
     rbind (IOLoopThread_stop_returns t) (\<lambda>t'. rbind (IOLoopThreadPool_destructor ts) (\<lambda>ts'. Inr (t' # ts')))"

lemma stop_returns:
  assumes inv: "loop_thread_inv t" and on: "owner t = OwnerHas b" "loop_fn t = FnLoop"
  shows "\<exists>t'. IOLoopThread_stop_returns t = Inr t' \<and> owner t' = OwnerDone \<and> \<not> loop_object t' \<and> thread_join (io_thread t')"
proof -
  have th: "thread_inv (io_thread t)" "\<not> thread_join (io_thread t)" "io_loop t" "loop_object t" "child (io_thread t) = InFunction"
    using inv on by (auto simp: loop_thread_inv_def)
  then have "thread_started (io_thread t)"
    using inv by (auto simp: loop_thread_inv_def thread_inv_def)
  then show ?thesis
    using th(2-5) on(2)
    by (simp add: IOLoopThread_stop_returns_def IOLoopThread_stop_def IOLoopThread_owner_def IOLoopThread_child_def
        IOLoopThread_threadFunc_def ThreadData_runInThread_def Thread_join_def)
qed

lemma IOLoopThreadPool_destructor_joins_all:
  assumes "\<forall>t \<in> set ts. loop_thread_inv t \<and> (\<exists>b. owner t = OwnerHas b) \<and> loop_fn t = FnLoop"
  shows "\<exists>ts'. IOLoopThreadPool_destructor ts = Inr ts' \<and> length ts' = length ts
    \<and> (\<forall>t \<in> set ts'. owner t = OwnerDone \<and> \<not> loop_object t \<and> thread_join (io_thread t))"
  using assms
proof (induction ts)
  case (Cons t ts)
  then obtain t' where "IOLoopThread_stop_returns t = Inr t'" "owner t' = OwnerDone" "\<not> loop_object t'" "thread_join (io_thread t')"
    using stop_returns [of t] by auto
  then show ?case
    using Cons by auto
qed simp

end
