(* ===== verification/IOTimer.thy ===== *)
theory IOTimer
  imports StepSystem
begin

text \<open>
  \<open>IOTimer.h\<close>: a timer with a thread of its own that calls all its functions periodically. A run
  interleaves the owner, the clock and the handlers in the timer's thread. The lemmas give the
  deadlines of all firings, which do not drift and count from the construction of the timer, the
  functions that each of them calls, and when the next one is due.
\<close>

text \<open>
  Times are in units of \<open>Duration\<close>. \<open>clock\<close> is the present time; \<open>expires_at\<close> the expiry of
  \<open>timer_\<close> and \<open>timer_waits\<close> says that a wait for it is pending; \<open>posted_adds\<close> are the functions
  posted by \<open>addTimer\<close>; \<open>fired\<close> lists the deadlines of the firings; \<open>called\<close> lists the calls of functions,
  each with the number of its firing and its time.
  \<open>duration_\<close> is not initialised: its first value is an argument of \<open>IOTimer_new\<close>.
\<close>

record 'f IOTimer =
  clock_now :: int
  expires_at :: int
  timer_waits :: bool
  funcs :: "'f list"
  posted_adds :: "'f list"
  duration :: int32
  isSingleShot :: bool
  isActive :: bool
  thread_was_started :: bool
  fired :: "int list"
  called :: "(nat \<times> int \<times> 'f) list"

definition IOTimer_new :: "int \<Rightarrow> int32 \<Rightarrow> 'f IOTimer" where
  "IOTimer_new now d =
     \<lparr>clock_now = now, expires_at = now + 0, timer_waits = False, funcs = [], posted_adds = [], duration = d,
      isSingleShot = False, isActive = False, thread_was_started = False, fired = [], called = []\<rparr>"

definition IOTimer_run :: "'f IOTimer \<Rightarrow> 'f IOTimer" where
  "IOTimer_run t = t\<lparr>expires_at := expires_at t + uint (duration t), timer_waits := True\<rparr>"

definition IOTimer_start :: "'f IOTimer \<Rightarrow> 'f IOTimer result" where
  "IOTimer_start t =
     (if isActive t then Inl AssertFailed
      else if thread_was_started t then Inl AssertFailed
      else Inr (IOTimer_run (t\<lparr>isActive := True, thread_was_started := True\<rparr>)))"

text \<open>After \<open>service_.stop()\<close> no handler runs.\<close>

definition IOTimer_stop :: "'f IOTimer \<Rightarrow> 'f IOTimer result" where
  "IOTimer_stop t = (if \<not> isActive t then Inl AssertFailed else Inr (t\<lparr>isActive := False\<rparr>))"

definition IOTimer_destructor :: "'f IOTimer \<Rightarrow> 'f IOTimer result" where
  "IOTimer_destructor t = (if isActive t then IOTimer_stop t else Inr t)"

definition IOTimer_addTimer :: "'f \<Rightarrow> 'f IOTimer \<Rightarrow> 'f IOTimer" where
  "IOTimer_addTimer cb t = t\<lparr>posted_adds := posted_adds t @ [cb]\<rparr>"

definition IOTimer_setDuration :: "int32 \<Rightarrow> 'f IOTimer \<Rightarrow> 'f IOTimer" where
  "IOTimer_setDuration d t = t\<lparr>duration := d\<rparr>"

definition IOTimer_setSingleShot :: "bool \<Rightarrow> 'f IOTimer \<Rightarrow> 'f IOTimer" where
  "IOTimer_setSingleShot b t = t\<lparr>isSingleShot := b\<rparr>"

text \<open>The loop over \<open>funcs_\<close>; \<open>k\<close> is the number of the firing.\<close>

fun call_funcs :: "nat \<Rightarrow> 'f list \<Rightarrow> 'f IOTimer \<Rightarrow> 'f IOTimer" where
  "call_funcs k [] t = t"
| "call_funcs k (f # fs) t = call_funcs k fs (t\<lparr>called := called t @ [(k, clock_now t, f)]\<rparr>)"

definition IOTimer_timerHandle :: "bool \<Rightarrow> 'f IOTimer \<Rightarrow> 'f IOTimer" where
  "IOTimer_timerHandle error t =
     (if \<not> error then
        (let t1 = call_funcs (length (fired t)) (funcs t) (t\<lparr>fired := fired t @ [expires_at t]\<rparr>) in
         if \<not> isSingleShot t1 then IOTimer_run t1 else t1)
      else t)"

definition IOTimer_addTimerInThisThread :: "'f \<Rightarrow> 'f IOTimer \<Rightarrow> 'f IOTimer" where
  "IOTimer_addTimerInThisThread cb t = t\<lparr>funcs := funcs t @ [cb]\<rparr>"

section \<open>Runs\<close>

text \<open>\<open>Pass\<close> lets time pass, \<open>AddPosted\<close> runs the oldest posted function and \<open>Fire\<close> the handler of the
  timer.\<close>

datatype 'f timer_input = StartTimer | StopTimer | AddTimer 'f | SetDuration int32 | SetSingleShot bool | Pass nat | AddPosted | Fire

fun timer_step :: "'f timer_input \<Rightarrow> 'f IOTimer \<Rightarrow> 'f IOTimer result" where
  "timer_step StartTimer t = IOTimer_start t"
| "timer_step StopTimer t = IOTimer_stop t"
| "timer_step (AddTimer cb) t = Inr (IOTimer_addTimer cb t)"
| "timer_step (SetDuration d) t = Inr (IOTimer_setDuration d t)"
| "timer_step (SetSingleShot b) t = Inr (IOTimer_setSingleShot b t)"
| "timer_step (Pass n) t = Inr (t\<lparr>clock_now := clock_now t + int n\<rparr>)"
| "timer_step AddPosted t =
     (case posted_adds t of [] \<Rightarrow> Inr t | cb # cbs \<Rightarrow> Inr (IOTimer_addTimerInThisThread cb (t\<lparr>posted_adds := cbs\<rparr>)))"
| "timer_step Fire t = Inr (IOTimer_timerHandle False (t\<lparr>timer_waits := False\<rparr>))"

fun timer_use :: "'f timer_input \<Rightarrow> 'f IOTimer \<Rightarrow> bool" where
  "timer_use StartTimer t \<longleftrightarrow> \<not> isActive t \<and> \<not> thread_was_started t"
| "timer_use StopTimer t \<longleftrightarrow> isActive t"
| "timer_use (SetDuration d) t \<longleftrightarrow> \<not> thread_was_started t"
| "timer_use (SetSingleShot b) t \<longleftrightarrow> \<not> thread_was_started t"
| "timer_use AddPosted t \<longleftrightarrow> isActive t \<and> posted_adds t \<noteq> []"
| "timer_use Fire t \<longleftrightarrow> isActive t \<and> timer_waits t \<and> expires_at t \<le> clock_now t"
| "timer_use _ t \<longleftrightarrow> True"

lemma call_funcs_calls [simp]: "call_funcs k fs t = t\<lparr>called := called t @ map (\<lambda>f. (k, clock_now t, f)) fs\<rparr>"
  by (induction fs arbitrary: t) simp_all

text \<open>The \<open>k\<close>-th deadline of a timer with duration \<open>d\<close> made at time \<open>t0\<close>; the functions given to \<open>addTimer\<close> in a run.\<close>

definition deadline :: "int \<Rightarrow> int32 \<Rightarrow> nat \<Rightarrow> int" where
  "deadline t0 d k = t0 + int (Suc k) * uint d"

fun added :: "'f timer_input \<Rightarrow> 'f list" where
  "added (AddTimer cb) = [cb]"
| "added _ = []"

definition calls_of :: "nat \<Rightarrow> 'f IOTimer \<Rightarrow> (int \<times> 'f) list" where
  "calls_of k t = map snd (filter (\<lambda>c. fst c = k) (called t))"

text \<open>
  The calls of each firing: all at one time, not before its deadline, and of the first functions that
  were added, those that had been added to \<open>funcs_\<close> when it came.
\<close>

definition calls_ok :: "int \<Rightarrow> 'f IOTimer \<Rightarrow> bool" where
  "calls_ok t0 t \<longleftrightarrow> (\<forall>k < length (fired t). \<exists>time n. deadline t0 (duration t) k \<le> time \<and> time \<le> clock_now t
       \<and> calls_of k t = map (Pair time) (take n (funcs t)))
     \<and> (\<forall>c \<in> set (called t). fst c < length (fired t))"

definition timer_inv :: "int \<Rightarrow> 'f IOTimer \<Rightarrow> bool" where
  "timer_inv t0 t \<longleftrightarrow>
     fired t = map (deadline t0 (duration t)) [0..<length (fired t)] \<and> calls_ok t0 t
     \<and> (isActive t \<longrightarrow> thread_was_started t)
     \<and> (if thread_was_started t
        then if isSingleShot t then length (fired t) \<le> 1 \<and> (timer_waits t \<longleftrightarrow> fired t = []) \<and> expires_at t = deadline t0 (duration t) 0
             else timer_waits t \<and> expires_at t = deadline t0 (duration t) (length (fired t))
        else fired t = [] \<and> expires_at t = t0)"

lemma calls_ok_updates:
  "calls_ok t0 t \<Longrightarrow> calls_ok t0 (t\<lparr>expires_at := e, timer_waits := w\<rparr>)"
  "calls_ok t0 t \<Longrightarrow> calls_ok t0 (t\<lparr>isActive := a\<rparr>)"
  "calls_ok t0 t \<Longrightarrow> calls_ok t0 (t\<lparr>isActive := a, thread_was_started := b\<rparr>)"
  "calls_ok t0 t \<Longrightarrow> calls_ok t0 (t\<lparr>isSingleShot := a\<rparr>)"
  "calls_ok t0 t \<Longrightarrow> calls_ok t0 (t\<lparr>posted_adds := ps\<rparr>)"
  by (simp_all add: calls_ok_def calls_of_def deadline_def)

lemma calls_ok_later: "calls_ok t0 t \<Longrightarrow> calls_ok t0 (t\<lparr>clock_now := clock_now t + int n\<rparr>)"
  by (fastforce simp: calls_ok_def calls_of_def deadline_def)

lemma calls_ok_added:
  assumes "calls_ok t0 t"
  shows "calls_ok t0 (t\<lparr>posted_adds := cbs, funcs := funcs t @ [cb]\<rparr>)"
proof -
  have "\<exists>time n. deadline t0 (duration t) k \<le> time \<and> time \<le> clock_now t \<and> calls_of k t = map (Pair time) (take n (funcs t @ [cb]))"
    if "k < length (fired t)" for k
  proof -
    obtain time n where c: "deadline t0 (duration t) k \<le> time" "time \<le> clock_now t" "calls_of k t = map (Pair time) (take n (funcs t))"
      using assms \<open>k < length (fired t)\<close> by (auto simp: calls_ok_def)
    have "take n (funcs t) = take (min n (length (funcs t))) (funcs t @ [cb])"
      by (simp add: min_def)
    then show ?thesis
      using c by metis
  qed
  then show ?thesis
    using assms by (simp add: calls_ok_def calls_of_def deadline_def)
qed

text \<open>A firing makes its calls at the present time.\<close>

lemma calls_ok_fired:
  assumes "calls_ok t0 t" "e = deadline t0 (duration t) (length (fired t))" "e \<le> clock_now t"
  shows "calls_ok t0 (t\<lparr>timer_waits := w, fired := fired t @ [e],
    called := called t @ map (\<lambda>f. (length (fired t), clock_now t, f)) (funcs t)\<rparr>)"
    (is "calls_ok t0 ?t")
proof -
  have old: "calls_of k ?t = calls_of k t" if "k < length (fired t)" for k
    using that by (simp add: calls_of_def)
  have "filter (\<lambda>c. fst c = length (fired t)) (called t) = []"
    using assms(1) by (auto simp: calls_ok_def filter_empty_conv)
  then have new: "calls_of (length (fired t)) ?t = map (Pair (clock_now t)) (take (length (funcs t)) (funcs t))"
    by (simp add: calls_of_def o_def)
  have "\<exists>time n. deadline t0 (duration t) k \<le> time \<and> time \<le> clock_now t \<and> calls_of k ?t = map (Pair time) (take n (funcs t))"
    if "k < Suc (length (fired t))" for k
  proof (cases "k < length (fired t)")
    case True
    then show ?thesis
      using old [OF True] assms(1) by (auto simp: calls_ok_def)
  next
    case False
    then have k: "k = length (fired t)"
      using that by simp
    show ?thesis
      unfolding k using new assms(2,3) by blast
  qed
  moreover have "\<forall>c \<in> set (called ?t). fst c < length (fired ?t)"
    using assms(1) by (auto simp: calls_ok_def less_Suc_eq)
  ultimately show ?thesis
    by (simp add: calls_ok_def deadline_def)
qed

lemma timer_step_ok:
  assumes inv: "timer_inv t0 t" and use: "timer_use i t"
  shows "\<exists>t'. timer_step i t = Inr t' \<and> timer_inv t0 t'"
proof (cases i)
  case StartTimer
  have "calls_ok t0 (IOTimer_run (t\<lparr>isActive := True, thread_was_started := True\<rparr>))"
    unfolding IOTimer_run_def by (intro calls_ok_updates) (use inv in \<open>simp add: timer_inv_def\<close>)
  then show ?thesis
    using assms StartTimer by (auto simp: timer_inv_def IOTimer_start_def IOTimer_run_def deadline_def)
next
  case StopTimer
  then show ?thesis
    using assms calls_ok_updates(2) [of t0 t] by (auto simp: timer_inv_def IOTimer_stop_def deadline_def)
next
  case (AddTimer cb)
  then show ?thesis
    using inv calls_ok_updates(5) [of t0 t] by (auto simp: timer_inv_def IOTimer_addTimer_def deadline_def)
next
  case (SetDuration d)
  then show ?thesis
    using assms by (auto simp: timer_inv_def IOTimer_setDuration_def calls_ok_def)
next
  case (SetSingleShot b)
  then show ?thesis
    using assms calls_ok_updates(4) [of t0 t] by (auto simp: timer_inv_def IOTimer_setSingleShot_def deadline_def)
next
  case (Pass n)
  then show ?thesis
    using inv calls_ok_later [of t0 t n] by (auto simp: timer_inv_def deadline_def)
next
  case AddPosted
  then obtain cb cbs where q: "posted_adds t = cb # cbs"
    using use by (cases "posted_adds t") auto
  have "timer_inv t0 (t\<lparr>posted_adds := cbs, funcs := funcs t @ [cb]\<rparr>)"
    using inv calls_ok_added [of t0 t cb cbs] by (auto simp: timer_inv_def deadline_def)
  then show ?thesis
    using AddPosted q by (simp add: IOTimer_addTimerInThisThread_def)
next
  case Fire
  have u: "isActive t" "timer_waits t" "expires_at t \<le> clock_now t" "thread_was_started t"
    using assms Fire by (auto simp: timer_inv_def)
  have e: "expires_at t = deadline t0 (duration t) (length (fired t))"
    using inv u(2,4) by (auto simp: timer_inv_def split: if_splits)
  let ?t = "t\<lparr>timer_waits := False, fired := fired t @ [expires_at t],
    called := called t @ map (\<lambda>f. (length (fired t), clock_now t, f)) (funcs t)\<rparr>"
  have calls: "calls_ok t0 ?t"
    using inv by (intro calls_ok_fired [OF _ e u(3)]) (simp add: timer_inv_def)
  have fired: "fired t @ [expires_at t] = map (deadline t0 (duration t)) [0..<Suc (length (fired t))]"
    using inv e by (simp add: timer_inv_def)
  show ?thesis
  proof (cases "isSingleShot t")
    case True
    then have "timer_inv t0 ?t"
      using inv u calls fired unfolding timer_inv_def by auto
    then show ?thesis
      using True Fire by (simp add: IOTimer_timerHandle_def Let_def)
  next
    case False
    have "calls_ok t0 (IOTimer_run ?t)"
      unfolding IOTimer_run_def by (rule calls_ok_updates [OF calls])
    moreover have "expires_at (IOTimer_run ?t) = deadline t0 (duration t) (Suc (length (fired t)))"
      by (simp add: IOTimer_run_def e) (simp add: deadline_def algebra_simps)
    ultimately have "timer_inv t0 (IOTimer_run ?t)"
      using False u fired unfolding timer_inv_def by (simp add: IOTimer_run_def)
    then show ?thesis
      using False Fire by (simp add: IOTimer_timerHandle_def Let_def)
  qed
qed

interpretation io_timer: safe_invariant timer_use timer_step "timer_inv t0" for t0
proof unfold_locales
  show "timer_inv t0 t'" if "timer_inv t0 t" "timer_use i t" "timer_step i t = Inr t'" for t i t'
    using timer_step_ok [OF that(1,2)] that(3) by auto
  show "\<exists>t'. timer_step i t = Inr t'" if "timer_inv t0 t" "timer_use i t" for t i
    using timer_step_ok [OF that] by blast
qed

text \<open>The functions of a run, in the order of \<open>addTimer\<close>.\<close>

lemma funcs_added:
  "legal timer_use timer_step is t \<Longrightarrow> run_steps timer_step is t = Inr t' \<Longrightarrow>
     funcs t' @ posted_adds t' = funcs t @ posted_adds t @ concat (map added is)"
proof (induction "is" arbitrary: t)
  case (Cons i "is")
  obtain t1 where t1: "timer_step i t = Inr t1" "legal timer_use timer_step is t1" "run_steps timer_step is t1 = Inr t'"
    using Cons.prems by (cases "timer_step i t") auto
  have "funcs t1 @ posted_adds t1 = funcs t @ posted_adds t @ added i"
    using t1(1)
    by (cases i) (auto simp: IOTimer_start_def IOTimer_stop_def IOTimer_addTimer_def IOTimer_setDuration_def
        IOTimer_setSingleShot_def IOTimer_addTimerInThisThread_def IOTimer_timerHandle_def IOTimer_run_def Let_def
        split: if_splits list.splits)
  then show ?case
    using Cons.IH [OF t1(2,3)] by (metis append.assoc concat.simps(2) list.simps(9))
qed simp

lemma timer_run_inv:
  assumes "legal timer_use timer_step is (IOTimer_new t0 d)"
  obtains t where "run_steps timer_step is (IOTimer_new t0 d) = Inr t" "timer_inv t0 t"
proof -
  have "timer_inv t0 (IOTimer_new t0 d)"
    by (simp add: timer_inv_def IOTimer_new_def calls_ok_def)
  then show thesis
    using that by (rule io_timer.run_safe [OF _ assms])
qed

text \<open>C38. For a timer started at most once, with the duration and the mode set before: the firings have as deadlines exactly the
  multiples of the duration after the construction of the timer, however late the handlers run and
  whenever it is started. Each firing calls, not before its deadline, the functions added so far, each
  once and in the order of \<open>addTimer\<close>. While the timer is active, the next firing can come as soon as, and not
  before, its deadline has passed (a single shot fires only once), and it then calls all of \<open>funcs_\<close>.\<close>

theorem IOTimer_fires_periodically:
  assumes "legal timer_use timer_step is (IOTimer_new t0 d)"
  shows "\<exists>t. run_steps timer_step is (IOTimer_new t0 d) = Inr t
    \<and> fired t = map (\<lambda>k. t0 + int (Suc k) * uint (duration t)) [0..<length (fired t)]
    \<and> (\<forall>k < length (fired t). \<exists>time n. fired t ! k \<le> time \<and> time \<le> clock_now t
         \<and> map snd (filter (\<lambda>c. fst c = k) (called t)) = map (Pair time) (take n (funcs t)))
    \<and> funcs t @ posted_adds t = concat (map added is)
    \<and> (isActive t \<longrightarrow> (timer_use Fire t \<longleftrightarrow>
         (isSingleShot t \<longrightarrow> fired t = []) \<and> t0 + int (Suc (length (fired t))) * uint (duration t) \<le> clock_now t))
    \<and> (timer_use Fire t \<longrightarrow> (\<exists>t'. timer_step Fire t = Inr t' \<and> length (fired t') = Suc (length (fired t))
         \<and> called t' = called t @ map (\<lambda>f. (length (fired t), clock_now t, f)) (funcs t)))"
proof -
  obtain t where run: "run_steps timer_step is (IOTimer_new t0 d) = Inr t" and inv: "timer_inv t0 t"
    by (rule timer_run_inv [OF assms])
  have fired: "fired t = map (deadline t0 (duration t)) [0..<length (fired t)]" and calls: "calls_ok t0 t"
    using inv by (simp_all add: timer_inv_def)
  have "fired t ! k = deadline t0 (duration t) k" if "k < length (fired t)" for k
    using that by (subst fired) simp
  then have "\<forall>k < length (fired t). \<exists>time n. fired t ! k \<le> time \<and> time \<le> clock_now t
      \<and> map snd (filter (\<lambda>c. fst c = k) (called t)) = map (Pair time) (take n (funcs t))"
    using calls by (simp add: calls_ok_def calls_of_def)
  moreover have "funcs t @ posted_adds t = concat (map added is)"
    using funcs_added [OF assms run] by (simp add: IOTimer_new_def)
  moreover have "timer_use Fire t \<longleftrightarrow> (isSingleShot t \<longrightarrow> fired t = []) \<and> deadline t0 (duration t) (length (fired t)) \<le> clock_now t" if "isActive t"
    using inv that by (auto simp: timer_inv_def split: if_splits)
  moreover have "\<exists>t'. timer_step Fire t = Inr t' \<and> length (fired t') = Suc (length (fired t))
      \<and> called t' = called t @ map (\<lambda>f. (length (fired t), clock_now t, f)) (funcs t)"
    by (simp add: IOTimer_timerHandle_def IOTimer_run_def Let_def)
  ultimately show ?thesis
    using run fired by (simp add: deadline_def [abs_def])
qed

text \<open>A timer of 10 units made at time 100 and started 25 units later: two firings are due at once. Its
  second function is added between them.\<close>

definition late_start :: "string timer_input list" where
  "late_start = [SetDuration 10, AddTimer ''f'', Pass 25, StartTimer, AddPosted, Fire, AddTimer ''g'', AddPosted, Fire]"

lemma late_start_run:
  "legal timer_use timer_step late_start (IOTimer_new 100 0)"
  "\<exists>t. run_steps timer_step late_start (IOTimer_new 100 0) = Inr t \<and> duration t = 10
     \<and> called t = [(0, 125, ''f''), (1, 125, ''f''), (1, 125, ''g'')] \<and> length (fired t) = 2"
  by (simp_all add: late_start_def IOTimer_new_def IOTimer_setDuration_def IOTimer_addTimer_def IOTimer_start_def IOTimer_run_def
      IOTimer_addTimerInThisThread_def IOTimer_timerHandle_def Let_def)

lemma IOTimer_fires_periodically_witness:
  "\<exists>t. run_steps timer_step late_start (IOTimer_new 100 0) = Inr t
     \<and> fired t = map (\<lambda>k. 100 + int (Suc k) * 10) [0..<length (fired t)] \<and> length (fired t) = 2
     \<and> funcs t @ posted_adds t = [''f'', ''g''] \<and> called t = [(0, 125, ''f''), (1, 125, ''f''), (1, 125, ''g'')]"
  using IOTimer_fires_periodically [OF late_start_run(1)] late_start_run(2) by (auto simp: late_start_def)

text \<open>A timer cannot be started a second time.\<close>

lemma IOTimer_restart_asserts:
  "IOTimer_start t = Inr t1 \<Longrightarrow> IOTimer_stop t1 = Inr t2 \<Longrightarrow> IOTimer_start t2 = Inl AssertFailed"
  by (auto simp: IOTimer_start_def IOTimer_stop_def IOTimer_run_def split: if_splits)

end
