(* ===== verification/Dispatcher.thy ===== *)
theory Dispatcher
  imports Prelude
begin

text \<open>
  \<open>Dispatcher.h\<close>: callbacks by message type. The lemmas show that a message goes to the callback
  that was registered last for its type, with its type, and to the default one otherwise.
\<close>

text \<open>
  Message classes are of a type \<open>'c\<close>; \<open>descriptor\<close> gives the \<open>T::descriptor()\<close> of a class and is
  protobuf's. A message is known by its dynamic class and the descriptor that \<open>GetDescriptor\<close>
  returns. A callback is a number; a call of one is a pair of it and the message.
\<close>

record ('c, 'd) message =
  dynamic_class :: 'c
  getDescriptor :: 'd

record 'c CallbackT =
  target_class :: 'c
  callback :: nat

record ('c, 'd) Dispatcher =
  callbacks :: "'d \<Rightarrow> 'c CallbackT option"
  defaultCallback :: nat

definition Dispatcher_new :: "nat \<Rightarrow> ('c, 'd) Dispatcher" where
  "Dispatcher_new defaultCb = \<lparr>callbacks = (\<lambda>_. None), defaultCallback = defaultCb\<rparr>"

text \<open>Its argument is not null.\<close>

definition down_pointer_cast :: "'c \<Rightarrow> ('c, 'd) message \<Rightarrow> ('c, 'd) message result" where
  "down_pointer_cast To f = (if dynamic_class f \<noteq> To then Inl AssertFailed else Inr f)"

definition CallbackT_onMessage :: "'c CallbackT \<Rightarrow> ('c, 'd) message \<Rightarrow> (nat \<times> ('c, 'd) message) result" where
  "CallbackT_onMessage cb m =
     rbind (down_pointer_cast (target_class cb) m) (\<lambda>concrete. Inr (callback cb, concrete))"

definition Dispatcher_onMessage :: "('c, 'd) message \<Rightarrow> ('c, 'd) Dispatcher \<Rightarrow> (nat \<times> ('c, 'd) message) result" where
  "Dispatcher_onMessage m d =
     (case callbacks d (getDescriptor m) of
        Some cb \<Rightarrow> CallbackT_onMessage cb m
      | None \<Rightarrow> Inr (defaultCallback d, m))"

definition Dispatcher_registerMessageCallback :: "('c \<Rightarrow> 'd) \<Rightarrow> 'c \<Rightarrow> nat \<Rightarrow> ('c, 'd) Dispatcher \<Rightarrow> ('c, 'd) Dispatcher" where
  "Dispatcher_registerMessageCallback descriptor T cb d =
     d\<lparr>callbacks := (callbacks d)(descriptor T \<mapsto> \<lparr>target_class = T, callback = cb\<rparr>)\<rparr>"

text \<open>The registrations \<open>rs\<close> in order, and the callback that the last one for a class gave.\<close>

fun registered :: "('c \<Rightarrow> 'd) \<Rightarrow> ('c \<times> nat) list \<Rightarrow> ('c, 'd) Dispatcher \<Rightarrow> ('c, 'd) Dispatcher" where
  "registered descriptor [] d = d"
| "registered descriptor ((T, cb) # rs) d = registered descriptor rs (Dispatcher_registerMessageCallback descriptor T cb d)"

definition last_for :: "'c \<Rightarrow> ('c \<times> nat) list \<Rightarrow> nat option" where
  "last_for T rs = map_of (rev rs) T"

lemma registered_callbacks:
  assumes "inj descriptor"
  shows "callbacks (registered descriptor rs d) (descriptor T) =
    (case last_for T rs of Some cb \<Rightarrow> Some \<lparr>target_class = T, callback = cb\<rparr> | None \<Rightarrow> callbacks d (descriptor T))"
    and "defaultCallback (registered descriptor rs d) = defaultCallback d"
proof (induction rs arbitrary: d)
  case (Cons r rs)
  obtain C cb where r: "r = (C, cb)"
    by (cases r)
  case 1
  show ?case
    using Cons(1) [of "Dispatcher_registerMessageCallback descriptor C cb d"] assms
    by (auto simp: r last_for_def Dispatcher_registerMessageCallback_def map_add_def split: option.splits dest: injD)
  case 2
  show ?case
    using Cons(2) [of "Dispatcher_registerMessageCallback descriptor C cb d"]
    by (simp add: r Dispatcher_registerMessageCallback_def)
qed (simp_all add: last_for_def)

text \<open>A message whose descriptor is that of its class, as generated messages have it, goes to the
  callback registered last for that class, and to the default callback when there is none; the
  cast to the class never fails.\<close>

lemma Dispatcher_dispatches:
  assumes "inj descriptor" "getDescriptor m = descriptor (dynamic_class m)"
  shows "Dispatcher_onMessage m (registered descriptor rs (Dispatcher_new defaultCb)) =
    Inr (case last_for (dynamic_class m) rs of Some cb \<Rightarrow> cb | None \<Rightarrow> defaultCb, m)"
  using registered_callbacks(1) [OF assms(1), of rs "Dispatcher_new defaultCb" "dynamic_class m"]
    registered_callbacks(2) [OF assms(1), of rs "Dispatcher_new defaultCb"]
  by (cases "last_for (dynamic_class m) rs")
    (simp_all add: Dispatcher_onMessage_def assms(2) CallbackT_onMessage_def down_pointer_cast_def Dispatcher_new_def)

lemma Dispatcher_dispatches_witness:
  "Dispatcher_onMessage \<lparr>dynamic_class = 2 :: nat, getDescriptor = 12 :: nat\<rparr>
     (registered (\<lambda>c. c + 10) [(2, 7), (3, 8), (2, 9)] (Dispatcher_new 1)) = Inr (9, \<lparr>dynamic_class = 2, getDescriptor = 12\<rparr>)"
  using Dispatcher_dispatches [where descriptor = "\<lambda>c :: nat. c + 10" and m = "\<lparr>dynamic_class = 2, getDescriptor = 12\<rparr>"
      and rs = "[(2, 7), (3, 8), (2, 9)]" and defaultCb = 1]
  by (simp add: last_for_def inj_def)

text \<open>A message of another class with a registered descriptor fails the assertion of the cast.\<close>

lemma Dispatcher_foreign_message:
  assumes "inj descriptor" "getDescriptor m = descriptor T" "dynamic_class m \<noteq> T" "last_for T rs = Some cb"
  shows "Dispatcher_onMessage m (registered descriptor rs (Dispatcher_new defaultCb)) = Inl AssertFailed"
  using registered_callbacks(1) [OF assms(1), of rs "Dispatcher_new defaultCb" T] assms(2-4)
  by (simp add: Dispatcher_onMessage_def CallbackT_onMessage_def down_pointer_cast_def)

end
