(* ===== verification/Globals.thy ===== *)
theory Globals
  imports Prelude
begin

text \<open>
  \<open>CurrentThread.h\<close>, \<open>CurrentThread.cpp\<close>, \<open>Singleton.h\<close>: the id of the calling thread, cached in a
  thread-local variable, and the object that is made once.
\<close>

section \<open>CurrentThread\<close>

text \<open>\<open>cached_tid\<close> of every thread, \<open>None\<close> for the id of no thread. Threads are numbered by their ids.\<close>

definition CacheTid :: "nat \<Rightarrow> (nat \<Rightarrow> nat option) \<Rightarrow> nat \<Rightarrow> nat option" where
  "CacheTid self cached_tid = cached_tid(self \<mapsto> self)"

definition CurrentThread_tid :: "nat \<Rightarrow> (nat \<Rightarrow> nat option) \<Rightarrow> nat option \<times> (nat \<Rightarrow> nat option)" where
  "CurrentThread_tid self cached_tid =
     (let cached = (if cached_tid self = None then CacheTid self cached_tid else cached_tid) in (cached self, cached))"

text \<open>Whatever threads ask, each is told its own id.\<close>

fun ask_tids :: "nat list \<Rightarrow> (nat \<Rightarrow> nat option) \<Rightarrow> nat option list" where
  "ask_tids [] cached = []"
| "ask_tids (t # ts) cached = (let (n, cached1) = CurrentThread_tid t cached in n # ask_tids ts cached1)"

lemma CurrentThread_own_id: "ask_tids ts (\<lambda>_. None) = map Some ts"
proof -
  have "ask_tids ts c = map Some ts" if "\<forall>t n. c t = Some n \<longrightarrow> n = t" for c
    using that
  proof (induction ts arbitrary: c)
    case (Cons t ts)
    have "\<forall>s n. snd (CurrentThread_tid t c) s = Some n \<longrightarrow> n = s" "fst (CurrentThread_tid t c) = Some t"
      using Cons.prems by (auto simp: CurrentThread_tid_def CacheTid_def)
    then show ?case
      using Cons.IH [of "snd (CurrentThread_tid t c)"] by (simp add: case_prod_beta Let_def)
  qed simp
  then show ?thesis
    by simp
qed

section \<open>Singleton\<close>

text \<open>\<open>maker\<close> is the constructor, \<open>None\<close> when it throws; then \<open>call_once\<close> runs it again at the next call.\<close>

definition Singleton_instance :: "('a \<Rightarrow> 'o option) \<Rightarrow> 'a \<Rightarrow> 'o option \<Rightarrow> ('o \<times> 'o option) result" where
  "Singleton_instance maker args inst =
     (case inst of
        Some o' \<Rightarrow> Inr (o', inst)
      | None \<Rightarrow> (case maker args of None \<Rightarrow> Inl RuntimeError | Some o' \<Rightarrow> Inr (o', Some o')))"

fun ask_instances :: "('a \<Rightarrow> 'o option) \<Rightarrow> 'a list \<Rightarrow> 'o option \<Rightarrow> 'o list result" where
  "ask_instances maker [] inst = Inr []"
| "ask_instances maker (a # as) inst =
     rbind (Singleton_instance maker a inst) (\<lambda>(o', inst1). rbind (ask_instances maker as inst1) (\<lambda>os. Inr (o' # os)))"

text \<open>All calls get the object of the first one; the arguments of the others are ignored.\<close>

lemma Singleton_one_instance:
  assumes "maker a = Some o'"
  shows "ask_instances maker (a # as) None = Inr (replicate (Suc (length as)) o')"
proof -
  have "ask_instances maker as (Some o') = Inr (replicate (length as) o')"
    by (induction as) (simp_all add: Singleton_instance_def)
  then show ?thesis
    using assms by (simp add: Singleton_instance_def)
qed

end
