(* ===== verification/Conversation.thy ===== *)
theory Conversation
  imports TcpConnection Codec StepSystem
begin

text \<open>
  Two connections, the ends of one TCP stream. What the socket of the near end has taken arrives at
  the far end in the same order, cut into transfers anyhow. The message callback of the far end is
  \<open>LengthHeaderCodec::onMessage\<close>. The lemmas show that the messages that the near end sends come out
  at the far end, whatever else happens to the two connections.
\<close>

section \<open>The codec as message callback\<close>

text \<open>
  The calls that \<open>onMessage\<close> makes on the connection and its input buffer, in the order of its loop:
  the user's callback comes between the \<open>retrieve\<close> of the header and that of the body.
\<close>

fun codec_actions :: "(byte list \<Rightarrow> conn_action list) \<Rightarrow> codec_event list \<Rightarrow> conn_action list" where
  "codec_actions user [] = []"
| "codec_actions user (Deliver s # evs) =
     [Consume (size_of_int kHeaderLen)] @ user s @ [Consume (length s)] @ codec_actions user evs"
| "codec_actions user (Shutdown # evs) = DoShutdown # codec_actions user evs"

definition codec_callback :: "socket_ops \<Rightarrow> (byte list \<Rightarrow> conn_action list) \<Rightarrow> TcpConnection \<Rightarrow> conn_action list" where
  "codec_callback so user c =
     (case LengthHeaderCodec_onMessage so (inputBuffer c) of
        Inl e \<Rightarrow> [Fail e]
      | Inr (evs, message) \<Rightarrow> codec_actions user evs)"

text \<open>
  What \<open>onMessage\<close> hands to its user in all the calls made so far, on a buffer with the bytes that the input
  buffer had at each of them; a fault in one of them is the result.
\<close>

fun codec_heard :: "socket_ops \<Rightarrow> conn_event list \<Rightarrow> codec_event list result" where
  "codec_heard so [] = Inr []"
| "codec_heard so (OnMessage bs # es) =
     rbind (LengthHeaderCodec_onMessage so (buffer_with bs)) (\<lambda>(evs, message).
     rbind (codec_heard so es) (\<lambda>later. Inr (evs @ later)))"
| "codec_heard so (_ # es) = codec_heard so es"

definition heard :: "socket_ops \<Rightarrow> TcpConnection \<Rightarrow> codec_event list result" where
  "heard so c = codec_heard so (messages c)"

text \<open>User code that leaves the input buffer to the codec.\<close>

fun keeps_input :: "conn_action \<Rightarrow> bool" where
  "keeps_input SendInput = False"
| "keeps_input (Consume n) = False"
| "keeps_input a = True"

definition callback_keeps_input :: "(TcpConnection \<Rightarrow> conn_action list) option \<Rightarrow> bool" where
  "callback_keeps_input cb \<longleftrightarrow> (\<forall>f c. cb = Some f \<longrightarrow> list_all keeps_input (f c))"

text \<open>Nothing but the reads touches the input buffer and makes message callbacks.\<close>

definition same_input :: "TcpConnection \<Rightarrow> TcpConnection \<Rightarrow> bool" where
  "same_input c c' \<longleftrightarrow> inputBuffer c' = inputBuffer c \<and> reading c' = reading c \<and> messages c' = messages c
     \<and> (conn_state c' = kConnecting \<longleftrightarrow> conn_state c = kConnecting)"

lemma same_input_refl [simp]: "same_input c c"
  by (simp add: same_input_def)

lemma same_input_trans: "same_input c d \<Longrightarrow> same_input d e \<Longrightarrow> same_input c e"
  by (simp add: same_input_def)

lemma same_input_updates [simp]:
  "same_input (c\<lparr>posted := p\<rparr>) d = same_input c d" "same_input (c\<lparr>writing := w\<rparr>) d = same_input c d"
  "same_input c (d\<lparr>posted := p\<rparr>) = same_input c d" "same_input c (d\<lparr>outputBuffer := b\<rparr>) = same_input c d"
  "same_input c (d\<lparr>writing := w\<rparr>) = same_input c d" "same_input c (d\<lparr>sent := x\<rparr>) = same_input c d"
  "same_input c (d\<lparr>wire := x\<rparr>) = same_input c d" "same_input c (d\<lparr>hazard := h\<rparr>) = same_input c d"
  by (simp_all add: same_input_def messages_def)

lemma same_input_log [simp]: "\<not> message_event e \<Longrightarrow> same_input c (log_event e d) = same_input c d"
  by (simp add: same_input_def messages_def log_event_def)

lemma same_input_state:
  "s \<noteq> kConnecting \<Longrightarrow> conn_state c \<noteq> kConnecting \<Longrightarrow> same_input c (TcpConnection_setState s c)"
  by (simp add: same_input_def messages_def TcpConnection_setState_def)

lemma calm_same_input:
  "calm c c' \<Longrightarrow> inputBuffer c' = inputBuffer c \<Longrightarrow> same_input c c'"
  using calm_messages [of c c'] by (auto simp: calm_def same_input_def)

lemma send_keeps_input: "TcpConnection_sendInThisThread True v c = Inr c' \<Longrightarrow> inputBuffer c' = inputBuffer c"
  by (auto simp: TcpConnection_sendInThisThread_def TcpConnection_write_def rbind_eq_Inr Let_def split: if_splits)

lemma shutdown_same_input [simp]: "same_input c (shutdown_when_flushed d) = same_input c d"
  by (simp add: shutdown_when_flushed_def)

lemma call_same_input:
  assumes "conn_call in_loop a c = Inr c'" "keeps_input a"
  shows "same_input c c'"
proof (rule calm_same_input [OF calm_call [OF assms(1)]])
  show "inputBuffer c' = inputBuffer c"
    using assms
    by (cases a)
       (auto simp: TcpConnection_send_buffer_def TcpConnection_send_string_def rbind_eq_Inr post_task_def
         TcpConnection_shutdown_def TcpConnection_forceClose_def Let_def TcpConnection_setState_def
         shutdown_when_flushed_def log_event_def
         dest: send_keeps_input split: if_splits)
qed

lemma calls_same_input: "conn_calls as c = Inr c' \<Longrightarrow> list_all keeps_input as \<Longrightarrow> same_input c c'"
  by (induction as arbitrary: c) (auto simp: rbind_eq_Inr dest!: call_same_input intro: same_input_trans)

lemma invoke_same_input:
  assumes "invoke cb e c = Inr c'" "callback_keeps_input cb" "\<not> message_event e"
  shows "same_input c c'"
proof -
  obtain f where f: "cb = Some f" "conn_calls (f (log_event e c)) (log_event e c) = Inr c'"
    using assms(1) by (auto simp: invoke_def split: option.splits)
  have "same_input (log_event e c) c'"
    using calls_same_input [OF f(2)] assms(2) f(1) by (simp add: callback_keeps_input_def)
  then show ?thesis
    using same_input_trans [of c "log_event e c" c'] assms(3) by simp
qed

lemma invoke_if_same_input:
  "invoke_if cb e c = Inr c' \<Longrightarrow> callback_keeps_input cb \<Longrightarrow> \<not> message_event e \<Longrightarrow> same_input c c'"
  by (auto simp: invoke_if_def split: if_splits dest: invoke_same_input)

text \<open>Both callbacks about the connection itself.\<close>

definition owner_keeps_input :: "callbacks \<Rightarrow> bool" where
  "owner_keeps_input cb \<longleftrightarrow> callback_keeps_input (connectionCallback cb) \<and> callback_keeps_input (closeCallback cb)"

lemma handleClose_same_input:
  assumes "TcpConnection_handleClose True cb c = Inr c'" "owner_keeps_input cb"
  shows "same_input c c'" "conn_state c' \<noteq> kConnecting"
proof -
  obtain c1 where c1: "conn_state c \<noteq> kConnecting"
    "invoke_if (connectionCallback cb) (OnConnection False) (TcpConnection_setState kDisconnected c) = Inr c1"
    "invoke_if (closeCallback cb) OnClose c1 = Inr c'"
    using assms(1) by (auto simp: TcpConnection_handleClose_def rbind_eq_Inr split: if_splits)
  then show "same_input c c'"
    using invoke_if_same_input [OF c1(2)] invoke_if_same_input [OF c1(3)] assms(2) same_input_state [of kDisconnected c]
    by (auto simp: owner_keeps_input_def intro: same_input_trans)
  then show "conn_state c' \<noteq> kConnecting"
    using c1(1) by (simp add: same_input_def)
qed

lemma other_step_same_input:
  assumes "tcp_step cb so s c = Inr c'" "owner_keeps_input cb"
    and "s \<notin> {Established, ReadDone, ReadFail}" "\<And>bs. s \<noteq> ReadSome bs" "\<And>b a. s = Call b a \<Longrightarrow> keeps_input a"
  shows "same_input c c'"
proof (cases s)
  case Destroyed
  then show ?thesis
    using assms(1,2) invoke_same_input [of "connectionCallback cb" "OnConnection False" "TcpConnection_setState kDisconnected c" c']
      same_input_state [of kDisconnected c]
    by (auto simp: TcpConnection_connectDestroyed_def owner_keeps_input_def intro: same_input_trans split: if_splits)
next
  case (Call in_loop a)
  then show ?thesis
    using assms(1,5) call_same_input by simp
next
  case (RunTask alive)
  show ?thesis
  proof (cases "posted c")
    case Nil
    then show ?thesis
      using RunTask assms(1) by simp
  next
    case (Cons t ts)
    then have t: "run_task cb alive t (c\<lparr>posted := ts\<rparr>) = Inr c'"
      using RunTask assms(1) by simp
    have send: "same_input (c\<lparr>posted := ts\<rparr>) c'" if "TcpConnection_sendInThisThread True v (c\<lparr>posted := ts\<rparr>) = Inr c'" for v
      using calm_same_input [OF calm_send [OF that]] send_keeps_input [OF that] by simp
    have "same_input (c\<lparr>posted := ts\<rparr>) c'"
    proof (cases t)
      case RunForceClose
      then show ?thesis
        using t handleClose_same_input(1) [of cb "c\<lparr>posted := ts\<rparr>" c', OF _ assms(2)]
        by (auto simp: TcpConnection_forceCloseInThisThread_def split: if_splits)
    next
      case RunShutdown
      then have "c' = shutdown_when_flushed (c\<lparr>posted := ts\<rparr>)"
        using t by simp
      then show ?thesis
        by simp
    qed (use t send in \<open>auto split: if_splits\<close>)
    then show ?thesis
      by simp
  qed
next
  case (WriteSome i k)
  then show ?thesis
    using assms(1) by (auto simp: Let_def rbind_eq_Inr split: if_splits)
next
  case (WriteDone i)
  then show ?thesis
    using assms(1) by (auto simp: on_write_def rbind_eq_Inr Let_def TcpConnection_write_def split: if_splits)
next
  case (WriteFail i)
  then show ?thesis
    using assms(1) by (auto simp: on_write_def)
qed (use assms(3,4) in simp_all)

section \<open>What the codec does with a frame\<close>

lemma conn_calls_append: "conn_calls (as @ bs) c = rbind (conn_calls as c) (conn_calls bs)"
  by (induction as arbitrary: c) (simp_all add: rbind_def split: sum.split)

lemma codec_on_frame:
  assumes so: "socket_ops_ok so" and body: "0 < length body" "length body \<le> 65536"
    and b: "Buffer_wf (inputBuffer c)" "Buffer_content (inputBuffer c) = frame body"
  shows "codec_callback so user c = Consume 4 # user body @ [Consume (length body)]"
proof -
  have "decode so (frame body @ []) = (Deliver body # fst (decode so []), snd (decode so []))"
    by (rule decode_frame [OF so body(2)]) (use body(1) in simp)
  then have "fst (decode so (frame body)) = [Deliver body]"
    by (simp add: decode_stop)
  then show ?thesis
    using onMessage_decode [OF b(1), of so] b(2) by (auto simp: codec_callback_def kHeaderLen_def)
qed

lemma codec_drains_frame:
  assumes so: "socket_ops_ok so" and body: "0 < length body" "length body \<le> 65536"
    and b: "Buffer_wf (inputBuffer c)" "Buffer_content (inputBuffer c) = frame body"
    and user: "\<And>s. list_all keeps_input (user s)"
    and run: "conn_calls (codec_callback so user c) c = Inr c'"
  shows "inputBuffer c' = Buffer_retrieveAll (inputBuffer c)"
proof -
  let ?b = "inputBuffer c"
  have len: "length (Buffer_content ?b) = 4 + length body"
    by (simp add: b(2))
  then have size: "writerIndex ?b - readerIndex ?b = 4 + length body"
    using length_content [OF b(1)] by simp
  have four: "Buffer_retrieve 4 ?b = Inr (?b\<lparr>readerIndex := readerIndex ?b + 4\<rparr>)"
    using b(1) size body(1) Buffer_wfD [OF b(1)] by (simp add: Buffer_retrieve_def)
  have wf: "Buffer_wf (?b\<lparr>readerIndex := readerIndex ?b + 4\<rparr>)"
    using b(1) size by (auto simp: Buffer_wf_def)
  let ?c1 = "c\<lparr>inputBuffer := ?b\<lparr>readerIndex := readerIndex ?b + 4\<rparr>\<rparr>"
  obtain c2 where c2: "conn_calls (user body) ?c1 = Inr c2" "conn_call True (Consume (length body)) c2 = Inr c'"
    using run codec_on_frame [OF so body b, of user] four by (auto simp: conn_calls_append rbind_eq_Inr)
  have "inputBuffer c2 = ?b\<lparr>readerIndex := readerIndex ?b + 4\<rparr>"
    using calls_same_input [OF c2(1) user] by (simp add: same_input_def)
  then show ?thesis
    using c2(2) wf size by (auto simp: rbind_eq_Inr Buffer_retrieve_def Buffer_retrieveAll_def split: if_splits)
qed

section \<open>The receiving end\<close>

abbreviation frames :: "byte list list \<Rightarrow> byte list" where
  "frames bodies \<equiv> concat (map frame bodies)"

lemma next_frame:
  assumes "prefix (frames (take k bodies) @ p) (frames bodies)" "p \<noteq> []"
  shows "k < length bodies" "length p \<le> length (frame (bodies ! k)) \<Longrightarrow> p = take (length p) (frame (bodies ! k))"
proof -
  have "frames bodies = frames (take k bodies) @ frames (drop k bodies)"
    by (metis append_take_drop_id concat_append map_append)
  then have p: "prefix p (frames (drop k bodies))"
    using assms(1) by simp
  then show k: "k < length bodies"
    using assms(2) by (cases "k < length bodies") simp_all
  then have split: "frames (drop k bodies) = frame (bodies ! k) @ frames (drop (Suc k) bodies)"
    by (metis Cons_nth_drop_Suc concat.simps(2) list.simps(9))
  then show "p = take (length p) (frame (bodies ! k))" if "length p \<le> length (frame (bodies ! k))"
  proof -
    obtain zs where "p @ zs = frame (bodies ! k) @ frames (drop (Suc k) bodies)"
      using p split by (auto simp: prefix_def)
    then have "take (length p) (p @ zs) = take (length p) (frame (bodies ! k) @ frames (drop (Suc k) bodies))"
      by simp
    then show ?thesis
      using that by simp
  qed
qed

definition input_empty :: "Buffer \<Rightarrow> bool" where
  "input_empty b \<longleftrightarrow> Buffer_wf b \<and> readerIndex b = 8 \<and> writerIndex b = 8 \<and> 12 \<le> length (buffer b)"

text \<open>
  In the middle of frame \<open>k\<close>: everything before it was received, and of itself the input buffer and
  the part that the outstanding read has stored so far.
\<close>

definition reading_frame :: "byte list list \<Rightarrow> nat \<Rightarrow> Buffer \<Rightarrow> read_op \<Rightarrow> byte list \<Rightarrow> bool" where
  "reading_frame bodies k b r got \<longleftrightarrow>
     (case r_kind r of
        ReadHeader \<Rightarrow>
          input_empty b \<and> r_off r = 8 \<and> r_len r = 4 \<and> r_done r \<le> 4
          \<and> got = frames (take k bodies) @ segment 8 (8 + r_done r) (buffer b)
      | ReadBody \<Rightarrow>
          k < length bodies \<and> Buffer_wf b \<and> readerIndex b = 8 \<and> writerIndex b = 12 \<and> r_off r = 12
          \<and> r_len r = length (bodies ! k) \<and> 12 + r_len r \<le> length (buffer b) \<and> r_done r \<le> r_len r
          \<and> Buffer_content b = take 4 (frame (bodies ! k))
          \<and> got = frames (take k bodies) @ take 4 (frame (bodies ! k)) @ segment 12 (12 + r_done r) (buffer b))"

definition recv_inv :: "byte list list \<Rightarrow> TcpConnection \<Rightarrow> byte list \<Rightarrow> bool" where
  "recv_inv bodies c got \<longleftrightarrow> (\<exists>k \<le> length bodies. messages c = map (OnMessage \<circ> frame) (take k bodies)
     \<and> (case reading c of
          None \<Rightarrow> conn_state c = kConnecting \<longrightarrow> got = [] \<and> k = 0 \<and> input_empty (inputBuffer c)
        | Some r \<Rightarrow> conn_state c \<noteq> kConnecting \<and> reading_frame bodies k (inputBuffer c) r got))"

lemma recv_same: "same_input c c' \<Longrightarrow> recv_inv bodies c got \<Longrightarrow> recv_inv bodies c' got"
  unfolding recv_inv_def same_input_def by (cases "reading c") auto

lemma recv_established:
  assumes "tcp_step cb so Established c = Inr c'" "owner_keeps_input cb" "recv_inv bodies c got"
  shows "recv_inv bodies c' got"
proof -
  obtain c1 where c1: "conn_state c = kConnecting" "c' = TcpConnection_readHeader c1"
    "invoke_if (connectionCallback cb) (OnConnection True) (TcpConnection_setState kConnected c) = Inr c1"
    using assms(1) by (auto simp: TcpConnection_connectEstablished_def rbind_eq_Inr split: if_splits)
  have same: "same_input (TcpConnection_setState kConnected c) c1"
    using invoke_if_same_input [OF c1(3)] assms(2) by (simp add: owner_keeps_input_def)
  have "messages c = []" "got = []" "input_empty (inputBuffer c)"
    using assms(3) c1(1) unfolding recv_inv_def by (cases "reading c"; auto)+
  then have "messages c1 = []" "input_empty (inputBuffer c1)" "conn_state c1 \<noteq> kConnecting" "got = []"
    using same by (auto simp: same_input_def TcpConnection_setState_def messages_def)
  then show ?thesis
    unfolding recv_inv_def c1(2)
    by (intro exI [of _ 0]) (auto simp: TcpConnection_readHeader_def messages_def reading_frame_def input_empty_def)
qed

lemma recv_some:
  assumes "enabled (ReadSome bs) c" "recv_inv bodies c got" "prefix (got @ bs) (frames bodies)"
  shows "\<exists>c'. tcp_step cb so (ReadSome bs) c = Inr c' \<and> recv_inv bodies c' (got @ bs)"
proof -
  obtain r where r: "reading c = Some r" "bs \<noteq> []" "r_done r + length bs \<le> r_len r"
    using assms(1) by (auto split: option.splits)
  let ?b = "inputBuffer c"
  obtain k where k: "k \<le> length bodies" "messages c = map (OnMessage \<circ> frame) (take k bodies)"
    "conn_state c \<noteq> kConnecting" "reading_frame bodies k ?b r got"
    using assms(2) r(1) by (auto simp: recv_inv_def)
  let ?i = "r_off r + r_done r"
  have fit: "r_off r + r_len r \<le> length (buffer ?b)" "writerIndex ?b \<le> ?i" "r_off r \<le> ?i"
    using k(4) by (auto simp: reading_frame_def input_empty_def split: read_kind.splits)
  let ?v = "overwrite ?i bs (buffer ?b)"
  let ?c = "c\<lparr>inputBuffer := ?b\<lparr>buffer := ?v\<rparr>, reading := Some (r\<lparr>r_done := r_done r + length bs\<rparr>)\<rparr>"
  have step: "tcp_step cb so (ReadSome bs) c = Inr ?c"
    using r fit(1) by simp
  have seg: "segment (r_off r) (?i + length bs) ?v = segment (r_off r) ?i (buffer ?b) @ bs"
    using segment_overwrite_after [of "r_off r" ?i bs "buffer ?b"] fit r(3) by simp
  have content: "Buffer_content (?b\<lparr>buffer := ?v\<rparr>) = Buffer_content ?b"
    using segment_overwrite_disjoint [of "writerIndex ?b" ?i bs "buffer ?b"] fit r(3) by (simp add: Buffer_content_def)
  have wf: "Buffer_wf (?b\<lparr>buffer := ?v\<rparr>) = Buffer_wf ?b" "length ?v = length (buffer ?b)"
    using fit r(3) by (simp_all add: Buffer_wf_def)
  have "reading_frame bodies k (?b\<lparr>buffer := ?v\<rparr>) (r\<lparr>r_done := r_done r + length bs\<rparr>) (got @ bs)"
  proof (cases "r_kind r")
    case ReadHeader
    then show ?thesis
      using k(4) seg wf r(3) by (simp add: reading_frame_def input_empty_def add.assoc)
  next
    case ReadBody
    then show ?thesis
      using k(4) seg wf r(3) content by (simp add: reading_frame_def add.assoc)
  qed
  then have "recv_inv bodies ?c (got @ bs)"
    using k(1-3) by (auto simp: recv_inv_def messages_def)
  then show ?thesis
    using step by blast
qed

lemma recv_fail:
  assumes "tcp_step cb so ReadFail c = Inr c'" "owner_keeps_input cb" "recv_inv bodies c got" "reading c \<noteq> None"
  shows "recv_inv bodies c' got"
proof -
  have close: "TcpConnection_handleClose True cb (c\<lparr>reading := None\<rparr>) = Inr c'"
    using assms(1,4) by (auto simp: on_read_def on_readHeader_def on_readBody_def split: read_kind.splits)
  have "reading c' = None" "messages c' = messages c" "conn_state c' \<noteq> kConnecting"
    using handleClose_same_input [OF close assms(2)] by (simp_all add: same_input_def messages_def)
  then show ?thesis
    using assms(3) by (auto simp: recv_inv_def)
qed

text \<open>The length at the front of a frame.\<close>

lemma take_frame: "take 4 (frame body) = rev (obj32 (of_nat (length body)))" "drop 4 (frame body) = body"
  by (simp_all add: frame_def)

text \<open>The bytes that a step of the receiving end takes from the network.\<close>

fun arrived :: "conn_step \<Rightarrow> byte list" where
  "arrived (ReadSome bs) = bs"
| "arrived s = []"

fun step_keeps_input :: "conn_step \<Rightarrow> bool" where
  "step_keeps_input (Call in_loop a) = keeps_input a"
| "step_keeps_input s = True"

text \<open>
  A message callback for frames: it accepts some bodies, all shorter than \<open>2 ^ 31\<close>, and when the input
  buffer holds the frame of one, its calls drain the buffer.
\<close>

locale frame_receiver =
  fixes accepts :: "byte list \<Rightarrow> bool" and callback :: "TcpConnection \<Rightarrow> conn_action list"
  assumes accepts_length: "accepts body \<Longrightarrow> 0 < length body \<and> length body < 2 ^ 31"
    and drains_frame: "accepts body \<Longrightarrow> Buffer_wf (inputBuffer c) \<Longrightarrow> Buffer_content (inputBuffer c) = frame body
      \<Longrightarrow> conn_calls (callback c) c = Inr c' \<Longrightarrow> inputBuffer c' = Buffer_retrieveAll (inputBuffer c)"
begin

lemma recv_header_done:
  assumes so: "socket_ops_ok so" and ok: "\<forall>body \<in> set bodies. accepts body"
    and r: "reading c = Some r" "r_kind r = ReadHeader" "r_done r = r_len r"
    and inv: "recv_inv bodies c got" and pre: "prefix got (frames bodies)"
  shows "\<exists>c'. tcp_step cb so ReadDone c = Inr c' \<and> recv_inv bodies c' got"
proof -
  let ?b = "inputBuffer c"
  obtain k where k: "k \<le> length bodies" "messages c = map (OnMessage \<circ> frame) (take k bodies)"
    "conn_state c \<noteq> kConnecting" "reading_frame bodies k ?b r got"
    using inv r(1) by (auto simp: recv_inv_def)
  have b: "Buffer_wf ?b" "readerIndex ?b = 8" "writerIndex ?b = 8" "12 \<le> length (buffer ?b)" "r_len r = 4"
    "got = frames (take k bodies) @ segment 8 12 (buffer ?b)"
    using k(4) r by (auto simp: reading_frame_def input_empty_def)
  let ?h = "segment 8 12 (buffer ?b)"
  have len: "length ?h = 4"
    using b(4) by simp
  then have "?h \<noteq> []"
    by (metis list.size(3) zero_neq_numeral)
  then have h: "k < length bodies" "?h = take 4 (frame (bodies ! k))"
    using next_frame [of k bodies ?h] pre len unfolding b(6) by auto
  let ?n = "length (bodies ! k)"
  have n: "?n < 2 ^ 31"
    using ok accepts_length nth_mem [OF h(1)] by blast
  obtain b' where b': "on_readHeader cb so False 4 (c\<lparr>reading := None\<rparr>)
      = Inr (TcpConnection_readBody ?n (c\<lparr>reading := None, inputBuffer := b'\<rparr>))"
    "Buffer_wf b'" "readerIndex b' = 8" "writerIndex b' = 12" "12 + ?n \<le> length (buffer b')"
    "Buffer_content b' = rev (obj32 (of_nat ?n))"
    by (rule on_readHeader_ok [OF so n, of "c\<lparr>reading := None\<rparr>" cb]) (use b h(2) take_frame(1) in simp_all)
  have step: "tcp_step cb so ReadDone c = Inr (TcpConnection_readBody ?n (c\<lparr>reading := None, inputBuffer := b'\<rparr>))"
    using r b(5) b'(1) by (simp add: on_read_def)
  have "recv_inv bodies (TcpConnection_readBody ?n (c\<lparr>reading := None, inputBuffer := b'\<rparr>)) got"
    unfolding recv_inv_def
    by (intro exI [of _ k])
       (use k(1-3) h b(6) b' take_frame(1) in \<open>simp add: TcpConnection_readBody_def messages_def reading_frame_def\<close>)
  then show ?thesis
    using step by blast
qed

lemma recv_body_done:
  assumes ok: "\<forall>body \<in> set bodies. accepts body" and cb: "messageCallback cb = Some callback"
    and r: "reading c = Some r" "r_kind r = ReadBody" "r_done r = r_len r"
    and inv: "recv_inv bodies c got" and pre: "prefix got (frames bodies)"
    and step: "tcp_step cb so ReadDone c = Inr c'"
  shows "recv_inv bodies c' got"
proof -
  let ?b = "inputBuffer c"
  obtain k where k: "k \<le> length bodies" "messages c = map (OnMessage \<circ> frame) (take k bodies)"
    "conn_state c \<noteq> kConnecting" "reading_frame bodies k ?b r got"
    using inv r(1) by (auto simp: recv_inv_def)
  let ?body = "bodies ! k"
  let ?q = "segment 12 (12 + length ?body) (buffer ?b)"
  have b: "k < length bodies" "Buffer_wf ?b" "readerIndex ?b = 8" "writerIndex ?b = 12" "r_len r = length ?body"
    "12 + length ?body \<le> length (buffer ?b)" "Buffer_content ?b = take 4 (frame ?body)"
    "got = frames (take k bodies) @ take 4 (frame ?body) @ ?q"
    using k(4) r by (auto simp: reading_frame_def)
  have body: "accepts ?body" "0 < length ?body"
    using ok nth_mem [OF b(1)] accepts_length by auto
  have len: "length (take 4 (frame ?body) @ ?q) = length (frame ?body)"
    using b(6) by simp
  then have "take 4 (frame ?body) @ ?q \<noteq> []"
    by (metis add_is_0 length_frame list.size(3) zero_neq_numeral)
  then have whole: "take 4 (frame ?body) @ ?q = frame ?body"
    using next_frame(2) [of k bodies "take 4 (frame ?body) @ ?q"] pre len unfolding b(8) by simp
  obtain b' where b': "Buffer_wf b'" "readerIndex b' = 8" "writerIndex b' = 12 + length ?body" "buffer b' = buffer ?b"
    "Buffer_content b' = frame ?body"
    "on_readBody cb False (length ?body) (c\<lparr>reading := None\<rparr>) =
       rbind (invoke (messageCallback cb) (OnMessage (Buffer_content b')) (c\<lparr>reading := None, inputBuffer := b'\<rparr>)) (\<lambda>c1.
       Inr (TcpConnection_readHeader c1))"
    by (rule on_readBody_ok [of "c\<lparr>reading := None\<rparr>" "length ?body" cb]) (use b whole in simp_all)
  let ?d = "log_event (OnMessage (frame ?body)) (c\<lparr>reading := None, inputBuffer := b'\<rparr>)"
  obtain c1 where c1: "conn_calls (callback ?d) ?d = Inr c1" "c' = TcpConnection_readHeader c1"
    using step r b(5) b'(5,6) cb by (auto simp: on_read_def invoke_def rbind_eq_Inr)
  have d: "inputBuffer ?d = b'" "messages ?d = messages c @ [OnMessage (frame ?body)]" "conn_state ?d = conn_state c"
    by (simp_all add: log_event_def messages_def)
  have "inputBuffer c1 = Buffer_retrieveAll b'"
    using drains_frame [OF body(1) _ _ c1(1)] d(1) b'(1,5) by simp
  then have "input_empty (inputBuffer c1)"
    using b'(4) b(6) Buffer_retrieveAll_ok [OF b'(1)] body(2)
    by (simp add: input_empty_def Buffer_retrieveAll_def kCheapPrepend_def)
  moreover have "messages c1 = map (OnMessage \<circ> frame) (take (Suc k) bodies)" "conn_state c1 \<noteq> kConnecting"
    using calm_calls [OF c1(1)] calm_messages [of ?d c1] d(2,3) k(2,3) b(1) by (auto simp: calm_def take_Suc_conv_app_nth)
  moreover have "got = frames (take (Suc k) bodies)"
    unfolding b(8) whole using b(1) by (simp add: take_Suc_conv_app_nth)
  ultimately show ?thesis
    unfolding recv_inv_def c1(2)
    by (intro exI [of _ "Suc k"])
       (use b(1) in \<open>simp add: TcpConnection_readHeader_def messages_def reading_frame_def input_empty_def\<close>)
qed

lemma recv_step:
  assumes so: "socket_ops_ok so" and ok: "\<forall>body \<in> set bodies. accepts body"
    and cb: "messageCallback cb = Some callback" "owner_keeps_input cb"
    and s: "enabled s c" "step_keeps_input s" "tcp_step cb so s c = Inr c'"
    and inv: "recv_inv bodies c got" and pre: "prefix (got @ arrived s) (frames bodies)"
  shows "recv_inv bodies c' (got @ arrived s)"
proof -
  consider (est) "s = Established" | (some) bs where "s = ReadSome bs" | (finished) "s = ReadDone" | (failed) "s = ReadFail"
    | (other) "s \<notin> {Established, ReadDone, ReadFail}" "\<And>bs. s \<noteq> ReadSome bs"
    by auto
  then show ?thesis
  proof cases
    case est
    then show ?thesis
      using recv_established [OF _ cb(2) inv] s(3) by simp
  next
    case some
    then have pre': "prefix (got @ bs) (frames bodies)"
      using pre by simp
    have en: "enabled (ReadSome bs) c"
      using some s(1) by simp
    then obtain d where "tcp_step cb so (ReadSome bs) c = Inr d" "recv_inv bodies d (got @ bs)"
      using recv_some [OF en inv pre'] by blast
    then show ?thesis
      using s(3) some by simp
  next
    case finished
    have pre': "prefix got (frames bodies)"
      using pre finished by simp
    obtain r where r: "reading c = Some r" "r_done r = r_len r"
      using s(1) finished by (auto split: option.splits)
    have run: "tcp_step cb so ReadDone c = Inr c'"
      using s(3) finished by simp
    show ?thesis
    proof (cases "r_kind r")
      case ReadHeader
      then show ?thesis
        using recv_header_done [OF so ok r(1) _ r(2) inv pre', of cb] run finished by auto
    next
      case ReadBody
      then show ?thesis
        using recv_body_done [OF ok cb(1) r(1) _ r(2) inv pre' run] finished by simp
    qed
  next
    case failed
    then show ?thesis
      using recv_fail [OF _ cb(2) inv] s(1,3) by simp
  next
    case other
    have "same_input c c'"
      by (rule other_step_same_input [OF s(3) cb(2) other]) (use s(2) in auto)
    moreover have "arrived s = []"
      using other(2) [of "arrived s"] by (cases s) auto
    ultimately show ?thesis
      using recv_same inv by simp
  qed
qed

end

section \<open>Both ends\<close>

text \<open>\<open>received\<close> are the bytes that have reached the far end.\<close>

record Conversation =
  near :: TcpConnection
  far :: TcpConnection
  received :: "byte list"

datatype side_step = Near conn_step | Far conn_step

fun conv_step :: "callbacks \<Rightarrow> callbacks \<Rightarrow> socket_ops \<Rightarrow> side_step \<Rightarrow> Conversation \<Rightarrow> Conversation result" where
  "conv_step cbn cbf so (Near s) v = rbind (tcp_step cbn so s (near v)) (\<lambda>c. Inr (v\<lparr>near := c\<rparr>))"
| "conv_step cbn cbf so (Far s) v =
     rbind (tcp_step cbf so s (far v)) (\<lambda>c. Inr (v\<lparr>far := c, received := received v @ arrived s\<rparr>))"

text \<open>The near end is used anyhow; at the far end the input buffer is the codec's.\<close>

fun conv_use :: "side_step \<Rightarrow> Conversation \<Rightarrow> bool" where
  "conv_use (Near s) v \<longleftrightarrow> enabled s (near v)"
| "conv_use (Far s) v \<longleftrightarrow>
     enabled s (far v) \<and> step_keeps_input s \<and> prefix (received v @ arrived s) (wire (near v))"

text \<open>What is on the wire stays there.\<close>

interpretation wired: output_invariant "\<lambda>c. prefix w (wire c)" for w
proof
  fix c c' e m
  show "prefix w (wire c) \<Longrightarrow> TcpConnection_sendInThisThread True (StringPiece_of_string m) c = Inr c' \<Longrightarrow> prefix w (wire c')"
    by (auto simp: TcpConnection_sendInThisThread_def TcpConnection_write_def rbind_eq_Inr Let_def split: if_splits)
qed (simp_all add: log_event_def shutdown_when_flushed_def)

lemma wire_grows:
  assumes "tcp_step cb so s c = Inr c'"
  shows "prefix (wire c) (wire c')"
proof (cases s)
  case (WriteSome i k)
  then show ?thesis
    using assms by (auto simp: Let_def rbind_eq_Inr split: if_splits)
next
  case (WriteDone i)
  then show ?thesis
    using assms by (auto simp: on_write_def rbind_eq_Inr Let_def TcpConnection_write_def log_event_def
        shutdown_when_flushed_def split: if_splits)
next
  case (WriteFail i)
  then show ?thesis
    using assms by (auto simp: on_write_def)
qed (rule wired.inv_step [OF _ assms]; simp)+

definition conv_inv :: "(byte list \<Rightarrow> bool) \<Rightarrow> Conversation \<Rightarrow> bool" where
  "conv_inv ok v \<longleftrightarrow> out_inv (near v) \<and> prefix (received v) (wire (near v))
     \<and> (\<forall>bodies. (\<forall>body \<in> set bodies. ok body) \<and> prefix (received v) (frames bodies)
          \<longrightarrow> recv_inv bodies (far v) (received v))"

definition conversation_start :: "TcpConnection \<Rightarrow> Conversation" where
  "conversation_start c = \<lparr>near = c, far = c, received = []\<rparr>"

lemma conversation_start_inv:
  assumes "TcpConnection_new = Inr c"
  shows "conv_inv ok (conversation_start c)"
proof -
  note new = TcpConnection_new_result [OF assms]
  have "out_inv c"
    using reach_out_inv [OF assms reach.start] .
  moreover have "recv_inv bodies c []" for bodies
    unfolding recv_inv_def by (intro exI [of _ 0]) (use new in \<open>simp add: messages_def input_empty_def\<close>)
  ultimately show ?thesis
    by (simp add: conv_inv_def conversation_start_def)
qed

text \<open>When everything has arrived and no read is complete, the far end waits for the next header.\<close>

lemma all_received:
  assumes "reading_frame bodies k b r (frames bodies)" "k \<le> length bodies" "r_done r \<noteq> r_len r"
  shows "k = length bodies"
proof (rule ccontr)
  assume "k \<noteq> length bodies"
  then have k: "k < length bodies"
    using assms(2) by simp
  have split: "frames bodies = frames (take k bodies) @ frame (bodies ! k) @ frames (drop (Suc k) bodies)"
    by (metis Cons_nth_drop_Suc append_take_drop_id concat.simps(2) concat_append k list.simps(9) map_append)
  have "length (frame (bodies ! k)) \<le> length (frames bodies) - length (frames (take k bodies))"
    unfolding split by simp
  also have "\<dots> < length (frame (bodies ! k))"
    using assms(1,3) by (auto simp: reading_frame_def input_empty_def split: read_kind.splits)
  finally show False
    by simp
qed

context frame_receiver
begin

lemma conv_step_inv:
  assumes "socket_ops_ok so" "messageCallback cbf = Some callback" "owner_keeps_input cbf"
    and "conv_inv accepts v" "conv_use i v" "conv_step cbn cbf so i v = Inr v'"
  shows "conv_inv accepts v'"
proof (cases i)
  case (Near s)
  then obtain c where c: "tcp_step cbn so s (near v) = Inr c" "v' = v\<lparr>near := c\<rparr>"
    using assms(6) by (auto simp: rbind_eq_Inr)
  then show ?thesis
    using tcp_step_out [OF _ _ c(1)] wire_grows [OF c(1)] assms(4,5) Near by (auto simp: conv_inv_def)
next
  case (Far s)
  then obtain c where c: "tcp_step cbf so s (far v) = Inr c" "v' = v\<lparr>far := c, received := received v @ arrived s\<rparr>"
    using assms(6) by (auto simp: rbind_eq_Inr)
  have use: "enabled s (far v)" "step_keeps_input s" "prefix (received v @ arrived s) (wire (near v))"
    using assms(5) Far by simp_all
  have "recv_inv bodies c (received v @ arrived s)"
    if b: "\<forall>body \<in> set bodies. accepts body" "prefix (received v @ arrived s) (frames bodies)" for bodies
  proof -
    have "recv_inv bodies (far v) (received v)"
      using assms(4) b append_prefixD unfolding conv_inv_def by blast
    then show ?thesis
      using recv_step [OF assms(1) b(1) assms(2,3) use(1,2) c(1) _ b(2)] by blast
  qed
  then show ?thesis
    using assms(4) use(3) by (auto simp: conv_inv_def c(2))
qed

end

sublocale frame_receiver \<subseteq> conversation: kept_invariant conv_use "conv_step cbn cbf so"
  "\<lambda>v. socket_ops_ok so \<and> messageCallback cbf = Some callback \<and> owner_keeps_input cbf \<and> conv_inv accepts v" for cbn cbf so
  by unfold_locales (use conv_step_inv in blast)

text \<open>
  The contract of the two ends: when the near end has sent frames of accepted bodies, the message
  callbacks of the far end have been called for the first ones of them, for all of them in the end, and
  a transfer finds room for its bytes.
\<close>

context frame_receiver
begin

lemma conversation_receives:
  assumes "socket_ops_ok so" "messageCallback cbf = Some callback" "owner_keeps_input cbf" "TcpConnection_new = Inr c"
    and "legal conv_use (conv_step cbn cbf so) is (conversation_start c)"
    and "run_steps (conv_step cbn cbf so) is (conversation_start c) = Inr v"
    and "\<not> hazard (near v)" "sent (near v) = frames bodies" "\<forall>body \<in> set bodies. accepts body"
  obtains k where "k \<le> length bodies" "messages (far v) = map (OnMessage \<circ> frame) (take k bodies)"
    "received v = sent (near v) \<and> reading (far v) \<noteq> None \<and> \<not> enabled ReadDone (far v) \<longrightarrow> k = length bodies"
    "\<forall>bs. conv_use (Far (ReadSome bs)) v \<longrightarrow> (\<exists>v'. conv_step cbn cbf so (Far (ReadSome bs)) v = Inr v')"
proof -
  have inv: "conv_inv accepts v"
    using conversation.run_keeps [OF _ assms(5,6)] assms(1-3) conversation_start_inv [OF assms(4)] by blast
  have wire: "prefix (wire (near v)) (frames bodies)"
    using inv assms(7,8) wire_ok_prefix by (auto simp: conv_inv_def out_inv_def)
  then have got: "prefix (received v) (frames bodies)"
    using inv prefix_order.trans by (auto simp: conv_inv_def)
  have recv: "recv_inv bodies (far v) (received v)"
    using inv assms(9) got by (simp add: conv_inv_def)
  obtain k where k: "k \<le> length bodies" "messages (far v) = map (OnMessage \<circ> frame) (take k bodies)"
    "\<forall>r. reading (far v) = Some r \<longrightarrow> reading_frame bodies k (inputBuffer (far v)) r (received v)"
    using recv by (auto simp: recv_inv_def split: option.splits)
  have "k = length bodies"
    if "received v = sent (near v)" "reading (far v) \<noteq> None" "\<not> enabled ReadDone (far v)"
    using all_received [of bodies k] k(1,3) that assms(8) by (auto split: option.splits)
  moreover have "\<exists>v'. conv_step cbn cbf so (Far (ReadSome bs)) v = Inr v'" if u: "conv_use (Far (ReadSome bs)) v" for bs
  proof -
    have "prefix (received v @ bs) (frames bodies)" "enabled (ReadSome bs) (far v)"
      using u wire prefix_order.trans by auto
    then obtain d where "tcp_step cbf so (ReadSome bs) (far v) = Inr d"
      using recv_some [OF _ recv] by blast
    then show ?thesis
      by simp
  qed
  ultimately show ?thesis
    using that [OF k(1,2)] by blast
qed

end

section \<open>The codec at the far end\<close>

text \<open>The far end has the codec for its messages, and its user leaves the input buffer alone.\<close>

definition codec_user :: "socket_ops \<Rightarrow> callbacks \<Rightarrow> bool" where
  "codec_user so cb \<longleftrightarrow> owner_keeps_input cb
     \<and> (\<exists>user. messageCallback cb = Some (codec_callback so user) \<and> (\<forall>s. list_all keeps_input (user s)))"

interpretation codec: frame_receiver
  "\<lambda>body. socket_ops_ok so \<and> (\<forall>s. list_all keeps_input (user s)) \<and> 0 < length body \<and> length body \<le> 65536"
  "codec_callback so user" for so user
proof
  fix body :: "byte list" and c c'
  assume "socket_ops_ok so \<and> (\<forall>s. list_all keeps_input (user s)) \<and> 0 < length body \<and> length body \<le> 65536"
  then show "0 < length body \<and> length body < 2 ^ 31"
    "Buffer_wf (inputBuffer c) \<Longrightarrow> Buffer_content (inputBuffer c) = frame body
       \<Longrightarrow> conn_calls (codec_callback so user c) c = Inr c' \<Longrightarrow> inputBuffer c' = Buffer_retrieveAll (inputBuffer c)"
    using codec_drains_frame [of so body c user c'] by simp_all
qed

text \<open>Frames give the codec exactly their bodies.\<close>

lemma heard_frames:
  assumes so: "socket_ops_ok so" and m: "messages c = map (OnMessage \<circ> frame) bodies"
    and small: "\<forall>body \<in> set bodies. 0 < length body \<and> length body \<le> 65536"
  shows "heard so c = Inr (map Deliver bodies)"
proof -
  have one: "\<exists>b. LengthHeaderCodec_onMessage so (buffer_with (frame body)) = Inr ([Deliver body], b)"
    if body: "0 < length body" "length body \<le> 65536" for body
  proof -
    have "fst (decode so (frame body)) = [Deliver body]"
      using decode_frame [OF so, of body "[]"] body by (auto simp: decode_stop)
    moreover have "Buffer_wf (buffer_with (frame body))"
      using body by (simp add: buffer_with_def Buffer_wf_def Buffer_consts vec_max_size_def)
    ultimately show ?thesis
      using onMessage_decode [of "buffer_with (frame body)" so] by auto
  qed
  have "codec_heard so (map (OnMessage \<circ> frame) bodies) = Inr (map Deliver bodies)"
    using small
  proof (induction bodies)
    case (Cons body bodies)
    then show ?case
      using one [of body] by auto
  qed simp
  then show ?thesis
    by (simp add: heard_def m)
qed


section \<open>A message sent and received\<close>

lemma near_steps:
  assumes "run_enabled cbn so ss (near v)" "run cbn so ss (near v) = Inr c"
  shows "legal conv_use (conv_step cbn cbf so) (map Near ss) v"
    "run_steps (conv_step cbn cbf so) (map Near ss) v = Inr (v\<lparr>near := c\<rparr>)"
  using assms by (induction ss arbitrary: v) (auto simp: rbind_eq_Inr split: sum.splits)

lemma far_steps:
  assumes "run_enabled cbf so ss (far v)" "run cbf so ss (far v) = Inr c" "list_all step_keeps_input ss"
    and "prefix (received v @ concat (map arrived ss)) (wire (near v))"
  shows "legal conv_use (conv_step cbn cbf so) (map Far ss) v
    \<and> run_steps (conv_step cbn cbf so) (map Far ss) v = Inr (v\<lparr>far := c, received := received v @ concat (map arrived ss)\<rparr>)"
  using assms
proof (induction ss arbitrary: v)
  case (Cons s ss)
  obtain d where d: "tcp_step cbf so s (far v) = Inr d" "run cbf so ss d = Inr c"
    using Cons.prems(2) by (auto simp: rbind_eq_Inr)
  have pre: "prefix (received v @ arrived s) (wire (near v))"
    using Cons.prems(4) append_prefixD [of "received v @ arrived s"] by simp
  show ?case
    using Cons.IH [of "v\<lparr>far := d, received := received v @ arrived s\<rparr>"] Cons.prems d pre by (simp del: tcp_step.simps)
qed simp

definition codec_callbacks :: callbacks where
  "codec_callbacks = no_callbacks\<lparr>messageCallback := Some (codec_callback bswap_ops (\<lambda>_. []))\<rparr>"

lemma codec_callbacks_user: "codec_user bswap_ops codec_callbacks"
  by (auto simp: codec_user_def codec_callbacks_def no_callbacks_def owner_keeps_input_def callback_keeps_input_def)

text \<open>The inputs of an end that sends \<open>bs\<close> with one call and one transfer, and of one that receives a frame.\<close>

definition sending_steps :: "conn_action \<Rightarrow> byte list \<Rightarrow> conn_step list" where
  "sending_steps a bs = [Established, Call True a, WriteSome 0 (length bs)]"

definition receiving_steps :: "byte list \<Rightarrow> conn_step list" where
  "receiving_steps body = [Established, ReadSome (take 4 (frame body)), ReadDone, ReadSome body, ReadDone]"

lemma receiving_steps_arrived:
  "concat (map arrived (receiving_steps body)) = frame body" "list_all step_keeps_input (receiving_steps body)"
  by (simp_all add: receiving_steps_def frame_def)

lemma near_sends:
  assumes bs: "bs \<noteq> []" "length bs \<le> 1024"
    and a: "\<And>c. conn_state c = kConnected \<Longrightarrow> conn_call True a c = conn_call True (SendString bs) c"
  obtains c where "run_enabled no_callbacks bswap_ops (sending_steps a bs) fresh_connection"
    "run no_callbacks bswap_ops (sending_steps a bs) fresh_connection = Inr c"
    "\<not> hazard c" "sent c = bs" "wire c = bs"
proof -
  obtain c1 where c1: "tcp_step no_callbacks bswap_ops Established fresh_connection = Inr c1"
    "conn_state c1 = kConnected" "outputBuffer c1 = \<lparr>buffer = replicate 1032 0, readerIndex = 8, writerIndex = 8\<rparr>"
    "writing c1 = []" "sent c1 = []" "wire c1 = []" "\<not> hazard c1"
    by (simp add: established fresh_buffer_def)
  obtain c2 where c2: "tcp_step no_callbacks bswap_ops (Call True a) c1 = Inr c2"
    "buffer (outputBuffer c2) = overwrite 8 bs (replicate 1032 0)" "\<not> hazard c2" "sent c2 = bs" "wire c2 = []"
    "writing c2 = [\<lparr>w_off = 8, w_len = length bs, w_done = 0, w_stale = False\<rparr>]"
    using send_string_fresh [OF c1(2,3) _ c1(4) bs] a [OF c1(2)] c1(5-7) by simp
  have "mem_read (length bs) (drop 8 (buffer (outputBuffer c2))) = Inr bs"
    using bs(2) by (simp add: c2(2) overwrite_def mem_read_def)
  then obtain c3 where "tcp_step no_callbacks bswap_ops (WriteSome 0 (length bs)) c2 = Inr c3" "\<not> hazard c3"
    "sent c3 = bs" "wire c3 = bs"
    using c2 bs by simp
  then show ?thesis
    by (intro that [of c3]) (use bs in \<open>simp_all add: sending_steps_def c1(1) c2(1,6) del: tcp_step.simps\<close>)
qed

lemma far_receives:
  assumes body: "0 < length body" "length body \<le> 1000"
    and f: "\<And>c. Buffer_wf (inputBuffer c) \<Longrightarrow> Buffer_content (inputBuffer c) = frame body \<Longrightarrow> \<exists>c'. conn_calls (f c) c = Inr c'"
  obtains c where
    "run_enabled (no_callbacks\<lparr>messageCallback := Some f\<rparr>) bswap_ops (receiving_steps body) fresh_connection"
    "run (no_callbacks\<lparr>messageCallback := Some f\<rparr>) bswap_ops (receiving_steps body) fresh_connection = Inr c"
    "reading c \<noteq> None" "\<not> enabled ReadDone c"
proof -
  let ?cb = "no_callbacks\<lparr>messageCallback := Some f\<rparr>"
  let ?h = "take 4 (frame body)" and ?n = "length body"
  have four: "length ?h = 4"
    by simp
  let ?v = "overwrite 8 ?h (replicate 1032 0) :: byte list"
  obtain c1 where c1: "tcp_step ?cb bswap_ops Established fresh_connection = Inr c1"
    "reading c1 = Some \<lparr>r_kind = ReadHeader, r_off = 8, r_len = 4, r_done = 0\<rparr>"
    "inputBuffer c1 = \<lparr>buffer = replicate 1032 0, readerIndex = 8, writerIndex = 8\<rparr>"
    by (simp add: established fresh_buffer_def)
  obtain c2 where c2: "tcp_step ?cb bswap_ops (ReadSome ?h) c1 = Inr c2"
    "reading c2 = Some \<lparr>r_kind = ReadHeader, r_off = 8, r_len = 4, r_done = 4\<rparr>"
    "inputBuffer c2 = \<lparr>buffer = ?v, readerIndex = 8, writerIndex = 8\<rparr>"
    using c1 four by simp
  have h: "segment 8 12 ?v = rev (obj32 (of_nat ?n))"
    using segment_overwrite_exact [of 8 ?h "replicate 1032 0"] four take_frame(1) by simp
  obtain b where b: "on_readHeader ?cb bswap_ops False 4 (c2\<lparr>reading := None\<rparr>)
      = Inr (TcpConnection_readBody ?n (c2\<lparr>reading := None, inputBuffer := b\<rparr>))"
    "Buffer_wf b" "readerIndex b = 8" "writerIndex b = 12" "12 + ?n \<le> length (buffer b)" "Buffer_content b = rev (obj32 (of_nat ?n))"
    by (rule on_readHeader_ok [OF bswap_ops_ok, of ?n "c2\<lparr>reading := None\<rparr>" ?cb])
       (use c2(3) h body in \<open>simp_all add: Buffer_wf_def Buffer_consts\<close>)
  let ?b = "b\<lparr>buffer := overwrite 12 body (buffer b)\<rparr>"
  obtain c3 where c3: "tcp_step ?cb bswap_ops ReadDone c2 = Inr c3"
    "reading c3 = Some \<lparr>r_kind = ReadBody, r_off = 12, r_len = ?n, r_done = 0\<rparr>" "inputBuffer c3 = b"
    using b(1,4) c2(2) by (simp add: on_read_def TcpConnection_readBody_def)
  obtain c4 where c4: "tcp_step ?cb bswap_ops (ReadSome body) c3 = Inr c4"
    "reading c4 = Some \<lparr>r_kind = ReadBody, r_off = 12, r_len = ?n, r_done = ?n\<rparr>" "inputBuffer c4 = ?b"
    using c3 b(5) by simp
  have wf: "Buffer_wf ?b" "Buffer_content ?b = Buffer_content b" "segment 12 (12 + ?n) (buffer ?b) = body"
    using b(2,4,5) segment_overwrite_exact [of 12 body "buffer b"] segment_overwrite_disjoint [of 12 12 body "buffer b" 8]
    by (simp_all add: Buffer_wf_def Buffer_content_def b(3))
  obtain b' where b': "Buffer_wf b'" "Buffer_content b' = frame body"
    "on_readBody ?cb False ?n (c4\<lparr>reading := None\<rparr>) =
       rbind (invoke (messageCallback ?cb) (OnMessage (Buffer_content b')) (c4\<lparr>reading := None, inputBuffer := b'\<rparr>)) (\<lambda>c1.
       Inr (TcpConnection_readHeader c1))"
    by (rule on_readBody_ok [of "c4\<lparr>reading := None\<rparr>" ?n ?cb])
       (use c4(3) wf b in \<open>simp_all add: frame_def\<close>)
  let ?d = "log_event (OnMessage (frame body)) (c4\<lparr>reading := None, inputBuffer := b'\<rparr>)"
  have d: "inputBuffer ?d = b'"
    by (simp add: log_event_def)
  obtain c5' where "conn_calls (f ?d) ?d = Inr c5'"
    using f [of ?d] b'(1,2) d by auto
  then obtain c5 where c5: "tcp_step ?cb bswap_ops ReadDone c4 = Inr c5" "reading c5 \<noteq> None" "\<not> enabled ReadDone c5"
    using c4(2) b'(2,3) by (simp add: on_read_def invoke_def TcpConnection_readHeader_def)
  have "?h \<noteq> []"
    using four by (metis list.size(3) zero_neq_numeral)
  then have en: "enabled Established fresh_connection" "enabled (ReadSome ?h) c1" "enabled ReadDone c2"
    "enabled (ReadSome body) c3" "enabled ReadDone c4"
    using c1(2) c2(2) c3(2) c4(2) four body(1) by auto
  show ?thesis
    by (rule that [of c5])
       (use c1(1) c2(1) c3(1) c4(1) c5 en in \<open>simp_all add: receiving_steps_def del: tcp_step.simps enabled.simps\<close>)
qed

text \<open>A message sent at the near end, all of it taken by the far one.\<close>

lemma short_conversation:
  assumes body: "0 < length body" "length body \<le> 1000"
    and a: "\<And>c. conn_state c = kConnected \<Longrightarrow> conn_call True a c = conn_call True (SendString (frame body)) c"
    and f: "\<And>c. Buffer_wf (inputBuffer c) \<Longrightarrow> Buffer_content (inputBuffer c) = frame body \<Longrightarrow> \<exists>c'. conn_calls (f c) c = Inr c'"
  obtains v where
    "legal conv_use (conv_step no_callbacks (no_callbacks\<lparr>messageCallback := Some f\<rparr>) bswap_ops)
       (map Near (sending_steps a (frame body)) @ map Far (receiving_steps body)) (conversation_start fresh_connection)"
    "run_steps (conv_step no_callbacks (no_callbacks\<lparr>messageCallback := Some f\<rparr>) bswap_ops)
       (map Near (sending_steps a (frame body)) @ map Far (receiving_steps body)) (conversation_start fresh_connection) = Inr v"
    "\<not> hazard (near v)" "sent (near v) = frame body" "received v = frame body" "reading (far v) \<noteq> None" "\<not> enabled ReadDone (far v)"
proof -
  let ?cb = "no_callbacks\<lparr>messageCallback := Some f\<rparr>"
  let ?step = "conv_step no_callbacks ?cb bswap_ops" and ?start = "conversation_start fresh_connection"
  have bs: "frame body \<noteq> []" "length (frame body) \<le> 1024"
    using body by (auto simp: frame_def)
  obtain c where c: "run_enabled no_callbacks bswap_ops (sending_steps a (frame body)) fresh_connection"
    "run no_callbacks bswap_ops (sending_steps a (frame body)) fresh_connection = Inr c"
    "\<not> hazard c" "sent c = frame body" "wire c = frame body"
    by (rule near_sends [OF bs a])
  obtain d where d: "run_enabled ?cb bswap_ops (receiving_steps body) fresh_connection"
    "run ?cb bswap_ops (receiving_steps body) fresh_connection = Inr d"
    "reading d \<noteq> None" "\<not> enabled ReadDone d"
    by (rule far_receives [OF body f])
  let ?mid = "?start\<lparr>near := c\<rparr>"
  let ?fin = "?mid\<lparr>far := d, received := frame body\<rparr>"
  have n: "legal conv_use ?step (map Near (sending_steps a (frame body))) ?start"
    "run_steps ?step (map Near (sending_steps a (frame body))) ?start = Inr ?mid"
    using near_steps [of no_callbacks bswap_ops _ ?start] c(1,2) by (simp_all add: conversation_start_def)
  have m: "legal conv_use ?step (map Far (receiving_steps body)) ?mid"
    "run_steps ?step (map Far (receiving_steps body)) ?mid = Inr ?fin"
    using far_steps [of ?cb bswap_ops "receiving_steps body" ?mid d no_callbacks] d(1,2) c(5) receiving_steps_arrived [of body]
    by (simp_all add: conversation_start_def)
  show ?thesis
    by (rule that [of ?fin])
       (use n m c d in \<open>simp_all add: legal_append run_steps_append conversation_start_def\<close>)
qed


end
