(* ===== verification/Delivery.thy ===== *)
theory Delivery
  imports ProtobufCodec Dispatcher
begin

text \<open>
  \<open>ProtobufCodec\<close> with \<open>Dispatcher::onMessage\<close> as its message callback: a received message is parsed
  and handed to the callback of its class. The lemma joins the two components.
\<close>

text \<open>The class and the descriptor of a message are protobuf's: the parameter \<open>view\<close>.\<close>

fun dispatched ::
    "('m \<Rightarrow> ('c, 'd) message) \<Rightarrow> ('c, 'd) Dispatcher \<Rightarrow> 'm pb_event list \<Rightarrow> (nat \<times> 'm) list result" where
  "dispatched view d [] = Inr []"
| "dispatched view d (PbDeliver m # evs) =
     rbind (Dispatcher_onMessage (view m) d) (\<lambda>(cb, concrete).
     rbind (dispatched view d evs) (\<lambda>calls. Inr ((cb, m) # calls)))"
| "dispatched view d (PbShutdown # evs) = dispatched view d evs"

text \<open>The callback for a message, by the registrations in their order.\<close>

definition callback_for :: "('m \<Rightarrow> ('c, 'd) message) \<Rightarrow> ('c \<times> nat) list \<Rightarrow> nat \<Rightarrow> 'm \<Rightarrow> nat" where
  "callback_for view rs defaultCb m = (case last_for (dynamic_class (view m)) rs of Some cb \<Rightarrow> cb | None \<Rightarrow> defaultCb)"

lemma dispatched_delivers:
  assumes "inj descriptor" "\<forall>m \<in> set ms. getDescriptor (view m) = descriptor (dynamic_class (view m))"
  shows "dispatched view (registered descriptor rs (Dispatcher_new defaultCb)) (map PbDeliver ms)
    = Inr (map (\<lambda>m. (callback_for view rs defaultCb m, m)) ms)"
  using assms(2) Dispatcher_dispatches [OF assms(1)] by (induction ms) (auto simp: callback_for_def)

text \<open>C39. The frames of typed messages in a buffer, however many, end in one call each: that of the
  callback registered last for the class of the message, or of the default one, with that message, in
  the order of the frames. The cast to the class never fails, and the bytes behind the frames stay.\<close>

theorem messages_reach_callbacks:
  assumes "socket_ops_ok so" "Buffer_wf b" "list_all (pb_message_ok pb) ms"
    and "Buffer_content b = concat (map (pb_frame pb) ms) @ rest" "length rest < 14"
    and "inj descriptor" "\<forall>m \<in> set ms. getDescriptor (view m) = descriptor (dynamic_class (view m))"
  shows "\<exists>evs b'. ProtobufCodec_onMessage so pb b = Some (Inr (evs, b')) \<and> Buffer_content b' = rest
    \<and> dispatched view (registered descriptor rs (Dispatcher_new defaultCb)) evs
        = Inr (map (\<lambda>m. (callback_for view rs defaultCb m, m)) ms)"
  using ProtobufCodec_delivers_frames [OF assms(1-5)] dispatched_delivers [OF assms(6,7)] by blast

section \<open>Two classes of messages\<close>

definition typed_protobuf :: "(nat, nat \<times> byte list) protobuf" where
  "typed_protobuf = \<lparr>
     adler32 = adler32 raw_protobuf,
     find_message_type = (\<lambda>name. if name = [65] then Some 0 else if name = [66] then Some 1 else None),
     get_prototype = (\<lambda>d. Some (d, [])),
     new_message = (\<lambda>p. p),
     parse_from_array = (\<lambda>bs m. ((fst m, bs), True)),
     get_type_name = (\<lambda>m. if fst m = 0 then [65] else [66]),
     byte_size = (\<lambda>m. int (length (snd m))),
     serialize_to_array = snd\<rparr>"

lemma typed_message_ok: "t < 2 \<Longrightarrow> length m \<le> 1000 \<Longrightarrow> pb_message_ok typed_protobuf (t, m)"
  by (simp add: pb_message_ok_def pb_consts) (auto simp: typed_protobuf_def)

definition typed_view :: "nat \<times> byte list \<Rightarrow> (nat, nat) message" where
  "typed_view m = \<lparr>dynamic_class = fst m, getDescriptor = fst m + 10\<rparr>"

lemma messages_reach_callbacks_witness:
  "\<exists>evs b'. ProtobufCodec_onMessage bswap_ops typed_protobuf
      (buffer_with (pb_frame typed_protobuf (0, [1]) @ pb_frame typed_protobuf (1, [2, 3]) @ [9])) = Some (Inr (evs, b'))
    \<and> dispatched typed_view (registered (\<lambda>c. c + 10) [(0, 7), (0, 8)] (Dispatcher_new 5)) evs
        = Inr [(8, (0, [1])), (5, (1, [2, 3]))]"
proof -
  let ?ms = "[(0, [1]), (1, [2, 3])] :: (nat \<times> byte list) list"
  let ?bs = "pb_frame typed_protobuf (0, [1]) @ pb_frame typed_protobuf (1, [2, 3]) @ [9]"
  have "length ?bs \<le> 1000"
    by (simp add: typed_protobuf_def)
  then have "Buffer_wf (buffer_with ?bs)" "Buffer_content (buffer_with ?bs) = concat (map (pb_frame typed_protobuf) ?ms) @ [9]"
    using buffer_with_wf [of ?bs] buffer_with_content [of ?bs] by simp_all
  then show ?thesis
    using messages_reach_callbacks [OF bswap_ops_ok, of "buffer_with ?bs" typed_protobuf ?ms "[9]" "\<lambda>c. c + 10" typed_view
        "[(0, 7), (0, 8)]" 5] typed_message_ok
    by (auto simp: typed_view_def callback_for_def last_for_def inj_def)
qed

end
