(* ===== verification/ProtobufConversation.thy ===== *)
theory ProtobufConversation
  imports Conversation Delivery
begin

text \<open>
  The whole way of a message: \<open>ProtobufCodec::send\<close> at one end of a TCP stream, and at the other end
  \<open>ProtobufCodec::onMessage\<close> as message callback of the connection, with \<open>Dispatcher::onMessage\<close> as its own
  callback. The lemmas show that every message ends in a call of the callback for its class.
\<close>

section \<open>The codec as message callback\<close>

text \<open>
  The calls that \<open>onMessage\<close> makes on the connection and its input buffer, in the order of its loop: the
  user's callback comes before the \<open>retrieve\<close> of the frame, whose length is read from the bytes at its front.
\<close>

fun protobuf_actions ::
    "socket_ops \<Rightarrow> ('m \<Rightarrow> conn_action list) \<Rightarrow> byte list \<Rightarrow> 'm pb_event list \<Rightarrow> conn_action list" where
  "protobuf_actions so user bs [] = []"
| "protobuf_actions so user bs (PbDeliver m # evs) =
     (let n = size_of_int (header_len so bs + pbHeaderLen) in
      user m @ [Consume n] @ protobuf_actions so user (drop n bs) evs)"
| "protobuf_actions so user bs (PbShutdown # evs) = DoShutdown # protobuf_actions so user bs evs"

text \<open>A call of \<open>onMessage\<close> that faults, or that never returns (\<open>pb_hangs\<close>), does so as a callback.\<close>

definition protobuf_callback ::
    "socket_ops \<Rightarrow> ('d, 'm) protobuf \<Rightarrow> ('m \<Rightarrow> conn_action list) \<Rightarrow> TcpConnection \<Rightarrow> conn_action list" where
  "protobuf_callback so pb user c =
     (case ProtobufCodec_onMessage so pb (inputBuffer c) of
        None \<Rightarrow> [Fail Diverges]
      | Some (Inl e) \<Rightarrow> [Fail e]
      | Some (Inr (evs, b)) \<Rightarrow> protobuf_actions so user (Buffer_content (inputBuffer c)) evs)"

text \<open>The dispatcher as the codec's callback: \<open>acts\<close> are the calls of the callback it picks.\<close>

definition dispatcher_user ::
    "('m \<Rightarrow> ('c, 'd) message) \<Rightarrow> ('c, 'd) Dispatcher \<Rightarrow> (nat \<Rightarrow> 'm \<Rightarrow> conn_action list) \<Rightarrow> 'm \<Rightarrow> conn_action list" where
  "dispatcher_user view d acts m = (case Dispatcher_onMessage (view m) d of Inr (cb, concrete) \<Rightarrow> acts cb m | Inl e \<Rightarrow> [Fail e])"

text \<open>
  What \<open>onMessage\<close> hands to its user in all the calls made so far, on a buffer with the bytes that the input
  buffer had at each of them; a fault in one of them, or one that never returns, is the result.
\<close>

fun pb_heard_in :: "socket_ops \<Rightarrow> ('d, 'm) protobuf \<Rightarrow> conn_event list \<Rightarrow> 'm pb_event list result" where
  "pb_heard_in so pb [] = Inr []"
| "pb_heard_in so pb (OnMessage bs # es) =
     (case ProtobufCodec_onMessage so pb (buffer_with bs) of
        None \<Rightarrow> Inl Diverges
      | Some r \<Rightarrow> rbind r (\<lambda>(evs, b). rbind (pb_heard_in so pb es) (\<lambda>later. Inr (evs @ later))))"
| "pb_heard_in so pb (_ # es) = pb_heard_in so pb es"

definition pb_heard :: "socket_ops \<Rightarrow> ('d, 'm) protobuf \<Rightarrow> TcpConnection \<Rightarrow> 'm pb_event list result" where
  "pb_heard so pb c = pb_heard_in so pb (messages c)"

lemma frame_pb: "frame (pb_body pb m) = pb_frame pb m"
  by (simp add: frame_def pb_frame_def)

lemma pb_body_length: "pb_message_ok pb m \<Longrightarrow> 10 \<le> length (pb_body pb m) \<and> length (pb_body pb m) \<le> 67108864"
  by (auto simp: pb_message_ok_def pb_consts Suc_le_eq)

lemma protobuf_on_frame:
  assumes so: "socket_ops_ok so" and m: "pb_message_ok pb m"
    and b: "Buffer_wf (inputBuffer c)" "Buffer_content (inputBuffer c) = pb_frame pb m"
  shows "protobuf_callback so pb user c = user m @ [Consume (length (pb_frame pb m))]"
proof -
  let ?n = "length (pb_body pb m)"
  have n: "?n \<le> 67108864"
    using pb_body_length [OF m] by simp
  have "header_len so (pb_frame pb m) = int ?n"
    using header_len_be32 [OF so, of ?n "pb_body pb m"] n by (simp add: pb_frame_def)
  then have "size_of_int (header_len so (pb_frame pb m) + pbHeaderLen) = length (pb_frame pb m)"
    using n by (simp add: pb_consts nat_add_distrib)
  moreover have "\<exists>b'. ProtobufCodec_onMessage so pb (inputBuffer c) = Some (Inr ([PbDeliver m], b'))"
    using ProtobufCodec_delivers_frames [OF so b(1), of pb "[m]" "[]"] m b(2) by auto
  ultimately show ?thesis
    using b(2) by (auto simp: protobuf_callback_def Let_def simp del: length_pb)
qed

lemma protobuf_drains_frame:
  assumes so: "socket_ops_ok so" and m: "pb_message_ok pb m"
    and b: "Buffer_wf (inputBuffer c)" "Buffer_content (inputBuffer c) = pb_frame pb m"
    and user: "\<And>m. list_all keeps_input (user m)"
    and run: "conn_calls (protobuf_callback so pb user c) c = Inr c'"
  shows "inputBuffer c' = Buffer_retrieveAll (inputBuffer c)"
proof -
  let ?n = "length (pb_frame pb m)"
  obtain c1 where c1: "conn_calls (user m) c = Inr c1" "conn_call True (Consume ?n) c1 = Inr c'"
    using run protobuf_on_frame [OF so m b, of user] by (auto simp: conn_calls_append rbind_eq_Inr simp del: length_pb)
  have "inputBuffer c1 = inputBuffer c"
    using calls_same_input [OF c1(1) user] by (simp add: same_input_def)
  moreover have "Buffer_readableBytes (inputBuffer c) = ?n"
    using readable_content [OF b(1)] b(2) by simp
  ultimately show ?thesis
    using c1(2) by (auto simp: rbind_eq_Inr Buffer_retrieve_def split: if_splits)
qed

interpretation protobuf: frame_receiver
  "\<lambda>body. socket_ops_ok so \<and> (\<forall>m. list_all keeps_input (user m)) \<and> (\<exists>m. pb_message_ok pb m \<and> body = pb_body pb m)"
  "protobuf_callback so pb user" for so pb user
proof
  fix body :: "byte list" and c c'
  assume ok: "socket_ops_ok so \<and> (\<forall>m. list_all keeps_input (user m)) \<and> (\<exists>m. pb_message_ok pb m \<and> body = pb_body pb m)"
  then obtain m where m: "pb_message_ok pb m" "body = pb_body pb m"
    by blast
  show "0 < length body \<and> length body < 2 ^ 31"
    using pb_body_length [OF m(1)] m(2) by simp
  show "inputBuffer c' = Buffer_retrieveAll (inputBuffer c)"
    if "Buffer_wf (inputBuffer c)" "Buffer_content (inputBuffer c) = frame body"
      "conn_calls (protobuf_callback so pb user c) c = Inr c'"
    using protobuf_drains_frame [OF _ m(1) that(1) _ _ that(3)] that(2) ok by (simp add: m(2) frame_pb)
qed

section \<open>From one program to the other\<close>

text \<open>\<open>conn->send(&buff)\<close> at the end of \<open>ProtobufCodec::send\<close> sends the frame of the message.\<close>

lemma send_buffer_sends:
  assumes "Buffer_wf b" "conn_state c = kConnected"
  shows "conn_call True (SendBuffer b) c = conn_call True (SendString (Buffer_content b)) c"
proof -
  obtain b' where "Buffer_retrieveAllAsString b = Inr (Buffer_content b, b')"
    using Buffer_retrieveAllAsString_ok [OF assms(1)] by blast
  then show ?thesis
    using assms(2) by (simp add: TcpConnection_send_buffer_def TcpConnection_send_string_def rbind_def split: sum.split)
qed

lemma pb_heard_frames:
  assumes so: "socket_ops_ok so" and ms: "list_all (pb_message_ok pb) ms"
    and c: "messages c = map (OnMessage \<circ> frame) (map (pb_body pb) ms)"
  shows "pb_heard so pb c = Inr (map PbDeliver ms)"
proof -
  have one: "\<exists>b. ProtobufCodec_onMessage so pb (buffer_with (pb_frame pb m)) = Some (Inr ([PbDeliver m], b))"
    if m: "pb_message_ok pb m" for m
  proof -
    have "Buffer_wf (buffer_with (pb_frame pb m))"
      using pb_body_length [OF m] by (simp add: buffer_with_def Buffer_wf_def Buffer_consts vec_max_size_def)
    then show ?thesis
      using ProtobufCodec_delivers_frames [OF so, of "buffer_with (pb_frame pb m)" pb "[m]" "[]"] m by auto
  qed
  have "pb_heard_in so pb (map (OnMessage \<circ> frame) (map (pb_body pb) ms)) = Inr (map PbDeliver ms)"
    using ms
  proof (induction ms)
    case (Cons m ms)
    then show ?case
      using one [of m] by (auto simp: frame_pb)
  qed simp
  then show ?thesis
    by (simp add: pb_heard_def c)
qed

text \<open>The buffers that \<open>ProtobufCodec::send\<close> makes of messages hold their frames.\<close>

lemma sends_frames:
  "list_all2 (\<lambda>m b. ProtobufCodec_send so pb m = Inr b) ms bs \<Longrightarrow> socket_ops_ok so \<Longrightarrow> list_all (pb_message_ok pb) ms
    \<Longrightarrow> map Buffer_content bs = map (pb_frame pb) ms"
proof (induction rule: list_all2_induct)
  case (Cons m ms b bs)
  then have "pb_message_ok pb m"
    by simp
  then have "Buffer_content b = pb_frame pb m"
    using send_ok [OF Cons.prems(1), of pb m] Cons.hyps(1) by (metis sum.inject(2))
  then show ?case
    using Cons by simp
qed simp


text \<open>The class 0 with a callback, and a message of it sent with \<open>ProtobufCodec::send\<close>.\<close>

definition typed_dispatcher :: "(nat, nat) Dispatcher" where
  "typed_dispatcher = registered (\<lambda>c. c + 10) [(0, 7), (0, 8)] (Dispatcher_new 5)"

definition typed_callbacks :: "TcpConnection.callbacks" where
  "typed_callbacks = no_callbacks\<lparr>messageCallback :=
     Some (protobuf_callback bswap_ops typed_protobuf (dispatcher_user typed_view typed_dispatcher (\<lambda>_ _. [])))\<rparr>"

lemma typed_dispatch: "\<exists>x. Dispatcher_onMessage (typed_view (0, [1])) typed_dispatcher = Inr (8, x)"
  using dispatched_delivers [of "\<lambda>c :: nat. c + 10" "[(0, [1])]" typed_view "[(0, 7), (0, 8)]" 5]
  by (auto simp: typed_dispatcher_def inj_def typed_view_def callback_for_def last_for_def rbind_eq_Inr simp del: registered.simps)


end
