(* ===== verification/Example.thy ===== *)
theory Example
  imports TcpServer
begin

text \<open>
  \<open>main.cpp\<close>: the program that the repository builds, a server with five threads whose callbacks do
  nothing. Its runs are those of \<open>TcpServer\<close>. The lemma shows that a peer makes it write outside the
  input buffer of the peer's connection with one message, since no callback takes the message out.
\<close>

definition main_callbacks :: callbacks where
  "main_callbacks = \<lparr>connectionCallback = Some (\<lambda>conn. []), messageCallback = Some (\<lambda>conn. []), closeCallback = None\<rparr>"

text \<open>The endpoint's address, and the server when \<open>loop()\<close> is entered.\<close>

definition main_address :: string where "main_address = ''127.0.0.1''"

definition main_server :: "TcpServer result" where
  "main_server =
     (let s = TcpServer_setThreadNum 5 (TcpServer_new main_address) in
      TcpServer_start s)"

text \<open>The steps of one connection as steps of the server.\<close>

lemma server_conn_run:
  assumes "run_enabled (owner_callbacks main_callbacks) so ss (sc_conn (conns s ! k))"
    and "run (owner_callbacks main_callbacks) so ss (sc_conn (conns s ! k)) = Inl e"
    and "k < length (conns s)" "list_all (\<lambda>st. st = ReadDone \<or> (\<exists>bs. st = ReadSome bs)) ss"
  shows "server_run main_callbacks so (map (ConnInput k) ss) s = Inl e"
  using assms
proof (induction ss arbitrary: s)
  case (Cons st ss)
  let ?c = "sc_conn (conns s ! k)" and ?cb = "owner_callbacks main_callbacks"
  have en: "server_enabled (ConnInput k st) s"
    using Cons.prems by auto
  show ?case
  proof (cases "tcp_step ?cb so st ?c")
    case (Inl x)
    then show ?thesis
      using Cons.prems(2) en by (simp add: server_conn_step_def)
  next
    case (Inr d)
    have "closes d = closes ?c"
      using Inr Cons.prems(4)
      by (auto simp: closes_def rbind_eq_Inr on_read_def on_readHeader_def on_readBody_def TcpConnection_readBody_def
          TcpConnection_readHeader_def invoke_def owner_callbacks_def main_callbacks_def log_event_def
          split: option.splits read_kind.splits)
    then have step: "server_step main_callbacks so (ConnInput k st) s = Inr (set_conn k d s)"
      using Inr by (simp add: server_conn_step_def)
    have "server_run main_callbacks so (map (ConnInput k) ss) (set_conn k d s) = Inl e"
      by (rule Cons.IH) (use Cons.prems Inr set_conn_at [of k s d k] in simp_all)
    then show ?thesis
      using en step by (simp del: server_step.simps server_enabled.simps)
  qed
qed simp

text \<open>A message of 1024 bytes and one byte more.\<close>

definition long_message :: "conn_step list" where
  "long_message = [ReadSome [0, 0, 4, 0], ReadDone, ReadSome (replicate 1024 7), ReadDone, ReadSome [0]]"

lemma long_message_overflows:
  assumes "in_ready c" "length (buffer (inputBuffer c)) \<le> 1032" "messageCallback cb = Some (\<lambda>_. [])"
  shows "run_enabled cb bswap_ops long_message c" "run cb bswap_ops long_message c = Inl OutOfBounds"
proof -
  have h: "rev (obj32 (of_nat 1024)) = [0, 0, 4, 0]"
    by (simp add: obj32_def)
  have "frame_ok ([[0, 0, 4, 0]], [replicate 1024 7])"
    using h by (simp add: frame_ok_def)
  then have "run cb bswap_ops (frame_steps ([[0, 0, 4, 0]], [replicate 1024 7]) @ [ReadSome [0]]) c = Inl OutOfBounds"
    by (rule TcpConnection_unread_input_overflows [OF bswap_ops_ok assms(3,1,2)]) simp
  then show "run cb bswap_ops long_message c = Inl OutOfBounds"
    by (simp only: frame_steps_def long_message_def fst_conv snd_conv list.map append.simps)
  obtain c1 where c1: "run cb bswap_ops [ReadSome [0, 0, 4, 0], ReadDone] c = Inr c1"
    "reading c1 = Some \<lparr>r_kind = ReadBody, r_off = 12, r_len = 1024, r_done = 0\<rparr>"
    "Buffer_wf (inputBuffer c1)" "readerIndex (inputBuffer c1) = 8" "writerIndex (inputBuffer c1) = 12"
    "12 + 1024 \<le> length (buffer (inputBuffer c1))"
    by (rule header_read [OF bswap_ops_ok assms(1), of 1024 "[[0, 0, 4, 0]]" cb]) (use h in \<open>simp_all del: run.simps\<close>)
  have len: "length (concat [replicate 1024 7 :: byte list]) = 1024"
    by simp
  obtain b where b: "run cb bswap_ops (map ReadSome [replicate 1024 7] @ [ReadDone]) c1
      = rbind (invoke (messageCallback cb) (OnMessage (Buffer_content b)) (c1\<lparr>reading := None, inputBuffer := b\<rparr>)) (\<lambda>c2.
        Inr (TcpConnection_readHeader c2))"
    using body_read [OF c1(2-6) len, of cb bswap_ops] by metis
  show "run_enabled cb bswap_ops long_message c"
  proof -
    obtain d where d: "tcp_step cb bswap_ops (ReadSome [0, 0, 4, 0]) c = Inr d" "tcp_step cb bswap_ops ReadDone d = Inr c1"
      using c1(1) by (auto simp: rbind_eq_Inr simp del: tcp_step.simps)
    obtain e where e: "tcp_step cb bswap_ops (ReadSome (replicate 1024 7)) c1 = Inr e"
      "tcp_step cb bswap_ops ReadDone e = Inr (TcpConnection_readHeader (log_event (OnMessage (Buffer_content b)) (c1\<lparr>reading := None, inputBuffer := b\<rparr>)))"
      using b assms(3) by (auto simp: rbind_eq_Inr invoke_def simp del: tcp_step.simps)
    have "enabled ReadDone d" "enabled ReadDone e"
      using d(1) e(1) assms(1) c1(2) by (auto simp: in_ready_def rbind_eq_Inr)
    then show ?thesis
      using d e assms(1) c1(2)
      by (simp add: long_message_def in_ready_def TcpConnection_readHeader_def split: sum.split del: tcp_step.simps)
  qed
qed

lemma main_overflow:
  "\<exists>s. main_server = Inr s
    \<and> server_run main_callbacks bswap_ops (Accepted False # RunLoop 1 # map (ConnInput 0) long_message) s = Inl OutOfBounds"
proof -
  obtain s s1 s2 where s: "main_server = Inr s" "server_enabled (Accepted False) s"
    "server_step main_callbacks bswap_ops (Accepted False) s = Inr s1" "server_enabled (RunLoop 1) s1"
    "server_step main_callbacks bswap_ops (RunLoop 1) s1 = Inr s2" "length (conns s2) = 1"
    "in_ready (sc_conn (conns s2 ! 0))" "length (buffer (inputBuffer (sc_conn (conns s2 ! 0)))) = 1032"
    by (simp add: main_server_def main_address_def main_callbacks_def server_evals in_ready_def Buffer_wf_def Buffer_consts)
  have "server_run main_callbacks bswap_ops (map (ConnInput 0) long_message) s2 = Inl OutOfBounds"
    by (rule server_conn_run [OF long_message_overflows])
       (use s in \<open>simp_all add: owner_callbacks_def main_callbacks_def long_message_def\<close>)
  then show ?thesis
    using s(1-5) by (auto simp del: server_step.simps server_enabled.simps)
qed

end
