(* ===== verification/Spec2Isabelle.thy ===== *)
theory Spec2Isabelle
  imports StringPiece ByteQueue Buffer Codec ProtobufCodec TcpConnection Heap TimerQueue TimerWheel
    IOLoop IOLoopThreadPool TcpServer StepSystem Connector TcpClient ThreadPool Thread IOLoopThread
    IOTimer Dispatcher Globals Conversation Delivery ProtobufConversation Example
begin

text \<open>
  IOEvent, a TCP networking library over \<open>boost::asio\<close> (\<open>src/boost_io_context\<close>), as it is built by
  the Debug|x64 configuration: assertions are on, \<open>size_t\<close> has 64 bits, the machine is little
  endian.

  \<^bold>\<open>The program and its parts.\<close> A server is a \<open>TcpServer\<close> with an \<open>Acceptor\<close>, a pool of loops
  (\<open>IOLoopThreadPool\<close>, each loop in an \<open>IOLoopThread\<close>) and a map of \<open>TcpConnection\<close>s; a client is
  a \<open>TcpClient\<close> with a \<open>Connector\<close> and at most one open connection. A connection belongs to one
  \<open>IOLoop\<close>; whatever another thread asks of it is posted as a function to that loop. A connection
  keeps the received and the unsent bytes in two \<open>Buffer\<close>s and hands the former to a message
  callback, for which the library has two codecs; a \<open>Dispatcher\<close> then picks the callback for a
  message. Timers come in three kinds: \<open>TimerQueue\<close> (in the loop), \<open>TimerWheel\<close> (ticked by its
  owner) and \<open>IOTimer\<close> (with a thread of its own). \<open>ThreadPool\<close> runs tasks outside the loops.

  \<^bold>\<open>How the code is translated.\<close> The method \<open>m\<close> of the class \<open>C\<close> is \<open>C_m\<close>, a field \<open>f_\<close> is the
  field \<open>f\<close> of a record (with a prefix where two records would share it). An operation maps a state
  to a \<open>fault\<close> or the next state: \<open>AssertFailed\<close> for \<open>assert\<close>, \<open>LogFatal\<close> for \<open>LOG(FATAL)\<close>;
  \<open>LengthError\<close>, \<open>BadAlloc\<close>, \<open>BadFunctionCall\<close> and \<open>RuntimeError\<close> for exceptions; \<open>OutOfBounds\<close>,
  \<open>UseAfterFree\<close>, \<open>NullDeref\<close> and \<open>DivByZero\<close> for undefined behaviour; \<open>Deadlock\<close> for the lock of a
  mutex that is held; \<open>Diverges\<close> for a callback that never returns. So a theorem that an operation returns a state says that none of this
  happens. Loops are structural
  recursion, recursion with a termination proof, or a partial function whose value \<open>None\<close> is a call
  that never returns. Asynchronous operations, timers of asio, posted functions and threads are
  inputs of a step function: a run is a list of inputs, so theorems on all runs cover every
  interleaving. Which inputs can occur (a completion needs an operation under way, a thread needs
  to be at a certain place) is a predicate; where it also demands something of the user, the
  theory says so. User callbacks are functions from the state to the public operations they call (on a
  connection, with \<open>Fail\<close> for a fault of their own code).
  The callbacks that a user sets are an argument of every step; those that the owners set
  (\<open>setCloseCallback\<close>, \<open>setNewConnectCallback\<close>) are the owners' operations themselves.

  \<^bold>\<open>The theories.\<close>
  \<^item> \<open>Prelude\<close>: faults, their sequencing \<open>rbind\<close>, bytes and \<open>size_t\<close> arithmetic with wrap-around,
    \<open>htonl\<close> and its relatives as a record \<open>socket_ops\<close>, decimal numbers.
  \<^item> \<open>StepSystem\<close>: runs of a step function, and the locales \<open>kept_invariant\<close> and \<open>safe_invariant\<close>
    for what follows from an invariant that the steps keep.
  \<^item> \<open>Heap\<close>: objects made with \<open>new\<close> and destroyed with \<open>delete\<close>, so that the use of a deleted one
    and the reuse of an address are visible.
  \<^item> \<open>StringPiece\<close> (\<open>StringPiece.h\<close>): views and their comparison.
  \<^item> \<open>ByteQueue\<close>, \<open>Buffer\<close> (\<open>Buffer.h\<close>, \<open>Buffer.cpp\<close>): the buffer over a vector and two indices. The
    locales of \<open>ByteQueue\<close> are the contract that the clients of a buffer rely on; \<open>Buffer\<close>
    interprets them.
  \<^item> \<open>Codec\<close> (\<open>Codec.cpp\<close>) and \<open>ProtobufCodec\<close> (\<open>ProtobufCodec.cpp\<close>): the two framings.
  \<^item> \<open>Dispatcher\<close> (\<open>Dispatcher.h\<close>, \<open>Types.h\<close>).
  \<^item> \<open>TcpConnection\<close> (\<open>TcpConnection.cpp\<close>, \<open>Callbacks.h\<close>): a connection with its two buffers, the
    outstanding read and write and the memory that they go to, the posted functions and the events
    that its user, its owner and its peer see.
  \<^item> \<open>TimerQueue\<close> (\<open>Timestamp\<close>, \<open>Timer\<close>, \<open>TimerId.h\<close>, \<open>TimerQueue\<close>): the sets of timers over a heap
    of \<open>Timer\<close> objects, the asio timer and the clock.
  \<^item> \<open>TimerWheel\<close> (\<open>TimerWheel.cpp\<close>): the wheel of doubly linked lists over a heap of nodes.
  \<^item> \<open>IOTimer\<close> (\<open>IOTimer.h\<close>).
  \<^item> \<open>IOLoop\<close> (\<open>IOLoop.cpp\<close>), \<open>Globals\<close> (\<open>CurrentThread\<close>, \<open>Singleton.h\<close>).
  \<^item> \<open>Thread\<close> (\<open>Thread.cpp\<close>, \<open>CountDownLatch.h\<close>), \<open>IOLoopThread\<close> (\<open>IOLoopThread.cpp\<close>),
    \<open>IOLoopThreadPool\<close> (\<open>IOLoopThreadPool.cpp\<close>; its destructor is in \<open>IOLoopThread\<close>).
  \<^item> \<open>ThreadPool\<close> (\<open>ThreadPool.cpp\<close>): workers, callers of \<open>post\<close> and \<open>stop\<close>, interleaved; what a
    thread does under the mutex is one step.
  \<^item> \<open>TcpServer\<close> (\<open>TcpServer.cpp\<close>, \<open>Accept.cpp\<close>): server, acceptor, pool, the queues of the loops and
    every connection ever accepted, each in the states of \<open>TcpConnection\<close>.
  \<^item> \<open>Connector\<close> (\<open>Connector.cpp\<close>), \<open>TcpClient\<close> (\<open>TcpClient.cpp\<close>): the client with its connector and
    every connection it ever had.
  \<^item> \<open>Conversation\<close>: two connections and the stream between them; runs interleave the steps of both. The
    locale \<open>frame_receiver\<close> is the contract of the message callback of the receiving end, which
    \<open>LengthHeaderCodec::onMessage\<close> fulfils. \<open>Delivery\<close>: \<open>ProtobufCodec\<close> with \<open>Dispatcher\<close> as its message
    callback. \<open>ProtobufConversation\<close>: both as message callback of the receiving end.
  \<^item> \<open>Example\<close> (\<open>main.cpp\<close>): the server that the program starts, and a run in which a peer overflows its
    input buffer.

  \<^bold>\<open>What is shown.\<close> The properties are numbered C1, C2 and so on, with the code's most important
  promises first.
  \<^item> Bytes: a buffer refines a queue of bytes, an append succeeds exactly when the bytes fit, a
    header can always be put in front, integers are read back (C2, C9, C14); views compare
    lexicographically (C40).
  \<^item> Messages: the codecs deliver the frames of the stream in order, independently of how it is cut
    into reads; what one sends the other side receives; nothing is read outside a frame; and
    \<open>ProtobufCodec::onMessage\<close> returns exactly on the inputs given by \<open>pb_hangs\<close> being false (C7, C8,
    C10, C13, C15). A parsed message goes to the callback of its class (C39).
  \<^item> Connections: the sent bytes reach the peer in order and all of them before the shutdown, writes
    stay in bounds, frames of the peer are delivered once, callbacks are called up, down, close
    (C1, C3, C6, C11, C12). The bytes sent are safe as long as the history \<open>hazard\<close> is false: no send was
    empty, and none found too little room behind the unsent bytes while a write was outstanding. C12 says
    what happens otherwise, and two lemmas show runs that send bytes twice and through a dangling
    pointer. Frames are delivered to a message callback that empties the input buffer; with one that does
    not, as in \<open>main.cpp\<close>, the peer can write past its end. Both ends together: messages sent at one end of
    a TCP stream come out of the codec at the other end (C4), and with \<open>ProtobufCodec\<close> and \<open>Dispatcher\<close> in
    the callbacks for their classes (C5), under both conditions.
  \<^item> Timers: the wheel refines an agenda, which also says which objects live, for callbacks that do not
    themselves add or cancel timers (those block on the mutex of the wheel); neither wheel nor queue uses a
    deleted timer; timers fire at the right tick, in order, not after they were cancelled; the asio timer
    is armed in time; the destructor deletes exactly the timers of the queue (C16 to C22). \<open>IOTimer\<close> calls its
    functions at every period, each once and not early (C38).
  \<^item> Servers and clients: the map of connections is that of the open ones, the loops take turns, a
    client has one connection, reconnects when it is to, and otherwise never can again; server and client
    fault exactly when the step of a connection that they carry out does; the connector makes one attempt at
    a time with delays of 1, 2, 4, 8, 16 and then 30 seconds and comes to rest after \<open>stop\<close> (C23 to C31).
  \<^item> Threads: the loop runs every posted function, start and stop do not block, no task and no wake-up
    of the pool is lost while it runs; \<open>stop\<close> leaves sleeping workers behind (C32 to C37).
  Where the code falls short, a lemma shows the run that does so; the lemmas are next to the
  properties whose hypotheses exclude that run.

  \<^bold>\<open>Bounds.\<close> No fuel is used. The theorems on the server hold for texts of addresses of at most 45
  characters (the longest of IPv6), for which the names of connections fit into \<open>char buf[64]\<close>, and
  for less than \<open>2 ^ 32\<close> connections, after which \<open>nextConnId_\<close> wraps and names repeat. The vector of
  a buffer has at most \<open>2 ^ 63 - 1\<close> bytes, its largest size. A wheel has fewer than \<open>2 ^ 31\<close> slots,
  since positions are \<open>int\<close>s. The start of a thread takes at most 11 steps after the first.

  \<^bold>\<open>Parameters.\<close> Code outside the repository is an argument of the definitions: the byte order calls
  (\<open>socket_ops\<close>; \<open>socket_ops_ok\<close> says that the conversions in the two directions are inverse), the
  allocator of timers (any address that is free, or none), protobuf and zlib (\<open>protobuf\<close>; only
  the round trip assumes that parsing undoes serializing), descriptors and casts of messages, the
  clock. Each hypothesis is met by a concrete instance in the witnesses.

  \<^bold>\<open>Not modelled.\<close> \<open>Logging\<close> and the first lines of \<open>main\<close> set up glog: input and output only.
  \<open>ThreadPool::postFuture\<close> does not compile when it is used. The data of sockets (endpoints, options, the
  descriptors) and the names of threads have no influence on the rest and are left out, as are
  log messages. The floating point product in the conversion of an interval
  is given by its result. Memory is sequentially consistent: what another thread does between two
  steps is whole steps, so data races inside a step are not described. \<open>Buffer::internalCapacity\<close>,
  \<open>StringArg\<close> and the stream operator of \<open>StringPiece\<close>, which is declared and never defined, are
  left out. \<open>boost::circular_buffer\<close> is taken as an array of its capacity, which is what the wheel
  means by it, and the first \<open>currentSlotPos_\<close>, which no constructor sets, is a parameter that the theorems
  take inside it. Time stamps and sequence numbers of \<open>TimerQueue\<close> are integers without bound, and the
  system clock and the steady clock are one clock that does not go back. The bound of a \<open>ThreadPool\<close> is set
  before its start. The function of a \<open>Thread\<close> is one step, which returns and does not throw.
\<close>

end
